(* ===== verification/Feuer_Prelude.thy ===== *)
theory Feuer_Prelude
  imports Main "HOL-Library.Word"
begin

text \<open>
  Shared vocabulary of the development: the machine types the sources use, the pieces of the
  Rust standard library they call (slices, \<open>copy_from_slice\<close>, \<open>chunks_exact\<close>, \<open>swap_remove\<close>,
  little-endian conversions, checked, saturating and rounding integer arithmetic), and the
  lemmas on them that the component theories use. The collection \<open>slice_simps\<close> rewrites
  reads of a buffer after a write into it, and \<open>range_simps\<close> unfolds half-open ranges.

  Unsigned integers that are stored on disk or whose wrap-around matters are words; counters,
  indexes and lengths that the code keeps far below their bound are \<open>nat\<close>, with the overflow
  checks of the source written out against \<open>2 ^ 64\<close>.
\<close>

named_theorems slice_simps
named_theorems range_simps

subsection \<open>Machine types\<close>

type_synonym byte = "8 word"
type_synonym u64 = "64 word"
type_synonym u128 = "128 word"

text \<open>\<open>ObjectKeyHash(pub u128)\<close>: object identities are their 128-bit hashes.\<close>

type_synonym object_key_hash = u128

definition u64_limit :: nat where
  "u64_limit = 2 ^ 64"

definition i64_max :: nat where
  "i64_max = 2 ^ 63 - 1"

text \<open>A \<open>Range<u64>\<close>: its start and its exclusive end.\<close>

type_synonym rng = "nat \<times> nat"

abbreviation rng_set :: "rng \<Rightarrow> nat set" where
  "rng_set r \<equiv> {fst r..<snd r}"

subsection \<open>Integer operations of the Rust standard library\<close>

definition checked_add :: "nat \<Rightarrow> nat \<Rightarrow> nat option" where
  "checked_add a b = (if a + b < u64_limit then Some (a + b) else None)"

definition checked_mul :: "nat \<Rightarrow> nat \<Rightarrow> nat option" where
  "checked_mul a b = (if a * b < u64_limit then Some (a * b) else None)"

text \<open>Unchecked \<open>u64\<close> subtraction as release builds compile it: it wraps.\<close>

definition wrapping_sub :: "nat \<Rightarrow> nat \<Rightarrow> nat" where
  "wrapping_sub a b = (a + (u64_limit - b)) mod u64_limit"

definition div_ceil :: "nat \<Rightarrow> nat \<Rightarrow> nat" where
  "div_ceil a b = a div b + (if a mod b = 0 then 0 else 1)"

definition next_multiple_of :: "nat \<Rightarrow> nat \<Rightarrow> nat" where
  "next_multiple_of a b = (if a mod b = 0 then a else a + (b - a mod b))"

lemma wrapping_sub_le: "b \<le> a \<Longrightarrow> a < u64_limit \<Longrightarrow> wrapping_sub a b = a - b"
proof -
  assume "b \<le> a" and "a < u64_limit"
  then have "a + (u64_limit - b) = (a - b) + u64_limit" by simp
  moreover have "a - b < u64_limit" using \<open>a < u64_limit\<close> by simp
  ultimately show ?thesis by (simp add: wrapping_sub_def)
qed

lemma div_ceil_le_iff: "0 < b \<Longrightarrow> div_ceil a b \<le> n \<longleftrightarrow> a \<le> n * b"
proof -
  assume b: "0 < b"
  show ?thesis
  proof (cases "a mod b = 0")
    case True
    then obtain q where "a = b * q" using mod_0_imp_dvd by blast
    with b show ?thesis by (simp add: div_ceil_def mult.commute)
  next
    case False
    have eq: "a = a div b * b + a mod b" by simp
    have "a div b + 1 \<le> n \<longleftrightarrow> a div b < n" by auto
    also have "\<dots> \<longleftrightarrow> a < n * b" using b by (simp add: div_less_iff_less_mult)
    also have "\<dots> \<longleftrightarrow> a \<le> n * b"
    proof
      assume "a \<le> n * b"
      moreover have "a \<noteq> n * b" using False by auto
      ultimately show "a < n * b" by simp
    qed simp
    finally show ?thesis using False by (simp add: div_ceil_def)
  qed
qed

lemma div_ceil_mult: "0 < b \<Longrightarrow> a \<le> div_ceil a b * b"
  using div_ceil_le_iff [of b a "div_ceil a b"] by simp

lemma next_multiple_of_dvd: "0 < b \<Longrightarrow> b dvd next_multiple_of a b"
proof -
  assume b: "0 < b"
  show ?thesis
  proof (cases "a mod b = 0")
    case True
    then show ?thesis by (simp add: next_multiple_of_def mod_0_imp_dvd)
  next
    case False
    have "a + (b - a mod b) = b * (a div b) + b"
      using b mod_less_divisor [OF b, of a] mult_div_mod_eq [of b a] by linarith
    then show ?thesis using False by (simp add: next_multiple_of_def)
  qed
qed

lemma next_multiple_of_ge: "a \<le> next_multiple_of a b"
  by (simp add: next_multiple_of_def)

lemma next_multiple_of_less: "0 < b \<Longrightarrow> next_multiple_of a b < a + b"
  by (simp add: next_multiple_of_def)

lemma next_multiple_of_least:
  assumes "0 < b" and "b dvd m" and "a \<le> m"
  shows "next_multiple_of a b \<le> m"
proof (rule ccontr)
  assume "\<not> next_multiple_of a b \<le> m"
  then have lt: "m < next_multiple_of a b" by simp
  then have "b \<le> next_multiple_of a b - m"
    using assms(1,2) next_multiple_of_dvd [OF assms(1), of a]
    by (simp add: dvd_imp_le)
  then show False using next_multiple_of_less [OF assms(1), of a] assms(3) lt by linarith
qed

subsection \<open>Slices\<close>

definition slice :: "nat \<Rightarrow> nat \<Rightarrow> 'a list \<Rightarrow> 'a list" where
  "slice a b xs = take (b - a) (drop a xs)"

text \<open>\<open>dst[off..off + src.len()].copy_from_slice(src)\<close>; callers stay in range.\<close>

definition copy_into :: "nat \<Rightarrow> 'a list \<Rightarrow> 'a list \<Rightarrow> 'a list" where
  "copy_into off src dst = take off dst @ src @ drop (off + length src) dst"

lemma length_slice [simp]: "length (slice a b xs) = min (b - a) (length xs - a)"
  by (simp add: slice_def min.commute)

lemma length_copy_into [simp]:
  "off + length src \<le> length dst \<Longrightarrow> length (copy_into off src dst) = length dst"
  by (simp add: copy_into_def)

lemma nth_slice [simp]: "i < b - a \<Longrightarrow> b \<le> length xs \<Longrightarrow> slice a b xs ! i = xs ! (a + i)"
  by (simp add: slice_def)

lemma nth_copy_into:
  assumes "off + length src \<le> length dst" and "i < length dst"
  shows "copy_into off src dst ! i =
    (if off \<le> i \<and> i < off + length src then src ! (i - off) else dst ! i)"
  using assms by (auto simp: copy_into_def nth_append min_def)

lemma slice_eqI:
  assumes "b \<le> length xs" and "b \<le> length ys" and "\<And>i. a \<le> i \<Longrightarrow> i < b \<Longrightarrow> xs ! i = ys ! i"
  shows "slice a b xs = slice a b ys"
  using assms by (intro nth_equalityI) auto

lemma slice_copy_into_same [slice_simps]:
  assumes "off + length src \<le> length dst" and "a = off" and "b = off + length src"
  shows "slice a b (copy_into off src dst) = src"
  using assms by (simp add: slice_def copy_into_def)

lemma slice_copy_into_before [slice_simps]:
  assumes "off + length src \<le> length dst" and "b \<le> off"
  shows "slice a b (copy_into off src dst) = slice a b dst"
  using assms by (intro slice_eqI) (auto simp: nth_copy_into)

lemma slice_copy_into_after [slice_simps]:
  assumes "off + length src \<le> length dst" and "off + length src \<le> a" and "b \<le> length dst"
  shows "slice a b (copy_into off src dst) = slice a b dst"
  using assms by (intro slice_eqI) (auto simp: nth_copy_into)

lemma slice_all: "slice 0 (length xs) xs = xs"
  by (simp add: slice_def)

lemma slice_replicate [slice_simps]: "b \<le> n \<Longrightarrow> slice a b (replicate n x) = replicate (b - a) x"
  by (simp add: slice_def min_def)

lemma drop_as_slice: "drop a xs = slice a (length xs) xs"
  by (simp add: slice_def)

lemma take_as_slice: "take b xs = slice 0 b xs"
  by (simp add: slice_def)

lemma slice_append_slice: "a \<le> b \<Longrightarrow> b \<le> c \<Longrightarrow> slice a b xs @ slice b c xs = slice a c xs"
proof -
  assume "a \<le> b" and "b \<le> c"
  then have "slice b c xs = take (c - b) (drop (b - a) (drop a xs))" by (simp add: slice_def)
  moreover have "take (b - a) ys @ take (c - b) (drop (b - a) ys) = take (c - a) ys" for ys :: "'a list"
    using \<open>a \<le> b\<close> \<open>b \<le> c\<close> take_add [of "b - a" "c - b" ys] by simp
  ultimately show ?thesis unfolding slice_def by metis
qed

text \<open>\<open>chunks_exact(n)\<close> and \<open>as_chunks::<n>().0\<close>: full pieces of length \<open>n\<close>, the rest dropped.\<close>

definition chunks_exact :: "nat \<Rightarrow> 'a list \<Rightarrow> 'a list list" where
  "chunks_exact n xs = map (\<lambda>i. slice (i * n) (i * n + n) xs) [0..<length xs div n]"

lemma length_chunks_exact [simp]: "length (chunks_exact n xs) = length xs div n"
  by (simp add: chunks_exact_def)

lemma nth_chunks_exact [simp]:
  "i < length xs div n \<Longrightarrow> chunks_exact n xs ! i = slice (i * n) (i * n + n) xs"
  by (simp add: chunks_exact_def)

lemma chunks_exact_bound: "0 < n \<Longrightarrow> i < m div n \<Longrightarrow> i * n + n \<le> (m :: nat)"
proof -
  assume n: "0 < n" and i: "i < m div n"
  then have "Suc i * n \<le> m div n * n" by (intro mult_le_mono1) simp
  also have "\<dots> \<le> m" by simp
  finally show ?thesis by simp
qed

lemma length_chunk [simp]:
  assumes "0 < n" and "c \<in> set (chunks_exact n xs)"
  shows "length c = n"
proof -
  from assms(2) obtain i where "i < length xs div n" and "c = slice (i * n) (i * n + n) xs"
    by (auto simp: chunks_exact_def)
  then show ?thesis using chunks_exact_bound [OF assms(1), of i "length xs"] by simp
qed

lemma slice_concat_uniform:
  assumes "\<forall>c \<in> set cs. length c = n" and "i < length cs"
  shows "slice (i * n) (i * n + n) (concat cs) = cs ! i"
  using assms
proof (induction cs arbitrary: i)
  case Nil
  then show ?case by simp
next
  case (Cons c cs)
  show ?case
  proof (cases i)
    case 0
    then show ?thesis using Cons.prems by (simp add: slice_def)
  next
    case (Suc j)
    have "slice (j * n) (j * n + n) (concat cs) = cs ! j"
      using Cons.prems Suc by (intro Cons.IH) auto
    then show ?thesis using Cons.prems Suc by (simp add: slice_def)
  qed
qed

lemma length_concat_uniform:
  "\<forall>c \<in> set cs. length c = n \<Longrightarrow> length (concat cs) = length cs * n"
  by (induction cs) auto

lemma chunks_exact_concat:
  assumes "0 < n" and "\<forall>c \<in> set cs. length c = n"
  shows "chunks_exact n (concat cs) = cs"
proof (rule nth_equalityI)
  show len: "length (chunks_exact n (concat cs)) = length cs"
    using assms length_concat_uniform [OF assms(2)] by simp
  fix i assume "i < length (chunks_exact n (concat cs))"
  then have "i < length cs" using len by simp
  then show "chunks_exact n (concat cs) ! i = cs ! i"
    using assms len slice_concat_uniform [OF assms(2)] by simp
qed

subsection \<open>Little-endian integers\<close>

fun le_bytes :: "nat \<Rightarrow> nat \<Rightarrow> byte list" where
  "le_bytes 0 n = []"
| "le_bytes (Suc k) n = of_nat (n mod 256) # le_bytes k (n div 256)"

fun le_nat :: "byte list \<Rightarrow> nat" where
  "le_nat [] = 0"
| "le_nat (b # bs) = unat b + 256 * le_nat bs"

definition u64_to_le_bytes :: "u64 \<Rightarrow> byte list" where
  "u64_to_le_bytes w = le_bytes 8 (unat w)"

definition u64_from_le_bytes :: "byte list \<Rightarrow> u64" where
  "u64_from_le_bytes bs = of_nat (le_nat bs)"

definition u128_to_le_bytes :: "u128 \<Rightarrow> byte list" where
  "u128_to_le_bytes w = le_bytes 16 (unat w)"

definition u128_from_le_bytes :: "byte list \<Rightarrow> u128" where
  "u128_from_le_bytes bs = of_nat (le_nat bs)"

lemma unat_bound: "unat (w :: 'a::len word) < 2 ^ LENGTH('a)"
  by (rule unsigned_less)

lemma length_le_bytes [simp]: "length (le_bytes k n) = k"
  by (induction k arbitrary: n) auto

lemma unat_of_nat_mod_256: "unat (of_nat (n mod 256) :: byte) = n mod 256"
  by (simp add: unat_of_nat)

lemma le_nat_le_bytes: "le_nat (le_bytes k n) = n mod 256 ^ k"
proof (induction k arbitrary: n)
  case 0
  then show ?case by simp
next
  case (Suc k)
  have "n mod (256 * 256 ^ k) = 256 * (n div 256 mod 256 ^ k) + n mod 256"
    by (rule mod_mult2_eq)
  then show ?case using Suc by (simp add: unat_of_nat_mod_256)
qed

lemma le_nat_bound: "le_nat bs < 256 ^ length bs"
proof (induction bs)
  case Nil
  then show ?case by simp
next
  case (Cons b bs)
  have "unat b < 256" using unat_bound [of b] by simp
  then show ?case using Cons by simp
qed

lemma le_bytes_le_nat: "le_bytes (length bs) (le_nat bs) = bs"
proof (induction bs)
  case Nil
  then show ?case by simp
next
  case (Cons b bs)
  have "unat b < 256" using unat_bound [of b] by simp
  then show ?case using Cons by simp
qed

lemma length_u64_to_le_bytes [simp]: "length (u64_to_le_bytes w) = 8"
  by (simp add: u64_to_le_bytes_def)

lemma length_u128_to_le_bytes [simp]: "length (u128_to_le_bytes w) = 16"
  by (simp add: u128_to_le_bytes_def)

lemma u64_le_roundtrip [simp]: "u64_from_le_bytes (u64_to_le_bytes w) = w"
proof -
  have "unat w < 256 ^ 8" using unat_bound [of w] by simp
  then show ?thesis by (simp add: u64_from_le_bytes_def u64_to_le_bytes_def le_nat_le_bytes)
qed

lemma u128_le_roundtrip [simp]: "u128_from_le_bytes (u128_to_le_bytes w) = w"
proof -
  have "unat w < 256 ^ 16" using unat_bound [of w] by simp
  then show ?thesis by (simp add: u128_from_le_bytes_def u128_to_le_bytes_def le_nat_le_bytes)
qed

lemma u64_to_le_bytes_inject [simp]: "u64_to_le_bytes a = u64_to_le_bytes b \<longleftrightarrow> a = b"
  by (metis u64_le_roundtrip)

subsection \<open>Vectors and maps\<close>

text \<open>\<open>Vec::swap_remove\<close>: the last element takes the removed one's place.\<close>

definition swap_remove :: "nat \<Rightarrow> 'a list \<Rightarrow> 'a list" where
  "swap_remove i xs = (if Suc i = length xs then butlast xs else (butlast xs)[i := last xs])"

lemma length_swap_remove [simp]: "length (swap_remove i xs) = length xs - 1"
  by (simp add: swap_remove_def)

lemma nth_swap_remove:
  assumes "i < length xs" and "j < length xs - 1"
  shows "swap_remove i xs ! j = (if j = i then last xs else xs ! j)"
  using assms by (auto simp: swap_remove_def nth_butlast nth_list_update)

lemma set_swap_remove:
  assumes "i < length xs" and "distinct xs"
  shows "set (swap_remove i xs) = set xs - {xs ! i}"
proof -
  have ne: "xs \<noteq> []" using assms(1) by auto
  define n where "n = length xs - 1"
  have len: "length xs = Suc n" using ne by (simp add: n_def)
  have last: "last xs = xs ! n" using ne by (simp add: last_conv_nth n_def)
  have "x \<in> set (swap_remove i xs) \<longleftrightarrow> x \<in> set xs - {xs ! i}" for x
  proof
    assume "x \<in> set (swap_remove i xs)"
    then obtain j where j: "j < n" and x: "x = swap_remove i xs ! j"
      by (auto simp: in_set_conv_nth n_def)
    let ?k = "if j = i then n else j"
    have "x = xs ! ?k" using j x assms(1) nth_swap_remove [of i xs j] len last by simp
    moreover have "?k < length xs" and "?k \<noteq> i" using j len by auto
    ultimately show "x \<in> set xs - {xs ! i}"
      using assms by (auto simp: nth_eq_iff_index_eq)
  next
    assume "x \<in> set xs - {xs ! i}"
    then obtain k where k: "k < length xs" "x = xs ! k" "k \<noteq> i" by (auto simp: in_set_conv_nth)
    let ?j = "if k = n then i else k"
    have "?j < n" using k assms(1) len by auto
    moreover have "swap_remove i xs ! ?j = x"
      using calculation k assms(1) nth_swap_remove [of i xs ?j] len last by auto
    ultimately show "x \<in> set (swap_remove i xs)"
      by (metis length_swap_remove n_def nth_mem)
  qed
  then show ?thesis by blast
qed

lemma distinct_swap_remove:
  assumes "i < length xs" and "distinct xs"
  shows "distinct (swap_remove i xs)"
proof (rule card_distinct)
  have "card (set (swap_remove i xs)) = card (set xs) - 1"
    using assms by (simp add: set_swap_remove)
  then show "card (set (swap_remove i xs)) = length (swap_remove i xs)"
    using assms(2) by (simp add: distinct_card)
qed

text \<open>\<open>Vec::get\<close>.\<close>

definition vec_get :: "'a list \<Rightarrow> nat \<Rightarrow> 'a option" where
  "vec_get xs i = (if i < length xs then Some (xs ! i) else None)"

subsection \<open>Sums over finite maps\<close>

definition map_total :: "('v \<Rightarrow> nat) \<Rightarrow> ('k \<rightharpoonup> 'v) \<Rightarrow> nat" where
  "map_total f m = (\<Sum>k \<in> dom m. f (the (m k)))"

lemma map_total_empty [simp]: "map_total f Map.empty = 0"
  by (simp add: map_total_def)

lemma map_total_insert:
  assumes "finite (dom m)" and "m k = None"
  shows "map_total f (m(k \<mapsto> v)) = map_total f m + f v"
proof -
  have "k \<notin> dom m" using assms(2) by auto
  then have "(\<Sum>x \<in> dom m. f (the ((m(k \<mapsto> v)) x))) = (\<Sum>x \<in> dom m. f (the (m x)))"
    by (intro sum.cong) auto
  then show ?thesis using assms \<open>k \<notin> dom m\<close> by (simp add: map_total_def)
qed

lemma map_total_remove:
  assumes "finite (dom m)" and "m k = Some v"
  shows "map_total f m = map_total f (m(k := None)) + f v"
proof -
  have "(\<Sum>x \<in> dom m - {k}. f (the ((m(k := None)) x))) = (\<Sum>x \<in> dom m - {k}. f (the (m x)))"
    by (intro sum.cong) auto
  moreover have "(\<Sum>x \<in> dom m. f (the (m x))) = f v + (\<Sum>x \<in> dom m - {k}. f (the (m x)))"
    using assms by (subst sum.remove [of _ k]) auto
  ultimately show ?thesis by (simp add: map_total_def)
qed

lemma map_total_update:
  assumes "finite (dom m)" and "m k = Some v"
  shows "map_total f (m(k \<mapsto> v')) + f v = map_total f m + f v'"
proof -
  have "map_total f (m(k \<mapsto> v')) = map_total f (m(k := None)) + f v'"
    using map_total_remove [of "m(k \<mapsto> v')" k v' f] assms by simp
  with map_total_remove [OF assms, of f] show ?thesis by simp
qed

lemma map_total_cong: "dom m = dom m' \<Longrightarrow> (\<And>k v v'. m k = Some v \<Longrightarrow> m' k = Some v' \<Longrightarrow> f v = f v')
  \<Longrightarrow> map_total f m = map_total f m'"
  unfolding map_total_def by (intro sum.cong) (auto simp: dom_def set_eq_iff)

end
