(* ===== verification/Ordered_Map.thy ===== *)
theory Ordered_Map
  imports Feuer_Prelude
begin

text \<open>
  \<open>std::collections::BTreeMap\<close> as the sources use it: a key-sorted association list with
  \<open>get\<close>, \<open>insert\<close>, \<open>remove\<close>, the last entry before a key (\<open>range(..k).next_back()\<close>), the last
  entry up to a key (\<open>range(..=k).next_back()\<close>) and \<open>iter().find\<close>. The locale \<open>ordered_map\<close> is the
  contract the allocator relies on; the association list satisfies it.
\<close>

type_synonym ('k, 'v) btree = "('k \<times> 'v) list"

definition bt_get :: "('k, 'v) btree \<Rightarrow> 'k \<rightharpoonup> 'v" where
  "bt_get m = map_of m"

fun bt_insert :: "'k::linorder \<Rightarrow> 'v \<Rightarrow> ('k, 'v) btree \<Rightarrow> ('k, 'v) btree" where
  "bt_insert k v [] = [(k, v)]"
| "bt_insert k v ((k', v') # m) =
    (if k < k' then (k, v) # (k', v') # m
     else if k = k' then (k, v) # m
     else (k', v') # bt_insert k v m)"

definition bt_remove :: "'k \<Rightarrow> ('k, 'v) btree \<Rightarrow> ('k, 'v) btree" where
  "bt_remove k m = filter (\<lambda>e. fst e \<noteq> k) m"

definition last_opt :: "'a list \<Rightarrow> 'a option" where
  "last_opt xs = (if xs = [] then None else Some (last xs))"

definition bt_last_below :: "'k::linorder \<Rightarrow> ('k, 'v) btree \<Rightarrow> ('k \<times> 'v) option" where
  "bt_last_below k m = last_opt (filter (\<lambda>e. fst e < k) m)"

definition bt_last_upto :: "'k::linorder \<Rightarrow> ('k, 'v) btree \<Rightarrow> ('k \<times> 'v) option" where
  "bt_last_upto k m = last_opt (filter (\<lambda>e. fst e \<le> k) m)"

definition bt_find :: "('v \<Rightarrow> bool) \<Rightarrow> ('k, 'v) btree \<Rightarrow> ('k \<times> 'v) option" where
  "bt_find P m = find (\<lambda>e. P (snd e)) m"

definition bt_ok :: "('k::linorder, 'v) btree \<Rightarrow> bool" where
  "bt_ok m = sorted_wrt (<) (map fst m)"

subsection \<open>The contract of an ordered map\<close>

locale ordered_map =
  fixes get :: "'m \<Rightarrow> 'k::linorder \<rightharpoonup> 'v"
    and ins :: "'k \<Rightarrow> 'v \<Rightarrow> 'm \<Rightarrow> 'm"
    and rem :: "'k \<Rightarrow> 'm \<Rightarrow> 'm"
    and below :: "'k \<Rightarrow> 'm \<Rightarrow> ('k \<times> 'v) option"
    and upto :: "'k \<Rightarrow> 'm \<Rightarrow> ('k \<times> 'v) option"
    and first :: "('v \<Rightarrow> bool) \<Rightarrow> 'm \<Rightarrow> ('k \<times> 'v) option"
    and ok :: "'m \<Rightarrow> bool"
  assumes ok_ins: "ok m \<Longrightarrow> ok (ins k v m)"
    and ok_rem: "ok m \<Longrightarrow> ok (rem k m)"
    and finite_get: "finite (dom (get m))"
    and get_ins: "ok m \<Longrightarrow> get (ins k v m) = (get m)(k \<mapsto> v)"
    and get_rem: "ok m \<Longrightarrow> get (rem k m) = (get m)(k := None)"
    and below_None: "ok m \<Longrightarrow> below k m = None \<Longrightarrow> get m j = Some w \<Longrightarrow> k \<le> j"
    and below_Some: "ok m \<Longrightarrow> below k m = Some (i, v) \<Longrightarrow>
      get m i = Some v \<and> i < k \<and> (\<forall>j w. get m j = Some w \<longrightarrow> j < k \<longrightarrow> j \<le> i)"
    and upto_None: "ok m \<Longrightarrow> upto k m = None \<Longrightarrow> get m j = Some w \<Longrightarrow> k < j"
    and upto_Some: "ok m \<Longrightarrow> upto k m = Some (i, v) \<Longrightarrow>
      get m i = Some v \<and> i \<le> k \<and> (\<forall>j w. get m j = Some w \<longrightarrow> j \<le> k \<longrightarrow> j \<le> i)"
    and first_None: "ok m \<Longrightarrow> first P m = None \<Longrightarrow> get m j = Some w \<Longrightarrow> \<not> P w"
    and first_Some: "ok m \<Longrightarrow> first P m = Some (i, v) \<Longrightarrow>
      get m i = Some v \<and> P v \<and> (\<forall>j w. get m j = Some w \<longrightarrow> P w \<longrightarrow> i \<le> j)"
    and ext: "ok m \<Longrightarrow> ok m' \<Longrightarrow> get m = get m' \<Longrightarrow> m = m'"
begin

text \<open>A lookup strictly before or up to a key finds the greatest such key, so it is determined by
  the map alone.\<close>

lemma below_eq_Some:
  assumes "ok m" and "get m i = Some v" and "i < k"
    and "\<And>j w. get m j = Some w \<Longrightarrow> j < k \<Longrightarrow> j \<le> i"
  shows "below k m = Some (i, v)"
proof (cases "below k m")
  case None
  then show ?thesis using below_None [OF assms(1) None assms(2)] assms(3) by simp
next
  case (Some e)
  obtain i' v' where e: "e = (i', v')" by fastforce
  then have *: "get m i' = Some v'" "i' < k" "i \<le> i'"
    using below_Some [OF assms(1), of k i' v'] Some assms(2,3) by auto
  then have "i' = i" using assms(4) by force
  then show ?thesis using Some e * assms(2) by simp
qed

lemma upto_cases:
  assumes "ok m"
  obtains (none) "upto k m = None" and "\<And>j w. get m j = Some w \<Longrightarrow> k < j"
  | (some) i v where "upto k m = Some (i, v)" and "get m i = Some v" and "i \<le> k"
      and "\<And>j w. get m j = Some w \<Longrightarrow> j \<le> k \<Longrightarrow> j \<le> i"
proof (cases "upto k m")
  case None
  then show ?thesis using none upto_None [OF assms None] by blast
next
  case (Some e)
  then show ?thesis using some upto_Some [OF assms] by (cases e) blast
qed

lemma below_cases:
  assumes "ok m"
  obtains (none) "below k m = None" and "\<And>j w. get m j = Some w \<Longrightarrow> k \<le> j"
  | (some) i v where "below k m = Some (i, v)" and "get m i = Some v" and "i < k"
      and "\<And>j w. get m j = Some w \<Longrightarrow> j < k \<Longrightarrow> j \<le> i"
proof (cases "below k m")
  case None
  then show ?thesis using none below_None [OF assms None] by blast
next
  case (Some e)
  then show ?thesis using some below_Some [OF assms] by (cases e) blast
qed

end

subsection \<open>The association list satisfies the contract\<close>

lemma bt_ok_Cons [simp]: "bt_ok (e # m) \<longleftrightarrow> (\<forall>e' \<in> set m. fst e < fst e') \<and> bt_ok m"
  by (auto simp: bt_ok_def)

lemma bt_ok_Nil [simp]: "bt_ok []"
  by (simp add: bt_ok_def)

lemma set_bt_insert: "set (bt_insert k v m) \<subseteq> insert (k, v) (set m)"
  by (induction k v m rule: bt_insert.induct) auto

lemma bt_ok_insert: "bt_ok m \<Longrightarrow> bt_ok (bt_insert k v m)"
proof (induction k v m rule: bt_insert.induct)
  case (2 k v k' v' m)
  then show ?case using set_bt_insert [of k v m] by fastforce
qed simp

lemma bt_ok_distinct: "bt_ok m \<Longrightarrow> distinct (map fst m)"
  by (induction m) (auto simp: image_iff)

lemma bt_get_eq_Some: "bt_ok m \<Longrightarrow> bt_get m k = Some v \<longleftrightarrow> (k, v) \<in> set m"
  by (simp add: bt_get_def bt_ok_distinct)

lemma bt_get_insert: "bt_ok m \<Longrightarrow> bt_get (bt_insert k v m) = (bt_get m)(k \<mapsto> v)"
proof (induction k v m rule: bt_insert.induct)
  case (2 k v k' v' m)
  then show ?case by (auto simp: bt_get_def fun_eq_iff)
qed (simp add: bt_get_def fun_eq_iff)

lemma bt_ok_filter: "bt_ok m \<Longrightarrow> bt_ok (filter P m)"
  by (induction m) auto

lemma bt_get_remove: "bt_get (bt_remove k m) = (bt_get m)(k := None)"
  by (induction m) (auto simp: bt_get_def bt_remove_def fun_eq_iff)

lemma bt_ok_last: "bt_ok m \<Longrightarrow> e \<in> set m \<Longrightarrow> fst e \<le> fst (last m)"
  by (induction m) (auto simp: less_imp_le)

lemma bt_last_filter:
  assumes "bt_ok m" and "last_opt (filter P m) = Some (i, v)"
  shows "bt_get m i = Some v \<and> P (i, v) \<and> (\<forall>j w. bt_get m j = Some w \<longrightarrow> P (j, w) \<longrightarrow> j \<le> i)"
proof -
  have ne: "filter P m \<noteq> []" and last: "last (filter P m) = (i, v)"
    using assms(2) by (auto simp: last_opt_def split: if_splits)
  then have "(i, v) \<in> set (filter P m)" by (metis last_in_set)
  moreover have "j \<le> i" if "(j, w) \<in> set (filter P m)" for j w
    using bt_ok_last [OF bt_ok_filter [OF assms(1)] that] last by simp
  ultimately show ?thesis using assms(1) by (simp add: bt_get_eq_Some)
qed

lemma bt_last_filter_None:
  assumes "bt_ok m" and "last_opt (filter P m) = None" and "bt_get m j = Some w"
  shows "\<not> P (j, w)"
  using assms by (auto simp: bt_get_eq_Some last_opt_def filter_empty_conv split: if_splits)

lemma bt_find_Some:
  assumes "bt_ok m" and "bt_find P m = Some (i, v)"
  shows "bt_get m i = Some v \<and> P v \<and> (\<forall>j w. bt_get m j = Some w \<longrightarrow> P w \<longrightarrow> i \<le> j)"
proof -
  have "\<exists>n < length m. P (snd (m ! n)) \<and> (i, v) = m ! n \<and> (\<forall>j < n. \<not> P (snd (m ! j)))"
    using assms(2) by (simp only: bt_find_def find_Some_iff)
  then obtain n where n: "n < length m" "P (snd (m ! n))" "m ! n = (i, v)"
    and before: "\<And>j. j < n \<Longrightarrow> \<not> P (snd (m ! j))"
    by metis
  have "i \<le> j" if "(j, w) \<in> set m" and "P w" for j w
  proof -
    from that obtain l where l: "l < length m" "m ! l = (j, w)" by (auto simp: in_set_conv_nth)
    with that before [of l] have "n \<le> l" by fastforce
    then show ?thesis using assms(1) n l sorted_wrt_nth_less [of "(<)" "map fst m" n l]
      by (cases "n = l") (auto simp: bt_ok_def)
  qed
  moreover have "(i, v) \<in> set m" using n nth_mem by metis
  ultimately show ?thesis using assms(1) n by (simp add: bt_get_eq_Some)
qed

lemma bt_ext: "bt_ok m \<Longrightarrow> bt_ok m' \<Longrightarrow> bt_get m = bt_get m' \<Longrightarrow> m = m'"
proof -
  assume ok: "bt_ok m" "bt_ok m'" and eq: "bt_get m = bt_get m'"
  then have set: "set m = set m'" by (auto simp: bt_get_eq_Some [symmetric])
  have "sorted (map fst m)" and "distinct (map fst m)" if "bt_ok m" for m :: "('a \<times> 'b) list"
    using that by (auto simp: bt_ok_def strict_sorted_iff)
  then have keys: "map fst m = map fst m'"
    using ok set by (intro sorted_distinct_set_unique) auto
  have *: "map (\<lambda>k. (k, the (bt_get m k))) (map fst m) = m" if "bt_ok m" for m :: "('a \<times> 'b) list"
    using bt_ok_distinct [OF that] by (auto simp: bt_get_def intro!: map_idI)
  have "m = map (\<lambda>k. (k, the (bt_get m k))) (map fst m)" by (rule * [OF ok(1), symmetric])
  also have "\<dots> = map (\<lambda>k. (k, the (bt_get m' k))) (map fst m')" by (simp only: eq keys)
  also have "\<dots> = m'" by (rule * [OF ok(2)])
  finally show "m = m'" .
qed

interpretation bt: ordered_map bt_get bt_insert bt_remove bt_last_below bt_last_upto bt_find bt_ok
proof (standard, goal_cases)
  case 1 then show ?case by (rule bt_ok_insert)
next
  case 2 then show ?case by (simp add: bt_remove_def bt_ok_filter)
next
  case 3 then show ?case by (simp add: bt_get_def finite_dom_map_of)
next
  case 4 then show ?case by (rule bt_get_insert)
next
  case 5 then show ?case by (simp add: bt_get_remove)
next
  case (6 m k j w) then show ?case
    using bt_last_filter_None [of m "\<lambda>e. fst e < k"] by (auto simp: bt_last_below_def not_less)
next
  case (7 m k i v) then show ?case
    using bt_last_filter [of m "\<lambda>e. fst e < k"] by (simp add: bt_last_below_def)
next
  case (8 m k j w) then show ?case
    using bt_last_filter_None [of m "\<lambda>e. fst e \<le> k"] by (auto simp: bt_last_upto_def not_le)
next
  case (9 m k i v)
  from bt_last_filter [OF 9(1) 9(2) [unfolded bt_last_upto_def]] show ?case unfolding fst_conv .
next
  case (10 m P j w) then show ?case
    by (auto simp: bt_find_def find_None_iff bt_get_eq_Some)
next
  case 11 then show ?case by (rule bt_find_Some)
next
  case 12 then show ?case by (rule bt_ext)
qed

lemma bt_ok_singleton: "bt_ok [(k, v)]"
  by simp

text \<open>The sum of the values, \<open>values().sum()\<close>.\<close>

definition bt_values_sum :: "('k, nat) btree \<Rightarrow> nat" where
  "bt_values_sum m = sum_list (map snd m)"

end
