(* ===== verification/Free_Runs.thy ===== *)
theory Free_Runs
  imports Ordered_Map
begin

text \<open>
  The free map of \<open>feuer-storage/src/allocation.rs\<close>: an ordered map from the first chunk number of a
  free run to its length, adjacent runs merged. \<open>release_runs\<close> is the map part of
  \<open>FreeChunks::release\<close> and \<open>reserve_runs\<close> that of \<open>DiskChunkAllocator::reserve_chunk_numbers\<close>.

  The abstract view of the free map is the set of its chunk numbers, \<open>runs_set\<close>. Reserving and
  releasing refine set difference and union and keep the map canonical, which is the contract
  \<open>free_space\<close>; a search for a run finds the lowest fitting position.
\<close>

type_synonym runs = "(nat, nat) btree"

subsection \<open>Free runs\<close>

definition release_runs :: "rng \<Rightarrow> runs \<Rightarrow> runs" where
  "release_runs chunks runs =
    (let released_chunk_count = snd chunks - fst chunks;
         merged_chunk_count = released_chunk_count
           + (case bt_get runs (snd chunks) of Some n \<Rightarrow> n | None \<Rightarrow> 0);
         runs1 = bt_remove (snd chunks) runs
     in case bt_last_below (fst chunks) runs1 of
          Some (previous, len) \<Rightarrow>
            if previous + len = fst chunks
            then bt_insert previous (len + merged_chunk_count) runs1
            else bt_insert (fst chunks) merged_chunk_count runs1
        | None \<Rightarrow> bt_insert (fst chunks) merged_chunk_count runs1)"

definition reserve_runs :: "rng \<Rightarrow> runs \<Rightarrow> runs option" where
  "reserve_runs chunk_numbers runs =
    (case bt_last_upto (fst chunk_numbers) runs of
       None \<Rightarrow> None
     | Some (start, count) \<Rightarrow>
         let run_end = start + count in
         if fst chunk_numbers \<ge> snd chunk_numbers \<or> snd chunk_numbers > run_end then None
         else
           let count1 = fst chunk_numbers - start;
               runs1 = bt_insert start count1 runs;
               runs2 = (if count1 = 0 then bt_remove start runs1 else runs1);
               runs3 = (if snd chunk_numbers < run_end
                        then bt_insert (snd chunk_numbers) (run_end - snd chunk_numbers) runs2
                        else runs2)
           in Some runs3)"

subsection \<open>The free map refines a set of chunk numbers\<close>

definition runs_ok :: "runs \<Rightarrow> bool" where
  "runs_ok runs = (sorted_wrt (\<lambda>a b. fst a + snd a < fst b) runs \<and> list_all (\<lambda>r. 0 < snd r) runs)"

definition runs_set :: "runs \<Rightarrow> nat set" where
  "runs_set runs = (\<Union>(s, n) \<in> set runs. {s..<s + n})"

lemma runs_ok_bt_ok: "runs_ok runs \<Longrightarrow> bt_ok runs"
  unfolding runs_ok_def bt_ok_def
  by (auto simp: sorted_wrt_map intro: sorted_wrt_mono_rel [rotated])

lemma runs_ok_get:
  "runs_ok runs \<longleftrightarrow> bt_ok runs \<and> (\<forall>s n. bt_get runs s = Some n \<longrightarrow> 0 < n)
    \<and> (\<forall>s n s' n'. bt_get runs s = Some n \<longrightarrow> bt_get runs s' = Some n' \<longrightarrow> s < s' \<longrightarrow> s + n < s')"
  (is "?l \<longleftrightarrow> ?r")
proof
  assume l: ?l
  then have ok: "bt_ok runs" by (rule runs_ok_bt_ok)
  have "s + n < s'" if "(s, n) \<in> set runs" "(s', n') \<in> set runs" "s < s'" for s n s' n'
  proof -
    from that obtain i j where ij: "i < length runs" "runs ! i = (s, n)" "j < length runs"
      "runs ! j = (s', n')" by (auto simp: in_set_conv_nth)
    have "i < j"
    proof (rule ccontr)
      assume "\<not> i < j"
      then consider "j < i" | "i = j" by linarith
      then show False
        using l ij that(3) sorted_wrt_nth_less [of "\<lambda>a b. fst a + snd a < fst b" runs j i]
        by cases (auto simp: runs_ok_def)
    qed
    then show ?thesis
      using l ij sorted_wrt_nth_less [of "\<lambda>a b. fst a + snd a < fst b" runs i j]
      by (auto simp: runs_ok_def)
  qed
  with l ok show ?r by (auto simp: bt_get_eq_Some runs_ok_def list_all_iff)
next
  assume r: ?r
  then have ok: "bt_ok runs" by blast
  have "sorted_wrt (\<lambda>a b. fst a + snd a < fst b) runs"
  proof (rule sorted_wrt_iff_nth_less [THEN iffD2], intro allI impI)
    fix i j assume ij: "i < j" "j < length runs"
    then have "fst (runs ! i) < fst (runs ! j)"
      using ok sorted_wrt_nth_less [of "(<)" "map fst runs" i j] by (auto simp: bt_ok_def)
    moreover have "runs ! i \<in> set runs" "runs ! j \<in> set runs" using ij by auto
    ultimately show "fst (runs ! i) + snd (runs ! i) < fst (runs ! j)"
      using r ok by (simp add: bt_get_eq_Some) (metis prod.collapse)
  qed
  moreover have "list_all (\<lambda>r. 0 < snd r) runs"
    using r ok by (auto simp: bt_get_eq_Some list_all_iff)
  ultimately show ?l by (simp add: runs_ok_def)
qed

lemma runs_set_get:
  "bt_ok runs \<Longrightarrow> c \<in> runs_set runs \<longleftrightarrow> (\<exists>s n. bt_get runs s = Some n \<and> s \<le> c \<and> c < s + n)"
  by (fastforce simp: runs_set_def bt_get_eq_Some)

lemma runs_ok_pos: "runs_ok runs \<Longrightarrow> bt_get runs s = Some n \<Longrightarrow> 0 < n"
  by (auto simp: runs_ok_get)

lemma runs_ok_sep:
  "runs_ok runs \<Longrightarrow> bt_get runs s = Some n \<Longrightarrow> bt_get runs s' = Some n' \<Longrightarrow> s < s' \<Longrightarrow> s + n < s'"
  by (auto simp: runs_ok_get)

text \<open>A chunk belongs to at most one run.\<close>

lemma runs_unique:
  assumes "runs_ok runs" and "bt_get runs s = Some n" and "bt_get runs s' = Some n'"
    and "s \<le> c" "c < s + n" and "s' \<le> c" "c < s' + n'"
  shows "s' = s \<and> n' = n"
proof -
  have "s' = s"
  proof (rule ccontr)
    assume "s' \<noteq> s"
    then consider "s < s'" | "s' < s" by linarith
    then show False
      using runs_ok_sep [OF assms(1,2,3)] runs_ok_sep [OF assms(1,3,2)] assms(4-7) by cases auto
  qed
  then show ?thesis using assms(2,3) by simp
qed

lemma run_subset: "runs_ok runs \<Longrightarrow> bt_get runs s = Some n \<Longrightarrow> {s..<s + n} \<subseteq> runs_set runs"
  using runs_set_get [OF runs_ok_bt_ok] by fastforce

lemma run_maximal:
  assumes "runs_ok runs" and "bt_get runs s = Some n"
  shows "s + n \<notin> runs_set runs" and "0 < s \<Longrightarrow> s - 1 \<notin> runs_set runs"
proof -
  show "s + n \<notin> runs_set runs"
  proof
    assume "s + n \<in> runs_set runs"
    then obtain s' n' where g: "bt_get runs s' = Some n'" "s' \<le> s + n" "s + n < s' + n'"
      using assms(1) by (auto simp: runs_set_get runs_ok_bt_ok)
    consider "s' < s" | "s' = s" | "s < s'" by linarith
    then show False
      using runs_ok_sep [OF assms(1) g(1) assms(2)] runs_ok_sep [OF assms(1,2) g(1)] g assms(2)
      by cases auto
  qed
  show "s - 1 \<notin> runs_set runs" if "0 < s"
  proof
    assume "s - 1 \<in> runs_set runs"
    then obtain s' n' where g: "bt_get runs s' = Some n'" "s' \<le> s - 1" "s - 1 < s' + n'"
      using assms(1) by (auto simp: runs_set_get runs_ok_bt_ok)
    then show False using runs_ok_sep [OF assms(1) g(1) assms(2)] that by linarith
  qed
qed

lemma get_iff_maximal:
  assumes "runs_ok runs"
  shows "bt_get runs s = Some n \<longleftrightarrow> 0 < n \<and> {s..<s + n} \<subseteq> runs_set runs \<and> s + n \<notin> runs_set runs
    \<and> (0 < s \<longrightarrow> s - 1 \<notin> runs_set runs)" (is "?l \<longleftrightarrow> ?r")
proof
  assume ?l
  then show ?r using run_maximal [OF assms] runs_ok_pos [OF assms] run_subset [OF assms] by blast
next
  assume r: ?r
  then have "s \<in> runs_set runs" by auto
  then obtain t m where g: "bt_get runs t = Some m" "t \<le> s" "s < t + m"
    using assms by (auto simp: runs_set_get runs_ok_bt_ok)
  have "t = s"
  proof (rule ccontr)
    assume "t \<noteq> s"
    then have "s - 1 \<in> {t..<t + m}" and "0 < s" using g by auto
    then show False using r run_subset [OF assms g(1)] by blast
  qed
  have "m = n"
  proof (rule ccontr)
    assume "m \<noteq> n"
    then consider "m < n" | "n < m" by linarith
    then show False
    proof cases
      case 1
      then have "t + m \<in> {s..<s + n}" using \<open>t = s\<close> by simp
      then show False using r run_maximal(1) [OF assms g(1)] by blast
    next
      case 2
      then have "s + n \<in> {t..<t + m}" using \<open>t = s\<close> by simp
      then show False using r run_subset [OF assms g(1)] by blast
    qed
  qed
  then show ?l using g(1) \<open>t = s\<close> by simp
qed

text \<open>The canonical free map is determined by the set of free chunks.\<close>

lemma runs_ok_canonical:
  assumes "runs_ok r" and "runs_ok r'" and "runs_set r = runs_set r'"
  shows "r = r'"
proof (rule bt.ext)
  have "bt_get r s = Some n \<longleftrightarrow> bt_get r' s = Some n" for s n
    using assms by (simp add: get_iff_maximal)
  then show "bt_get r = bt_get r'" by (metis ext not_None_eq)
qed (use assms in \<open>simp_all add: runs_ok_bt_ok\<close>)

lemma remove_run:
  assumes "runs_ok r" and "bt_get r s = Some n"
  shows "runs_ok (bt_remove s r)" and "runs_set (bt_remove s r) = runs_set r - {s..<s + n}"
proof -
  have ok: "bt_ok r" "bt_ok (bt_remove s r)" using assms(1) by (simp_all add: runs_ok_bt_ok bt.ok_rem)
  show "runs_ok (bt_remove s r)"
    using assms(1) ok by (auto simp: runs_ok_get bt.get_rem)
  show "runs_set (bt_remove s r) = runs_set r - {s..<s + n}"
  proof (rule set_eqI, rule iffI)
    fix c assume "c \<in> runs_set (bt_remove s r)"
    then obtain t m where g: "bt_get r t = Some m" "t \<noteq> s" "t \<le> c" "c < t + m"
      using ok by (auto simp: runs_set_get bt.get_rem split: if_splits)
    then have "\<not> (s \<le> c \<and> c < s + n)" using runs_unique [OF assms g(1)] by blast
    then show "c \<in> runs_set r - {s..<s + n}" using g ok by (auto simp: runs_set_get)
  next
    fix c assume c: "c \<in> runs_set r - {s..<s + n}"
    then obtain t m where "bt_get r t = Some m" "t \<le> c" "c < t + m"
      using ok by (auto simp: runs_set_get)
    with c assms(2) have "bt_get (bt_remove s r) t = Some m" using ok by (auto simp: bt.get_rem)
    then show "c \<in> runs_set (bt_remove s r)"
      using \<open>t \<le> c\<close> \<open>c < t + m\<close> ok by (auto simp: runs_set_get)
  qed
qed

lemma insert_run:
  assumes "runs_ok r" and "0 < n" and disj: "{s..<s + n} \<inter> runs_set r = {}"
    and right: "s + n \<notin> runs_set r" and left: "0 < s \<Longrightarrow> s - 1 \<notin> runs_set r"
  shows "runs_ok (bt_insert s n r)" and "runs_set (bt_insert s n r) = runs_set r \<union> {s..<s + n}"
proof -
  have ok: "bt_ok r" "bt_ok (bt_insert s n r)" using assms(1) by (simp_all add: runs_ok_bt_ok bt.ok_ins)
  have sub: "{t..<t + m} \<subseteq> runs_set r" "0 < m" if "bt_get r t = Some m" for t m
    using that run_subset [OF assms(1)] runs_ok_pos [OF assms(1)] by auto
  have fresh: "bt_get r s = None"
  proof (rule ccontr)
    assume "bt_get r s \<noteq> None"
    then obtain m where "bt_get r s = Some m" by auto
    then have "s \<in> runs_set r" using sub(1) [of s m] sub(2) [of s m] by auto
    then show False using disj \<open>0 < n\<close> by (auto simp: disjoint_iff)
  qed
  have after: "s + n < t" if "bt_get r t = Some m" "s < t" for t m
  proof -
    have "t \<in> runs_set r" using sub [OF that(1)] by auto
    moreover have "t \<noteq> s + n" using calculation right by auto
    ultimately show ?thesis using disj that(2) by (meson atLeastLessThan_iff disjoint_iff less_imp_le linorder_neqE_nat)
  qed
  have before: "t + m < s" if "bt_get r t = Some m" "t < s" for t m
  proof (rule ccontr)
    assume "\<not> t + m < s"
    then have "s = t + m \<or> s < t + m" by linarith
    then have "s - 1 \<in> {t..<t + m} \<or> s \<in> {t..<t + m}" using that sub(2) [OF that(1)] by auto
    then have "s - 1 \<in> runs_set r \<or> s \<in> runs_set r" using sub(1) [OF that(1)] by blast
    moreover have "s - 1 \<notin> runs_set r" using left that(2) by simp
    moreover have "s \<notin> runs_set r" using disj \<open>0 < n\<close> by (simp add: disjoint_iff)
    ultimately show False by blast
  qed
  show "runs_ok (bt_insert s n r)"
    using assms(1,2) ok after before by (auto simp: runs_ok_get bt.get_ins split: if_splits)
  have "c \<in> runs_set (bt_insert s n r) \<longleftrightarrow> c \<in> runs_set r \<or> (s \<le> c \<and> c < s + n)" for c
  proof -
    have "(\<exists>t m. (if t = s then Some n else bt_get r t) = Some m \<and> t \<le> c \<and> c < t + m)
      \<longleftrightarrow> (\<exists>t m. bt_get r t = Some m \<and> t \<le> c \<and> c < t + m) \<or> (s \<le> c \<and> c < s + n)"
      using fresh by (metis option.distinct(1) option.inject)
    then show ?thesis
      by (simp only: runs_set_get [OF ok(1)] runs_set_get [OF ok(2)] bt.get_ins [OF ok(1)] fun_upd_apply)
  qed
  then show "runs_set (bt_insert s n r) = runs_set r \<union> {s..<s + n}" by (intro set_eqI) simp
qed

lemma insert_after_remove: "bt_ok r \<Longrightarrow> bt_insert s n (bt_remove s r) = bt_insert s n r"
  by (rule bt.ext) (simp_all add: bt.ok_ins bt.ok_rem bt.get_ins bt.get_rem)

text \<open>Growing a run in place replaces it.\<close>

lemma grow_run:
  assumes "runs_ok r" and "bt_get r s = Some n" and "0 < m"
    and "{s + n..<s + n + m} \<inter> runs_set r = {}" and "s + n + m \<notin> runs_set r"
  shows "runs_ok (bt_insert s (n + m) r)"
    and "runs_set (bt_insert s (n + m) r) = runs_set r \<union> {s + n..<s + n + m}"
proof -
  let ?r = "bt_remove s r"
  note rem = remove_run [OF assms(1,2)]
  have eq: "bt_insert s (n + m) r = bt_insert s (n + m) ?r"
    by (simp add: insert_after_remove runs_ok_bt_ok assms(1))
  have pre: "{s..<s + (n + m)} \<inter> runs_set ?r = {}" "s + (n + m) \<notin> runs_set ?r"
    "0 < s \<Longrightarrow> s - 1 \<notin> runs_set ?r"
    using rem(2) assms(4,5) run_maximal(2) [OF assms(1,2)] by (auto simp: add.assoc disjoint_iff not_less)
  show "runs_ok (bt_insert s (n + m) r)"
    unfolding eq using assms(3) pre by (intro insert_run(1) rem(1)) auto
  have "runs_set (bt_insert s (n + m) ?r) = runs_set ?r \<union> {s..<s + (n + m)}"
    using assms(3) pre by (intro insert_run(2) rem(1)) auto
  moreover have "{s..<s + n} \<subseteq> runs_set r" by (rule run_subset [OF assms(1,2)])
  ultimately show "runs_set (bt_insert s (n + m) r) = runs_set r \<union> {s + n..<s + n + m}"
    unfolding eq rem(2) by auto
qed

lemma release_runs_step:
  assumes ok: "runs_ok r" and pos: "0 < n" and disj: "{s..<s + n} \<inter> runs_set r = {}"
    and right: "s + n \<notin> runs_set r"
  defines "out \<equiv> (case bt_last_below s r of
      Some (p, l) \<Rightarrow> if p + l = s then bt_insert p (l + n) r else bt_insert s n r
    | None \<Rightarrow> bt_insert s n r)"
  shows "runs_ok out" and "runs_set out = runs_set r \<union> {s..<s + n}"
proof -
  have "runs_ok out \<and> runs_set out = runs_set r \<union> {s..<s + n}"
  proof (cases "0 < s \<and> s - 1 \<in> runs_set r")
    case True
    then obtain p l where g: "bt_get r p = Some l" "p \<le> s - 1" "s - 1 < p + l"
      using ok by (auto simp: runs_set_get runs_ok_bt_ok)
    have end_eq: "p + l = s"
    proof (rule ccontr)
      assume "p + l \<noteq> s"
      then have "s \<in> {p..<p + l}" using g True by auto
      moreover have "s \<in> {s..<s + n}" using pos by simp
      ultimately show False using run_subset [OF ok g(1)] disj by blast
    qed
    have "j \<le> p" if "bt_get r j = Some w" "j < s" for j w
      using runs_ok_sep [OF ok g(1) that(1)] end_eq that(2) by (cases "p < j") auto
    then have "bt_last_below s r = Some (p, l)"
      using g True by (intro bt.below_eq_Some) (auto simp: runs_ok_bt_ok ok)
    then have out: "out = bt_insert p (l + n) r" using end_eq by (simp add: out_def)
    show ?thesis unfolding out
      using grow_run [OF ok g(1) pos] disj right end_eq by (simp add: add.assoc)
  next
    case False
    have "out = bt_insert s n r"
    proof (rule bt.below_cases [OF runs_ok_bt_ok [OF ok], of s])
      fix p l assume b: "bt_last_below s r = Some (p, l)" and g: "bt_get r p = Some l" "p < s"
      have "p + l \<noteq> s"
      proof
        assume "p + l = s"
        then have "s - 1 \<in> {p..<p + l}" using runs_ok_pos [OF ok g(1)] by auto
        then show False using False g(2) run_subset [OF ok g(1)] by auto
      qed
      then show ?thesis using b by (simp add: out_def)
    qed (simp add: out_def)
    then show ?thesis using insert_run [OF ok pos disj right] False by auto
  qed
  then show "runs_ok out" and "runs_set out = runs_set r \<union> {s..<s + n}" by auto
qed

lemma release_runs_refines:
  assumes "runs_ok r" and "fst c < snd c" and "rng_set c \<inter> runs_set r = {}"
  shows "runs_ok (release_runs c r)" and "runs_set (release_runs c r) = runs_set r \<union> rng_set c"
proof -
  obtain s e where c: "c = (s, e)" by fastforce
  have se: "s < e" "{s..<e} \<inter> runs_set r = {}" using assms c by auto
  have ok: "bt_ok r" using assms(1) by (rule runs_ok_bt_ok)
  define k where "k = (case bt_get r e of Some n \<Rightarrow> n | None \<Rightarrow> 0)"
  let ?r = "bt_remove e r"
  have base: "runs_ok ?r \<and> runs_set ?r = runs_set r - {e..<e + k} \<and> {e..<e + k} \<subseteq> runs_set r
    \<and> e + k \<notin> runs_set r"
  proof (cases "bt_get r e")
    case None
    have same: "?r = r" using ok None by (intro bt.ext) (auto simp: bt.ok_rem bt.get_rem)
    have "e \<notin> runs_set r"
    proof
      assume "e \<in> runs_set r"
      then obtain t m where g: "bt_get r t = Some m" "t \<le> e" "e < t + m"
        using ok by (auto simp: runs_set_get)
      then have "t \<noteq> e" using None by auto
      then have "e - 1 \<in> {t..<t + m}" using g by auto
      moreover have "e - 1 \<in> {s..<e}" using se(1) by auto
      ultimately show False using run_subset [OF assms(1) g(1)] se(2) by blast
    qed
    then show ?thesis using None same assms(1) by (simp add: k_def)
  next
    case (Some n)
    then show ?thesis
      using remove_run [OF assms(1) Some] run_subset [OF assms(1) Some] run_maximal(1) [OF assms(1) Some]
      by (simp add: k_def)
  qed
  have eq: "release_runs c r = (case bt_last_below s ?r of
      Some (p, l) \<Rightarrow> if p + l = s then bt_insert p (l + ((e - s) + k)) ?r else bt_insert s ((e - s) + k) ?r
    | None \<Rightarrow> bt_insert s ((e - s) + k) ?r)"
    by (simp only: release_runs_def c Let_def k_def fst_conv snd_conv)
  have len: "s + ((e - s) + k) = e + k" using se by simp
  have pre: "{s..<s + ((e - s) + k)} \<inter> runs_set ?r = {}" "s + ((e - s) + k) \<notin> runs_set ?r"
    unfolding len using base se by (auto simp: disjoint_iff not_le)
  note step = release_runs_step [OF _ _ pre]
  show "runs_ok (release_runs c r)" unfolding eq using base se by (intro step(1)) auto
  have "runs_set (release_runs c r) = runs_set ?r \<union> {s..<s + ((e - s) + k)}"
    unfolding eq using base se by (intro step(2)) auto
  also have "\<dots> = runs_set r \<union> rng_set c" unfolding len using base se c by auto
  finally show "runs_set (release_runs c r) = runs_set r \<union> rng_set c" .
qed

lemma reserve_runs_None:
  assumes ok: "runs_ok r" and ne: "s < e" and sub: "{s..<e} \<subseteq> runs_set r"
    and up: "bt_get r t = Some n" "t \<le> s" "\<And>j w. bt_get r j = Some w \<Longrightarrow> j \<le> s \<Longrightarrow> j \<le> t"
  shows "e \<le> t + n"
proof (rule ccontr)
  assume "\<not> e \<le> t + n"
  then have e: "t + n < e" by simp
  have "t + n \<notin> runs_set r" by (rule run_maximal(1) [OF ok up(1)])
  then have "t + n < s" using sub e by (cases "s \<le> t + n") auto
  have "s \<in> runs_set r" using sub ne by auto
  then obtain t' n' where g: "bt_get r t' = Some n'" "t' \<le> s" "s < t' + n'"
    using ok by (auto simp: runs_set_get runs_ok_bt_ok)
  then have "t' \<le> t" using up(3) by blast
  then show False
    using runs_ok_sep [OF ok g(1) up(1)] g up(1) \<open>t + n < s\<close> by (cases "t' = t") auto
qed

lemma split_run:
  assumes ok: "runs_ok r" and g: "bt_get r t = Some n" and b: "t \<le> s" "s < e" "e \<le> t + n"
  defines "r2 \<equiv> (if s - t = 0 then bt_remove t (bt_insert t (s - t) r) else bt_insert t (s - t) r)"
  defines "r3 \<equiv> (if e < t + n then bt_insert e (t + n - e) r2 else r2)"
  shows "runs_ok r3" and "runs_set r3 = runs_set r - {s..<e}"
proof -
  let ?r0 = "bt_remove t r"
  note rem = remove_run [OF ok g] and max = run_maximal [OF ok g] and sub = run_subset [OF ok g]
  have bok: "bt_ok r" by (rule runs_ok_bt_ok [OF ok])
  have r2: "r2 = (if s = t then ?r0 else bt_insert t (s - t) ?r0)"
  proof (cases "s = t")
    case True
    have "bt_remove t (bt_insert t 0 r) = ?r0"
      using bok by (intro bt.ext) (auto simp: bt.ok_ins bt.ok_rem bt.get_ins bt.get_rem)
    then show ?thesis using True by (simp add: r2_def)
  next
    case False
    then show ?thesis using b bok by (simp add: r2_def insert_after_remove)
  qed
  have *: "runs_ok r2 \<and> runs_set r2 = runs_set r - {s..<t + n}"
  proof (cases "s = t")
    case True
    then show ?thesis using r2 rem by simp
  next
    case False
    have "{t..<t + (s - t)} \<inter> runs_set ?r0 = {}" "t + (s - t) \<notin> runs_set ?r0"
      "0 < t \<Longrightarrow> t - 1 \<notin> runs_set ?r0"
      using rem(2) b max(2) by (auto simp: disjoint_iff)
    note ins = insert_run [OF rem(1) _ this]
    have "runs_ok r2" using r2 False b ins(1) by simp
    moreover have "runs_set r2 = runs_set ?r0 \<union> {t..<t + (s - t)}" using r2 False b ins(2) by simp
    ultimately show ?thesis using rem(2) sub b by auto
  qed
  have "runs_ok r3 \<and> runs_set r3 = runs_set r - {s..<e}"
  proof (cases "e < t + n")
    case True
    have len: "e + (t + n - e) = t + n" using b by simp
    have "{e..<e + (t + n - e)} \<inter> runs_set r2 = {}" unfolding len using * b(2) by auto
    moreover have "e + (t + n - e) \<notin> runs_set r2" unfolding len using * max(1) by simp
    moreover have "e - 1 \<in> {s..<t + n}" using b by auto
    moreover have "e - 1 \<notin> runs_set r2" using * calculation(3) by blast
    ultimately have pre: "{e..<e + (t + n - e)} \<inter> runs_set r2 = {}"
      "e + (t + n - e) \<notin> runs_set r2" "0 < e \<Longrightarrow> e - 1 \<notin> runs_set r2" by blast+
    note ins = insert_run [OF conjunct1 [OF *] _ pre]
    have "runs_ok r3" using True ins(1) by (simp add: r3_def)
    moreover have "runs_set r3 = runs_set r2 \<union> {e..<e + (t + n - e)}"
      using True ins(2) by (simp add: r3_def)
    ultimately show ?thesis using * sub b by auto
  next
    case False
    then show ?thesis using * b by (simp add: r3_def)
  qed
  then show "runs_ok r3" and "runs_set r3 = runs_set r - {s..<e}" by auto
qed

lemma reserve_runs_Some_iff:
  assumes "runs_ok r"
  shows "reserve_runs c r \<noteq> None \<longleftrightarrow> fst c < snd c \<and> rng_set c \<subseteq> runs_set r"
proof (rule bt.upto_cases [OF runs_ok_bt_ok [OF assms], of "fst c"])
  assume none: "bt_last_upto (fst c) r = None" and gt: "\<And>j w. bt_get r j = Some w \<Longrightarrow> fst c < j"
  have "fst c \<notin> runs_set r" using gt assms by (force simp: runs_set_get runs_ok_bt_ok)
  then show ?thesis using none by (auto simp: reserve_runs_def)
next
  fix t n assume up: "bt_last_upto (fst c) r = Some (t, n)" and g: "bt_get r t = Some n" "t \<le> fst c"
    "\<And>j w. bt_get r j = Some w \<Longrightarrow> j \<le> fst c \<Longrightarrow> j \<le> t"
  have "fst c < snd c \<and> snd c \<le> t + n \<longleftrightarrow> fst c < snd c \<and> rng_set c \<subseteq> runs_set r"
    using reserve_runs_None [OF assms _ _ g] run_subset [OF assms g(1)] g(2) by fastforce
  then show ?thesis using up by (auto simp: reserve_runs_def Let_def)
qed

lemma reserve_runs_refines:
  assumes "runs_ok r" and "reserve_runs c r = Some r'"
  shows "runs_ok r'" and "runs_set r' = runs_set r - rng_set c"
    and "fst c < snd c" and "rng_set c \<subseteq> runs_set r"
proof -
  obtain t n where up: "bt_last_upto (fst c) r = Some (t, n)"
    using assms(2) by (auto simp: reserve_runs_def split: option.splits)
  then have g: "bt_get r t = Some n" "t \<le> fst c"
    using bt.upto_Some [OF runs_ok_bt_ok [OF assms(1)]] by auto
  have b: "fst c < snd c" "snd c \<le> t + n"
    using assms(2) up by (auto simp: reserve_runs_def Let_def split: if_splits)
  show "runs_ok r'" and "runs_set r' = runs_set r - rng_set c"
    using split_run [OF assms(1) g b] assms(2) up b by (auto simp: reserve_runs_def Let_def)
  show "fst c < snd c" by (rule b)
  show "rng_set c \<subseteq> runs_set r" using reserve_runs_Some_iff [OF assms(1), of c] assms(2) by simp
qed

subsection \<open>The contract of a free map\<close>

locale free_space =
  fixes free_of :: "'s \<Rightarrow> nat set"
    and reserve_at :: "rng \<Rightarrow> 's \<Rightarrow> 's option"
    and give_back :: "rng \<Rightarrow> 's \<Rightarrow> 's"
    and ok :: "'s \<Rightarrow> bool"
  assumes reserve_iff: "ok s \<Longrightarrow> reserve_at c s \<noteq> None \<longleftrightarrow> fst c < snd c \<and> rng_set c \<subseteq> free_of s"
    and reserve_ok: "ok s \<Longrightarrow> reserve_at c s = Some s' \<Longrightarrow> ok s'"
    and reserve_free: "ok s \<Longrightarrow> reserve_at c s = Some s' \<Longrightarrow> free_of s' = free_of s - rng_set c"
    and give_ok: "ok s \<Longrightarrow> fst c < snd c \<Longrightarrow> rng_set c \<inter> free_of s = {} \<Longrightarrow> ok (give_back c s)"
    and give_free: "ok s \<Longrightarrow> fst c < snd c \<Longrightarrow> rng_set c \<inter> free_of s = {} \<Longrightarrow>
      free_of (give_back c s) = free_of s \<union> rng_set c"
    and canonical: "ok s \<Longrightarrow> ok s' \<Longrightarrow> free_of s = free_of s' \<Longrightarrow> s = s'"
begin

text \<open>Reserving a range and giving it back restores the very same free map.\<close>

lemma restore:
  assumes "ok s" and "reserve_at c s = Some s'"
  shows "give_back c s' = s"
proof -
  have c: "fst c < snd c" "rng_set c \<subseteq> free_of s" using reserve_iff [OF assms(1), of c] assms(2) by auto
  have disj: "rng_set c \<inter> free_of s' = {}" using reserve_free [OF assms] by auto
  have ok': "ok s'" by (rule reserve_ok [OF assms])
  show ?thesis
    using canonical [OF give_ok [OF ok' c(1) disj] assms(1)] give_free [OF ok' c(1) disj]
      reserve_free [OF assms] c(2) by auto
qed

text \<open>The number of owners of a chunk, counting the free map as one, does not change.\<close>

lemma reserve_count:
  assumes "ok s" and "reserve_at c s = Some s'"
  shows "of_bool (x \<in> free_of s') + of_bool (x \<in> rng_set c) = (of_bool (x \<in> free_of s) :: nat)"
proof -
  have "rng_set c \<subseteq> free_of s" using reserve_iff [OF assms(1), of c] assms(2) by simp
  then show ?thesis using reserve_free [OF assms] by (cases "x \<in> rng_set c") auto
qed

lemma give_count:
  assumes "ok s" and "fst c < snd c" and "rng_set c \<inter> free_of s = {}"
  shows "of_bool (x \<in> free_of (give_back c s)) = (of_bool (x \<in> free_of s) + of_bool (x \<in> rng_set c) :: nat)"
  using give_free [OF assms] assms(3) by (cases "x \<in> rng_set c") (auto simp: disjoint_iff)

text \<open>A range that has become unavailable to a second reservation is available again after the
  first one is given back.\<close>

lemma reserve_exclusive:
  assumes "ok s" and "reserve_at c s = Some s'" and "rng_set d \<inter> rng_set c \<noteq> {}"
  shows "reserve_at d s' = None"
proof (rule ccontr)
  assume "reserve_at d s' \<noteq> None"
  then have "rng_set d \<subseteq> free_of s'" using reserve_iff [OF reserve_ok [OF assms(1,2)], of d] by simp
  then show False using reserve_free [OF assms(1,2)] assms(3) by blast
qed

end

interpretation fs: free_space runs_set reserve_runs release_runs runs_ok
proof (standard, goal_cases)
  case (1 s c) then show ?case by (rule reserve_runs_Some_iff)
next
  case (2 s c s') then show ?case by (rule reserve_runs_refines(1))
next
  case (3 s c s') then show ?case by (rule reserve_runs_refines(2))
next
  case (4 s c) then show ?case by (rule release_runs_refines(1))
next
  case (5 s c) then show ?case by (rule release_runs_refines(2))
next
  case (6 s s') then show ?case by (rule runs_ok_canonical)
qed

subsection \<open>First fit\<close>

lemma find_run_Some:
  assumes "runs_ok r" and "0 < n" and "bt_find (\<lambda>len. len \<ge> n) r = Some (s, m)"
  shows "{s..<s + n} \<subseteq> runs_set r"
    and "\<And>t. {t..<t + n} \<subseteq> runs_set r \<Longrightarrow> s \<le> t"
proof -
  have f: "bt_get r s = Some m" "n \<le> m" "\<And>j w. bt_get r j = Some w \<Longrightarrow> n \<le> w \<Longrightarrow> s \<le> j"
    using bt.first_Some [OF runs_ok_bt_ok [OF assms(1)] assms(3)] by auto
  show "{s..<s + n} \<subseteq> runs_set r" using run_subset [OF assms(1) f(1)] f(2) by auto
  fix t assume t: "{t..<t + n} \<subseteq> runs_set r"
  then have "t \<in> runs_set r" using assms(2) by auto
  then obtain j w where g: "bt_get r j = Some w" "j \<le> t" "t < j + w"
    using assms(1) by (auto simp: runs_set_get runs_ok_bt_ok)
  have "t + n \<le> j + w"
  proof (rule ccontr)
    assume "\<not> t + n \<le> j + w"
    then have "j + w \<in> {t..<t + n}" using g by auto
    then show False using t run_maximal(1) [OF assms(1) g(1)] by blast
  qed
  then have "n \<le> w" using g by linarith
  then show "s \<le> t" using f(3) [OF g(1)] g(2) by simp
qed

lemma find_run_None:
  assumes "runs_ok r" and "0 < n" and "bt_find (\<lambda>len. len \<ge> n) r = None"
  shows "\<not> {t..<t + n} \<subseteq> runs_set r"
proof
  assume t: "{t..<t + n} \<subseteq> runs_set r"
  then have "t \<in> runs_set r" using assms(2) by auto
  then obtain j w where g: "bt_get r j = Some w" "j \<le> t" "t < j + w"
    using assms(1) by (auto simp: runs_set_get runs_ok_bt_ok)
  have "w < n" using bt.first_None [OF runs_ok_bt_ok [OF assms(1)] assms(3) g(1)] by simp
  then have "j + w \<in> {t..<t + n}" using g by auto
  then show False using t run_maximal(1) [OF assms(1) g(1)] by blast
qed

end
