(* ===== verification/Disk_Metrics.thy ===== *)
theory Disk_Metrics
  imports Feuer_Prelude
begin

text \<open>
  The disk-tier metrics of \<open>feuer-storage/src/disk_metrics.rs\<close>: outcome counters, gauges and the
  terminal outcome every write attempt records when it is dropped. A counter is a \<open>nat\<close>, a gauge an
  \<open>int\<close> and a histogram the list of the recorded samples (durations in nanoseconds); the registry
  that exports them is not part of the model. All caches of a registry share one record, so it is
  passed to, and returned by, the operations that update it.
\<close>

datatype disk_lookup_outcome = Hit | Absent | IoError | ChecksumFailed | Fallthrough

datatype disk_write_outcome = Published | AlreadyCovered | NoCapacity | WriteFailed | WriteCanceled

datatype disk_write_queue_outcome = Queued | QueueFull | QueueClosed | QueueCanceled

record disk_metrics =
  lookup_outcomes :: "disk_lookup_outcome \<Rightarrow> nat"
  hit_duration :: "nat list"
  write_outcomes :: "disk_write_outcome \<Rightarrow> nat"
  queue_outcomes :: "disk_write_queue_outcome \<Rightarrow> nat"
  queued_entries :: int
  pending_bytes :: int
  queue_duration :: "nat list"
  eviction_triggering_insertions :: nat
  written_entries :: nat
  recovered_chunks :: int
  free_chunks :: int
  allocated_chunks :: int
  payload_bytes :: int
  entries_gauge :: int
  packed_payload_bytes :: nat
  packed_chunk_bytes :: nat

definition new_disk_metrics :: disk_metrics where
  "new_disk_metrics =
    \<lparr>lookup_outcomes = \<lambda>_. 0, hit_duration = [], write_outcomes = \<lambda>_. 0, queue_outcomes = \<lambda>_. 0,
     queued_entries = 0, pending_bytes = 0, queue_duration = [], eviction_triggering_insertions = 0,
     written_entries = 0, recovered_chunks = 0, free_chunks = 0, allocated_chunks = 0,
     payload_bytes = 0, entries_gauge = 0, packed_payload_bytes = 0, packed_chunk_bytes = 0\<rparr>"

definition record_queue :: "disk_write_queue_outcome \<Rightarrow> disk_metrics \<Rightarrow> disk_metrics" where
  "record_queue outcome dm =
    dm\<lparr>queue_outcomes := (queue_outcomes dm)(outcome := queue_outcomes dm outcome + 1)\<rparr>"

definition record_lookup :: "disk_lookup_outcome \<Rightarrow> nat \<Rightarrow> disk_metrics \<Rightarrow> disk_metrics" where
  "record_lookup outcome elapsed dm =
    (let dm1 = dm\<lparr>lookup_outcomes := (lookup_outcomes dm)(outcome := lookup_outcomes dm outcome + 1)\<rparr>
     in if outcome = Hit then dm1\<lparr>hit_duration := hit_duration dm1 @ [elapsed]\<rparr> else dm1)"

subsection \<open>Write attempts\<close>

record disk_write_attempt =
  outcome :: disk_write_outcome
  evicted :: bool

definition new_disk_write_attempt :: disk_write_attempt where
  "new_disk_write_attempt = \<lparr>outcome = WriteCanceled, evicted = False\<rparr>"

definition drop_disk_write_attempt :: "disk_write_attempt \<Rightarrow> disk_metrics \<Rightarrow> disk_metrics" where
  "drop_disk_write_attempt a dm =
    (let dm1 = dm\<lparr>write_outcomes :=
         (write_outcomes dm)(outcome a := write_outcomes dm (outcome a) + 1)\<rparr>
     in if evicted a
        then dm1\<lparr>eviction_triggering_insertions := eviction_triggering_insertions dm1 + 1\<rparr>
        else dm1)"

text \<open>The number of write attempts that have ended.\<close>

definition finished_attempts :: "disk_metrics \<Rightarrow> nat" where
  "finished_attempts dm = write_outcomes dm Published + write_outcomes dm AlreadyCovered
    + write_outcomes dm NoCapacity + write_outcomes dm WriteFailed + write_outcomes dm WriteCanceled"

lemma finished_attempts_drop: "finished_attempts (drop_disk_write_attempt a dm) = finished_attempts dm + 1"
  by (cases "outcome a") (simp_all add: finished_attempts_def drop_disk_write_attempt_def Let_def)

definition finished_lookups :: "disk_metrics \<Rightarrow> nat" where
  "finished_lookups dm = lookup_outcomes dm Hit + lookup_outcomes dm Absent
    + lookup_outcomes dm IoError + lookup_outcomes dm ChecksumFailed + lookup_outcomes dm Fallthrough"

lemma finished_lookups_record:
  "finished_lookups (record_lookup r t dm) = finished_lookups dm + 1"
  by (cases r) (simp_all add: finished_lookups_def record_lookup_def Let_def)

lemma hit_duration_record:
  "length (hit_duration dm) = lookup_outcomes dm Hit \<Longrightarrow>
   length (hit_duration (record_lookup r t dm)) = lookup_outcomes (record_lookup r t dm) Hit"
  by (cases r) (simp_all add: record_lookup_def Let_def)

end
