(* ===== verification/Allocation.thy ===== *)
theory Allocation
  imports Free_Runs Disk_Metrics "HOL-Library.Multiset"
begin

text \<open>
  The chunk allocator of \<open>feuer-storage/src/allocation.rs\<close>. A reservation owns a range of chunk
  numbers and returns it when dropped; \<open>drop_reserved_chunks\<close> is that destructor. The allocator also
  keeps, by first chunk number, the reservations that hold published payloads together with the
  number of payloads that still use them.

  The invariant \<open>alloc_inv\<close> says that every chunk of the shard has exactly one owner: the free map,
  a payload hold, or a reservation in other hands. Every operation keeps it.
\<close>

definition CHUNK_BYTES :: nat where
  "CHUNK_BYTES = 1024 * 1024"

subsection \<open>Reservations and the allocator\<close>

record reserved_chunks =
  chunk_numbers :: rng
  recovered :: bool

definition disk_byte_range :: "reserved_chunks \<Rightarrow> rng" where
  "disk_byte_range r = (fst (chunk_numbers r) * CHUNK_BYTES, snd (chunk_numbers r) * CHUNK_BYTES)"

definition chunk_count :: "reserved_chunks \<Rightarrow> nat" where
  "chunk_count r = snd (chunk_numbers r) - fst (chunk_numbers r)"

definition mark_recovered :: "disk_metrics \<Rightarrow> reserved_chunks \<Rightarrow> disk_metrics \<times> reserved_chunks" where
  "mark_recovered dm r =
    (dm\<lparr>recovered_chunks := recovered_chunks dm + int (chunk_count r)\<rparr>, r\<lparr>recovered := True\<rparr>)"

record disk_chunk_allocator =
  free :: runs
  chunk_capacity :: nat
  payload_chunks :: "nat \<rightharpoonup> reserved_chunks \<times> nat"

text \<open>The metrics are shared by all shards; an operation takes them with the allocator it acts on.\<close>

type_synonym alloc_state = "disk_metrics \<times> disk_chunk_allocator"

definition release :: "rng \<Rightarrow> alloc_state \<Rightarrow> alloc_state" where
  "release chunks s =
    (let (dm, a) = s; n = int (snd chunks - fst chunks)
     in (dm\<lparr>free_chunks := free_chunks dm + n, allocated_chunks := allocated_chunks dm - n\<rparr>,
         a\<lparr>free := release_runs chunks (free a)\<rparr>))"

definition drop_free_chunks :: "alloc_state \<Rightarrow> disk_metrics" where
  "drop_free_chunks s =
    (let (dm, a) = s in dm\<lparr>free_chunks := free_chunks dm - int (bt_values_sum (free a))\<rparr>)"

definition with_metrics :: "rng \<Rightarrow> disk_metrics \<Rightarrow> alloc_state" where
  "with_metrics disk_range dm =
    (let n = (snd disk_range - fst disk_range) div CHUNK_BYTES
     in (dm\<lparr>free_chunks := free_chunks dm + int n\<rparr>,
         \<lparr>free = [(fst disk_range div CHUNK_BYTES, n)], chunk_capacity = n, payload_chunks = Map.empty\<rparr>))"

definition reserve_chunk_numbers :: "rng \<Rightarrow> alloc_state \<Rightarrow> (alloc_state \<times> reserved_chunks) option" where
  "reserve_chunk_numbers chunks s =
    (let (dm, a) = s in
     case reserve_runs chunks (free a) of
       None \<Rightarrow> None
     | Some runs \<Rightarrow>
         let n = int (snd chunks - fst chunks) in
         Some ((dm\<lparr>free_chunks := free_chunks dm - n, allocated_chunks := allocated_chunks dm + n\<rparr>,
                a\<lparr>free := runs\<rparr>),
               \<lparr>chunk_numbers = chunks, recovered = False\<rparr>))"

definition reserve_chunks_at :: "nat \<Rightarrow> nat \<Rightarrow> alloc_state \<Rightarrow> (alloc_state \<times> reserved_chunks) option" where
  "reserve_chunks_at first_chunk_number n s =
    (case checked_add first_chunk_number n of
       None \<Rightarrow> None
     | Some chunks_end \<Rightarrow> reserve_chunk_numbers (first_chunk_number, chunks_end) s)"

definition reserve_chunks :: "nat \<Rightarrow> alloc_state \<Rightarrow> (alloc_state \<times> reserved_chunks) option" where
  "reserve_chunks n s =
    (case bt_find (\<lambda>len. len \<ge> n) (free (snd s)) of
       None \<Rightarrow> None
     | Some (start, _) \<Rightarrow> reserve_chunk_numbers (start, start + n) s)"

definition drop_reserved_chunks :: "reserved_chunks \<Rightarrow> alloc_state \<Rightarrow> alloc_state" where
  "drop_reserved_chunks r s =
    (let (dm, a) = s;
         dm1 = (if recovered r
                then dm\<lparr>recovered_chunks := recovered_chunks dm - int (chunk_count r)\<rparr> else dm)
     in release (chunk_numbers r) (dm1, a))"

subsection \<open>Payload holds\<close>

text \<open>\<open>HashMap::insert\<close> drops the value it replaces, so a hold that replaced another would release
  that one's chunks.\<close>

definition hold_chunks_until_payloads_released ::
  "reserved_chunks \<Rightarrow> nat \<Rightarrow> alloc_state \<Rightarrow> alloc_state" where
  "hold_chunks_until_payloads_released r payload_count s =
    (let (dm, a) = s;
         first = fst (chunk_numbers r);
         s1 = (dm, a\<lparr>payload_chunks := (payload_chunks a)(first \<mapsto> (r, payload_count))\<rparr>)
     in case payload_chunks a first of
          None \<Rightarrow> s1
        | Some (old, _) \<Rightarrow> drop_reserved_chunks old s1)"

text \<open>\<open>end.div_ceil(CHUNK_BYTES) - first_chunk_number\<close> is an unchecked subtraction.\<close>

definition hold_chunks_for_recovered_payload :: "rng \<Rightarrow> alloc_state \<Rightarrow> alloc_state option" where
  "hold_chunks_for_recovered_payload payload_range s =
    (let first_chunk_number = fst payload_range div CHUNK_BYTES in
     case payload_chunks (snd s) first_chunk_number of
       Some (r, n) \<Rightarrow>
         if snd payload_range \<le> snd (disk_byte_range r)
         then Some (fst s, (snd s)\<lparr>payload_chunks :=
                (payload_chunks (snd s))(first_chunk_number \<mapsto> (r, n + 1))\<rparr>)
         else None
     | None \<Rightarrow>
         (case reserve_chunks_at first_chunk_number
                 (wrapping_sub (div_ceil (snd payload_range) CHUNK_BYTES) first_chunk_number) s of
            None \<Rightarrow> None
          | Some ((dm, a), r) \<Rightarrow>
              let (dm1, r1) = mark_recovered dm r in
              Some (dm1, a\<lparr>payload_chunks := (payload_chunks a)(first_chunk_number \<mapsto> (r1, 1))\<rparr>)))"

text \<open>\<open>None\<close> is the panic of the \<open>unreachable!\<close> arm.\<close>

definition release_payload :: "nat \<Rightarrow> alloc_state \<Rightarrow> alloc_state option" where
  "release_payload payload_address s =
    (let (dm, a) = s; first_chunk_number = payload_address div CHUNK_BYTES in
     case payload_chunks a first_chunk_number of
       None \<Rightarrow> None
     | Some (r, n) \<Rightarrow>
         if n = 1
         then Some (drop_reserved_chunks r
                (dm, a\<lparr>payload_chunks := (payload_chunks a)(first_chunk_number := None)\<rparr>))
         else Some (dm, a\<lparr>payload_chunks :=
                (payload_chunks a)(first_chunk_number \<mapsto> (r, n - 1))\<rparr>))"

subsection \<open>Every chunk has exactly one owner\<close>

text \<open>\<open>live\<close> are the reservations in other hands: metadata chunks and writes in flight.\<close>

definition held_count :: "nat \<Rightarrow> (nat \<rightharpoonup> reserved_chunks \<times> nat) \<Rightarrow> nat" where
  "held_count c m = map_total (\<lambda>h. of_bool (c \<in> rng_set (chunk_numbers (fst h)))) m"

definition live_count :: "nat \<Rightarrow> rng multiset \<Rightarrow> nat" where
  "live_count c live = (\<Sum>r \<in># live. of_bool (c \<in> rng_set r))"

definition owners :: "rng multiset \<Rightarrow> disk_chunk_allocator \<Rightarrow> nat \<Rightarrow> nat" where
  "owners live a c = of_bool (c \<in> runs_set (free a))
    + live_count c live + held_count c (payload_chunks a)"

definition alloc_inv :: "nat \<Rightarrow> nat \<Rightarrow> rng multiset \<Rightarrow> disk_chunk_allocator \<Rightarrow> bool" where
  "alloc_inv lo hi live a \<longleftrightarrow>
    runs_ok (free a) \<and> finite (dom (payload_chunks a)) \<and> chunk_capacity a = hi - lo \<and>
    (\<forall>k r n. payload_chunks a k = Some (r, n) \<longrightarrow>
      fst (chunk_numbers r) = k \<and> k < snd (chunk_numbers r) \<and> 0 < n) \<and>
    (\<forall>r. r \<in># live \<longrightarrow> fst r < snd r) \<and>
    (\<forall>c. owners live a c = of_bool (lo \<le> c \<and> c < hi))"

lemma alloc_inv_D:
  assumes "alloc_inv lo hi live a"
  shows "runs_ok (free a)" and "finite (dom (payload_chunks a))" and "chunk_capacity a = hi - lo"
    and "\<And>k r n. payload_chunks a k = Some (r, n) \<Longrightarrow>
      fst (chunk_numbers r) = k \<and> k < snd (chunk_numbers r) \<and> 0 < n"
    and "\<And>r. r \<in># live \<Longrightarrow> fst r < snd r"
    and "\<And>c. owners live a c = of_bool (lo \<le> c \<and> c < hi)"
  using assms by (auto simp: alloc_inv_def)

lemma held_count_ge:
  assumes "finite (dom m)" and "m k = Some (r, n)" and "c \<in> rng_set (chunk_numbers r)"
  shows "1 \<le> held_count c m"
  using map_total_remove [OF assms(1,2), of "\<lambda>h. of_bool (c \<in> rng_set (chunk_numbers (fst h)))"] assms(3)
  by (simp add: held_count_def)

lemma live_count_add [simp]: "live_count c (add_mset r live) = of_bool (c \<in> rng_set r) + live_count c live"
  by (simp add: live_count_def)

lemma live_count_empty [simp]: "live_count c {#} = 0"
  by (simp add: live_count_def)

lemma live_count_ge: "r \<in># live \<Longrightarrow> c \<in> rng_set r \<Longrightarrow> 1 \<le> live_count c live"
  by (auto dest!: multi_member_split)

text \<open>A chunk of a live reservation is neither free nor held, and lies in the shard.\<close>

lemma live_not_free:
  assumes "alloc_inv lo hi live a" and "r \<in># live"
  shows "rng_set r \<inter> runs_set (free a) = {}" and "rng_set r \<subseteq> {lo..<hi}"
    and "payload_chunks a (fst r) = None"
proof -
  note inv = alloc_inv_D [OF assms(1)]
  have one: "owners live a c = 1 \<and> lo \<le> c \<and> c < hi \<and> c \<notin> runs_set (free a)
    \<and> held_count c (payload_chunks a) = 0" if "c \<in> rng_set r" for c
    using inv(6) [of c] live_count_ge [OF assms(2) that] unfolding owners_def
    by (cases "lo \<le> c \<and> c < hi"; cases "c \<in> runs_set (free a)") simp_all
  show "rng_set r \<inter> runs_set (free a) = {}" using one by (meson disjoint_iff)
  show "rng_set r \<subseteq> {lo..<hi}" using one by (meson atLeastLessThan_iff subsetI)
  show "payload_chunks a (fst r) = None"
  proof (rule ccontr)
    assume "payload_chunks a (fst r) \<noteq> None"
    then obtain r' n where p: "payload_chunks a (fst r) = Some (r', n)" by auto
    then have "fst r \<in> rng_set (chunk_numbers r')" using inv(4) by fastforce
    from held_count_ge [OF inv(2) p this] have "1 \<le> held_count (fst r) (payload_chunks a)" .
    moreover have "fst r \<in> rng_set r" using inv(5) [OF assms(2)] by simp
    ultimately show False using one by fastforce
  qed
qed

lemma held_not_free:
  assumes "alloc_inv lo hi live a" and "payload_chunks a k = Some (r, n)"
  shows "rng_set (chunk_numbers r) \<inter> runs_set (free a) = {}" and "rng_set (chunk_numbers r) \<subseteq> {lo..<hi}"
proof -
  note inv = alloc_inv_D [OF assms(1)]
  have one: "lo \<le> c \<and> c < hi \<and> c \<notin> runs_set (free a)" if "c \<in> rng_set (chunk_numbers r)" for c
    using inv(6) [of c] held_count_ge [OF inv(2) assms(2) that] unfolding owners_def
    by (cases "lo \<le> c \<and> c < hi"; cases "c \<in> runs_set (free a)") simp_all
  then show "rng_set (chunk_numbers r) \<inter> runs_set (free a) = {}"
    and "rng_set (chunk_numbers r) \<subseteq> {lo..<hi}"
    by (meson disjoint_iff, meson atLeastLessThan_iff subsetI)
qed

lemma alloc_inv_reserve:
  assumes "alloc_inv lo hi live a" and "reserve_chunk_numbers c (dm, a) = Some ((dm', a'), r)"
  shows "alloc_inv lo hi (add_mset c live) a'" and "chunk_numbers r = c" and "\<not> recovered r"
    and "payload_chunks a' = payload_chunks a"
proof -
  from assms(2) obtain runs where runs: "reserve_runs c (free a) = Some runs"
    and a': "a' = a\<lparr>free := runs\<rparr>" and r: "r = \<lparr>chunk_numbers = c, recovered = False\<rparr>"
    by (auto simp: reserve_chunk_numbers_def Let_def split: option.splits)
  note inv = alloc_inv_D [OF assms(1)]
  have "owners (add_mset c live) a' x = owners live a x" for x
    using fs.reserve_count [OF inv(1) runs, of x] by (simp add: owners_def a')
  moreover have "fst c < snd c" using fs.reserve_iff [OF inv(1), of c] runs by simp
  ultimately show "alloc_inv lo hi (add_mset c live) a'"
    using inv fs.reserve_ok [OF inv(1) runs] by (auto simp: alloc_inv_def a')
qed (use assms(2) in \<open>auto simp: reserve_chunk_numbers_def Let_def split: option.splits\<close>)

lemma alloc_inv_release:
  assumes "alloc_inv lo hi (add_mset c live) a"
  shows "alloc_inv lo hi live (snd (release c (dm, a)))"
proof -
  note inv = alloc_inv_D [OF assms]
  have c: "fst c < snd c" "rng_set c \<inter> runs_set (free a) = {}"
    using inv(5) live_not_free(1) [OF assms] by auto
  have "owners live (a\<lparr>free := release_runs c (free a)\<rparr>) x = owners (add_mset c live) a x" for x
    using fs.give_count [OF inv(1) c, of x] by (simp add: owners_def)
  then show ?thesis
    using inv fs.give_ok [OF inv(1) c] by (auto simp: alloc_inv_def release_def Let_def)
qed

lemma alloc_inv_drop:
  assumes "alloc_inv lo hi (add_mset (chunk_numbers r) live) a"
  shows "alloc_inv lo hi live (snd (drop_reserved_chunks r (dm, a)))"
  using alloc_inv_release [OF assms] by (simp add: drop_reserved_chunks_def Let_def)

text \<open>Taking a hold out of the map makes its reservation a live one, and putting one in the reverse.\<close>

lemma alloc_inv_unhold:
  assumes "alloc_inv lo hi live a" and "payload_chunks a k = Some (r, n)"
  shows "alloc_inv lo hi (add_mset (chunk_numbers r) live)
    (a\<lparr>payload_chunks := (payload_chunks a)(k := None)\<rparr>)"
proof -
  note inv = alloc_inv_D [OF assms(1)]
  have "owners (add_mset (chunk_numbers r) live) (a\<lparr>payload_chunks := (payload_chunks a)(k := None)\<rparr>) x
    = owners live a x" for x
    using map_total_remove [OF inv(2) assms(2), of "\<lambda>h. of_bool (x \<in> rng_set (chunk_numbers (fst h)))"]
    by (simp add: owners_def held_count_def)
  then show ?thesis using inv inv(4) [OF assms(2)] by (auto simp: alloc_inv_def)
qed

lemma alloc_inv_hold:
  assumes "alloc_inv lo hi (add_mset (chunk_numbers r) live) a" and "0 < n"
  shows "alloc_inv lo hi live
    (a\<lparr>payload_chunks := (payload_chunks a)(fst (chunk_numbers r) \<mapsto> (r, n))\<rparr>)"
proof -
  note inv = alloc_inv_D [OF assms(1)]
  have none: "payload_chunks a (fst (chunk_numbers r)) = None"
    using live_not_free(3) [OF assms(1)] by simp
  have "owners live (a\<lparr>payload_chunks := (payload_chunks a)(fst (chunk_numbers r) \<mapsto> (r, n))\<rparr>) x
    = owners (add_mset (chunk_numbers r) live) a x" for x
    using map_total_insert [OF inv(2) none] by (simp add: owners_def held_count_def)
  then show ?thesis using inv inv(5) [of "chunk_numbers r"] assms(2) by (auto simp: alloc_inv_def)
qed

lemma alloc_inv_recount:
  assumes "alloc_inv lo hi live a" and "payload_chunks a k = Some (r, n)" and "0 < n'"
  shows "alloc_inv lo hi live (a\<lparr>payload_chunks := (payload_chunks a)(k \<mapsto> (r, n'))\<rparr>)"
proof -
  have "fst (chunk_numbers r) = k" using alloc_inv_D(4) [OF assms(1,2)] by simp
  then show ?thesis using alloc_inv_hold [OF alloc_inv_unhold [OF assms(1,2)] assms(3)] by simp
qed

subsection \<open>The operations keep the invariant\<close>

lemma runs_set_singleton: "runs_set [(s, n)] = {s..<s + n}"
  by (auto simp: runs_set_def)

lemma alloc_inv_with_metrics:
  assumes "CHUNK_BYTES dvd fst d" and "CHUNK_BYTES dvd snd d" and "fst d < snd d"
  shows "alloc_inv (fst d div CHUNK_BYTES) (snd d div CHUNK_BYTES) {#} (snd (with_metrics d dm))"
proof -
  obtain x y where d: "fst d = CHUNK_BYTES * x" "snd d = CHUNK_BYTES * y" using assms(1,2) by blast
  have pos: "0 < CHUNK_BYTES" by (simp add: CHUNK_BYTES_def)
  have xy: "x < y" using assms(3) d by simp
  have n: "(CHUNK_BYTES * y - CHUNK_BYTES * x) div CHUNK_BYTES = y - x"
    using pos by (simp flip: diff_mult_distrib2)
  show ?thesis
    using xy pos by (auto simp: alloc_inv_def with_metrics_def Let_def n runs_ok_def runs_set_singleton
        owners_def held_count_def d(1,2))
qed

lemma alloc_inv_reserve_at:
  assumes "alloc_inv lo hi live a" and "reserve_chunks_at f n (dm, a) = Some ((dm', a'), r)"
  shows "alloc_inv lo hi (add_mset (chunk_numbers r) live) a'" and "chunk_numbers r = (f, f + n)"
    and "payload_chunks a' = payload_chunks a" and "\<not> recovered r"
proof -
  have res: "reserve_chunk_numbers (f, f + n) (dm, a) = Some ((dm', a'), r)"
    using assms(2) by (auto simp: reserve_chunks_at_def checked_add_def split: if_splits)
  show "alloc_inv lo hi (add_mset (chunk_numbers r) live) a'" and "chunk_numbers r = (f, f + n)"
    and "payload_chunks a' = payload_chunks a" and "\<not> recovered r"
    using alloc_inv_reserve [OF assms(1) res] by auto
qed

lemma alloc_inv_reserve_chunks:
  assumes "alloc_inv lo hi live a" and "reserve_chunks n (dm, a) = Some ((dm', a'), r)"
  shows "alloc_inv lo hi (add_mset (chunk_numbers r) live) a'" and "chunk_count r = n"
    and "payload_chunks a' = payload_chunks a" and "\<not> recovered r"
proof -
  from assms(2) obtain start where
    res: "reserve_chunk_numbers (start, start + n) (dm, a) = Some ((dm', a'), r)"
    by (auto simp: reserve_chunks_def split: option.splits)
  show "alloc_inv lo hi (add_mset (chunk_numbers r) live) a'" and "chunk_count r = n"
    and "payload_chunks a' = payload_chunks a" and "\<not> recovered r"
    using alloc_inv_reserve [OF assms(1) res] by (auto simp: chunk_count_def)
qed

lemma alloc_inv_hold_until_released:
  assumes "alloc_inv lo hi (add_mset (chunk_numbers r) live) a" and "0 < n"
  shows "alloc_inv lo hi live (snd (hold_chunks_until_payloads_released r n (dm, a)))"
  using alloc_inv_hold [OF assms] live_not_free(3) [OF assms(1)]
  by (simp add: hold_chunks_until_payloads_released_def Let_def)

lemma alloc_inv_hold_recovered:
  assumes "alloc_inv lo hi live a" and "hold_chunks_for_recovered_payload d (dm, a) = Some (dm', a')"
  shows "alloc_inv lo hi live a'"
proof (cases "payload_chunks a (fst d div CHUNK_BYTES)")
  case None
  define n where "n = wrapping_sub (div_ceil (snd d) CHUNK_BYTES) (fst d div CHUNK_BYTES)"
  from assms(2) None obtain dm1 a1 r where
    res: "reserve_chunks_at (fst d div CHUNK_BYTES) n (dm, a) = Some ((dm1, a1), r)"
    and a': "a' = a1\<lparr>payload_chunks := (payload_chunks a1)
      (fst d div CHUNK_BYTES \<mapsto> (r\<lparr>recovered := True\<rparr>, 1))\<rparr>"
    by (auto simp: hold_chunks_for_recovered_payload_def mark_recovered_def Let_def n_def
        split: option.splits)
  note inv = alloc_inv_reserve_at [OF assms(1) res]
  have "alloc_inv lo hi (add_mset (chunk_numbers (r\<lparr>recovered := True\<rparr>)) live) a1" using inv(1) by simp
  from alloc_inv_hold [OF this, of 1] show ?thesis using inv(2) by (simp add: a')
next
  case (Some h)
  obtain r n where h: "h = (r, n)" by fastforce
  have "a' = a\<lparr>payload_chunks := (payload_chunks a)(fst d div CHUNK_BYTES \<mapsto> (r, n + 1))\<rparr>"
    using assms(2) Some h
    by (auto simp: hold_chunks_for_recovered_payload_def Let_def split: if_splits)
  then show ?thesis using alloc_inv_recount [OF assms(1)] Some h by simp
qed

lemma alloc_inv_release_payload:
  assumes "alloc_inv lo hi live a" and "release_payload p (dm, a) = Some (dm', a')"
  shows "alloc_inv lo hi live a'"
proof -
  obtain r n where h: "payload_chunks a (p div CHUNK_BYTES) = Some (r, n)"
    using assms(2) by (auto simp: release_payload_def Let_def split: option.splits)
  have n: "0 < n" using alloc_inv_D(4) [OF assms(1) h] by simp
  show ?thesis
  proof (cases "n = 1")
    case True
    from alloc_inv_drop [OF alloc_inv_unhold [OF assms(1) h], of dm] show ?thesis
      using assms(2) h True by (simp add: release_payload_def Let_def)
  next
    case False
    then have "0 < n - 1" using n by simp
    from alloc_inv_recount [OF assms(1) h this] show ?thesis
      using assms(2) h False by (simp add: release_payload_def Let_def)
  qed
qed

lemma release_payload_held:
  assumes "payload_chunks a (p div CHUNK_BYTES) = Some (r, n)"
  shows "\<exists>s'. release_payload p (dm, a) = Some s'"
  using assms by (simp add: release_payload_def Let_def)

subsection \<open>Gauges\<close>

lemma runs_set_finite: "finite (runs_set r)"
  by (auto simp: runs_set_def)

lemma values_sum_card:
  assumes "runs_ok r"
  shows "bt_values_sum r = card (runs_set r)"
  using assms
proof (induction r)
  case Nil
  then show ?case by (simp add: bt_values_sum_def runs_set_def)
next
  case (Cons e r)
  obtain s n where e: "e = (s, n)" by fastforce
  have ok: "runs_ok r" using Cons.prems by (simp add: runs_ok_def)
  have eq: "runs_set (e # r) = {s..<s + n} \<union> runs_set r" by (simp add: runs_set_def e)
  have "{s..<s + n} \<inter> runs_set r = {}"
    using Cons.prems by (fastforce simp: runs_ok_def runs_set_def e)
  then have "card (runs_set (e # r)) = n + card (runs_set r)"
    unfolding eq by (subst card_Un_disjoint) (auto simp: runs_set_finite)
  then show ?case using Cons.IH [OF ok] by (simp add: bt_values_sum_def e)
qed

text \<open>The free gauge counts the free chunks and the allocated gauge all others, up to what the other
  shards contribute.\<close>

definition gauges_track :: "int \<Rightarrow> int \<Rightarrow> alloc_state \<Rightarrow> bool" where
  "gauges_track f al s \<longleftrightarrow>
    free_chunks (fst s) = f + int (card (runs_set (free (snd s)))) \<and>
    allocated_chunks (fst s) = al - int (card (runs_set (free (snd s))))"

lemma gauges_track_reserve:
  assumes "runs_ok (free a)" and "reserve_chunk_numbers c (dm, a) = Some (s', r)"
    and "gauges_track f al (dm, a)"
  shows "gauges_track f al s'"
proof -
  from assms(2) obtain runs where runs: "reserve_runs c (free a) = Some runs"
    and s': "free (snd s') = runs"
      "free_chunks (fst s') = free_chunks dm - int (snd c - fst c)"
      "allocated_chunks (fst s') = allocated_chunks dm + int (snd c - fst c)"
    by (auto simp: reserve_chunk_numbers_def Let_def split: option.splits)
  have sub: "rng_set c \<subseteq> runs_set (free a)" using fs.reserve_iff [OF assms(1), of c] runs by simp
  have "card (runs_set runs) = card (runs_set (free a)) - (snd c - fst c)"
    using fs.reserve_free [OF assms(1) runs] sub by (simp add: card_Diff_subset)
  moreover have "snd c - fst c \<le> card (runs_set (free a))"
    using card_mono [OF runs_set_finite sub] by simp
  ultimately show ?thesis using assms(3) s' by (simp add: gauges_track_def)
qed

lemma gauges_track_release:
  assumes "runs_ok (free a)" and "fst c < snd c" and "rng_set c \<inter> runs_set (free a) = {}"
    and "gauges_track f al (dm, a)"
  shows "gauges_track f al (release c (dm, a))"
proof -
  have "card (runs_set (release_runs c (free a))) = card (runs_set (free a)) + (snd c - fst c)"
    using assms(3) unfolding fs.give_free [OF assms(1-3)]
    by (subst card_Un_disjoint) (auto simp: runs_set_finite)
  then show ?thesis using assms(4) by (simp add: gauges_track_def release_def Let_def)
qed

lemma gauges_track_recovered_gauge [simp]:
  "gauges_track f al (dm\<lparr>recovered_chunks := x\<rparr>, a) = gauges_track f al (dm, a)"
  by (simp add: gauges_track_def)

lemma gauges_track_holds [simp]:
  "gauges_track f al (dm, a\<lparr>payload_chunks := h\<rparr>) = gauges_track f al (dm, a)"
  by (simp add: gauges_track_def)

lemma gauges_track_drop:
  assumes "alloc_inv lo hi (add_mset (chunk_numbers r) live) a" and "gauges_track f al (dm, a)"
  shows "gauges_track f al (drop_reserved_chunks r (dm, a))"
  using gauges_track_release [OF alloc_inv_D(1) [OF assms(1)] _ live_not_free(1) [OF assms(1)]]
    alloc_inv_D(5) [OF assms(1), of "chunk_numbers r"] assms(2)
  by (simp add: drop_reserved_chunks_def Let_def)

subsection \<open>Interleaved use of an allocator\<close>

text \<open>One step of any of the allocator's clients. The state is the bag of reservations that are
  neither free nor held, and the allocator with the metrics. Holding moves a reservation from the
  bag into the allocator. Only a payload that is held can be released, as its callers promise.\<close>

inductive alloc_step ::
  "reserved_chunks multiset \<times> alloc_state \<Rightarrow> reserved_chunks multiset \<times> alloc_state \<Rightarrow> bool" where
  step_reserve_at: "reserve_chunks_at f n s = Some (s', r) \<Longrightarrow> alloc_step (live, s) (add_mset r live, s')"
| step_reserve: "reserve_chunks n s = Some (s', r) \<Longrightarrow> alloc_step (live, s) (add_mset r live, s')"
| step_mark: "mark_recovered dm r = (dm', r') \<Longrightarrow>
    alloc_step (add_mset r live, (dm, a)) (add_mset r' live, (dm', a))"
| step_drop: "alloc_step (add_mset r live, s) (live, drop_reserved_chunks r s)"
| step_hold: "0 < n \<Longrightarrow>
    alloc_step (add_mset r live, s) (live, hold_chunks_until_payloads_released r n s)"
| step_hold_recovered: "hold_chunks_for_recovered_payload d s = Some s' \<Longrightarrow> alloc_step (live, s) (live, s')"
| step_release: "release_payload p s = Some s' \<Longrightarrow> alloc_step (live, s) (live, s')"

definition ownership :: "nat \<Rightarrow> nat \<Rightarrow> int \<Rightarrow> int \<Rightarrow> reserved_chunks multiset \<times> alloc_state \<Rightarrow> bool" where
  "ownership lo hi f al st \<longleftrightarrow>
    alloc_inv lo hi (image_mset chunk_numbers (fst st)) (snd (snd st)) \<and> gauges_track f al (snd st)"

lemma gauges_track_reserve_at:
  assumes "alloc_inv lo hi live a" and "reserve_chunks_at x n (dm, a) = Some (s', r)"
    and "gauges_track f al (dm, a)"
  shows "gauges_track f al s'"
  using assms gauges_track_reserve [OF alloc_inv_D(1) [OF assms(1)]]
  by (auto simp: reserve_chunks_at_def split: option.splits)

lemma gauges_track_hold_recovered:
  assumes "alloc_inv lo hi live a" and "hold_chunks_for_recovered_payload d (dm, a) = Some s'"
    and "gauges_track f al (dm, a)"
  shows "gauges_track f al s'"
  using assms(2,3) gauges_track_reserve_at [OF assms(1)]
  by (auto simp: hold_chunks_for_recovered_payload_def mark_recovered_def Let_def
      split: option.splits if_splits)

lemma gauges_track_release_payload:
  assumes "alloc_inv lo hi live a" and "release_payload p (dm, a) = Some s'"
    and "gauges_track f al (dm, a)"
  shows "gauges_track f al s'"
proof -
  obtain r n where h: "payload_chunks a (p div CHUNK_BYTES) = Some (r, n)"
    using assms(2) by (auto simp: release_payload_def Let_def split: option.splits)
  show ?thesis
    using gauges_track_drop [OF alloc_inv_unhold [OF assms(1) h], of f al dm] assms(2,3) h
    by (auto simp: release_payload_def Let_def split: if_splits)
qed

lemma ownership_step: "alloc_step st st' \<Longrightarrow> ownership lo hi f al st \<Longrightarrow> ownership lo hi f al st'"
proof (induction rule: alloc_step.induct)
  case (step_reserve_at x n s s' r live)
  then show ?case
    using alloc_inv_reserve_at(1) gauges_track_reserve_at
    by (cases s; cases s') (fastforce simp: ownership_def)
next
  case (step_reserve n s s' r live)
  obtain dm a dm' a' where s: "s = (dm, a)" "s' = (dm', a')" by (cases s; cases s') auto
  have inv: "alloc_inv lo hi (image_mset chunk_numbers live) a" "gauges_track f al (dm, a)"
    using step_reserve(2) by (simp_all add: ownership_def s)
  obtain start where "reserve_chunk_numbers (start, start + n) (dm, a) = Some (s', r)"
    using step_reserve(1) by (auto simp: reserve_chunks_def s split: option.splits)
  from gauges_track_reserve [OF alloc_inv_D(1) [OF inv(1)] this inv(2)] show ?case
    using alloc_inv_reserve_chunks(1) [OF inv(1)] step_reserve(1) by (simp add: ownership_def s)
next
  case (step_mark dm r dm' r' live a)
  then show ?case by (auto simp: ownership_def mark_recovered_def)
next
  case (step_drop r live s)
  then show ?case
    by (cases s) (auto simp: ownership_def intro: alloc_inv_drop gauges_track_drop)
next
  case (step_hold n r live s)
  obtain dm a where s: "s = (dm, a)" by fastforce
  have inv: "alloc_inv lo hi (add_mset (chunk_numbers r) (image_mset chunk_numbers live)) a"
    "gauges_track f al (dm, a)" using step_hold(2) by (simp_all add: ownership_def s)
  then show ?case
    using alloc_inv_hold_until_released [OF inv(1) step_hold(1)] live_not_free(3) [OF inv(1)]
    by (simp add: ownership_def s hold_chunks_until_payloads_released_def Let_def)
next
  case (step_hold_recovered d s s' live)
  then show ?case
    by (cases s; cases s') (auto simp: ownership_def intro: alloc_inv_hold_recovered gauges_track_hold_recovered)
next
  case (step_release p s s' live)
  then show ?case
    by (cases s; cases s') (auto simp: ownership_def intro: alloc_inv_release_payload gauges_track_release_payload)
qed

lemma ownership_steps: "alloc_step\<^sup>*\<^sup>* st st' \<Longrightarrow> ownership lo hi f al st \<Longrightarrow> ownership lo hi f al st'"
  by (induction rule: rtranclp_induct) (auto intro: ownership_step)

lemma owners_only_free:
  "payload_chunks a = Map.empty \<Longrightarrow> owners {#} a c = of_bool (c \<in> runs_set (free a))"
  by (simp add: owners_def held_count_def)

lemma ownership_initial:
  assumes "CHUNK_BYTES dvd fst d" and "CHUNK_BYTES dvd snd d" and "fst d < snd d"
  shows "ownership (fst d div CHUNK_BYTES) (snd d div CHUNK_BYTES) (free_chunks dm)
    (allocated_chunks dm + int ((snd d - fst d) div CHUNK_BYTES)) ({#}, with_metrics d dm)"
  using alloc_inv_with_metrics [OF assms, of dm]
  by (simp add: ownership_def gauges_track_def with_metrics_def Let_def runs_set_singleton)

lemma reserve_first_chunk:
  "reserve_chunks 1 (with_metrics (0, 2097152) new_disk_metrics) =
    Some ((new_disk_metrics\<lparr>free_chunks := 1, allocated_chunks := 1\<rparr>,
        \<lparr>free = [(1, 1)], chunk_capacity = 2, payload_chunks = Map.empty\<rparr>),
      \<lparr>chunk_numbers = (0, 1), recovered = False\<rparr>)"
  by (simp add: reserve_chunks_def reserve_chunk_numbers_def reserve_runs_def with_metrics_def
      bt_find_def bt_last_upto_def last_opt_def bt_remove_def CHUNK_BYTES_def new_disk_metrics_def)

subsection \<open>Properties\<close>

text \<open>C4: However the clients of a shard's allocator interleave their operations, every chunk of the
  shard has exactly one owner (the free map, a payload hold or one reservation), no chunk outside the
  shard has any, the free map stays canonical, and the free and allocated gauges count exactly the
  free and the owned chunks.\<close>

theorem chunk_ownership:
  assumes "CHUNK_BYTES dvd fst d" and "CHUNK_BYTES dvd snd d" and "fst d < snd d"
    and "alloc_step\<^sup>*\<^sup>* ({#}, with_metrics d dm) (live, (dm', a))"
  shows "(\<forall>c. owners (image_mset chunk_numbers live) a c
      = of_bool (fst d div CHUNK_BYTES \<le> c \<and> c < snd d div CHUNK_BYTES))
    \<and> runs_ok (free a)
    \<and> free_chunks dm' - free_chunks dm = int (card (runs_set (free a)))
    \<and> allocated_chunks dm' - allocated_chunks dm
      = int ((snd d - fst d) div CHUNK_BYTES) - int (card (runs_set (free a)))"
proof -
  from ownership_steps [OF assms(4) ownership_initial [OF assms(1-3)]]
  have inv: "alloc_inv (fst d div CHUNK_BYTES) (snd d div CHUNK_BYTES) (image_mset chunk_numbers live) a"
    and g: "gauges_track (free_chunks dm) (allocated_chunks dm + int ((snd d - fst d) div CHUNK_BYTES)) (dm', a)"
    by (simp_all add: ownership_def)
  show ?thesis
    using alloc_inv_D(1,6) [OF inv] g by (simp add: gauges_track_def)
qed

theorem chunk_ownership_witness:
  "\<exists>dm' a r. reserve_chunks 1 (with_metrics (0, 2097152) new_disk_metrics) = Some ((dm', a), r)
    \<and> (\<forall>c. owners {#chunk_numbers r#} a c = of_bool (c < 2)) \<and> runs_ok (free a)
    \<and> free_chunks dm' = 1 \<and> allocated_chunks dm' = 1"
proof -
  let ?s = "with_metrics (0, 2097152) new_disk_metrics"
  let ?dm = "new_disk_metrics\<lparr>free_chunks := 1, allocated_chunks := 1\<rparr>"
  let ?a = "\<lparr>free = [(1, 1)], chunk_capacity = 2, payload_chunks = Map.empty\<rparr>"
  let ?r = "\<lparr>chunk_numbers = (0, 1), recovered = False\<rparr>"
  have res: "reserve_chunks 1 ?s = Some ((?dm, ?a), ?r)"
    by (rule reserve_first_chunk)
  have "alloc_step\<^sup>*\<^sup>* ({#}, ?s) ({#?r#}, (?dm, ?a))" using step_reserve [OF res, of "{#}"] by simp
  from chunk_ownership [OF _ _ _ this] have
    "(\<forall>c. owners {#chunk_numbers ?r#} ?a c = of_bool (c < 2)) \<and> runs_ok (free ?a)"
    by (simp add: CHUNK_BYTES_def)
  with res show ?thesis by fastforce
qed

text \<open>C38: No chunk leaks. Once no reservation is left and no payload is held, the allocator is again
  the one the shard started with, one free run over the whole shard, and both gauges are back.\<close>

theorem released_allocator_is_initial:
  assumes "CHUNK_BYTES dvd fst d" and "CHUNK_BYTES dvd snd d" and "fst d < snd d"
    and "alloc_step\<^sup>*\<^sup>* ({#}, with_metrics d dm) ({#}, (dm', a))" and "payload_chunks a = Map.empty"
  shows "a = snd (with_metrics d dm) \<and> free_chunks dm' = free_chunks (fst (with_metrics d dm))
    \<and> allocated_chunks dm' = allocated_chunks dm"
proof -
  let ?lo = "fst d div CHUNK_BYTES" and ?hi = "snd d div CHUNK_BYTES"
  define n where "n = (snd d - fst d) div CHUNK_BYTES"
  have init: "ownership ?lo ?hi (free_chunks dm) (allocated_chunks dm + int n) ({#}, with_metrics d dm)"
    unfolding n_def by (rule ownership_initial [OF assms(1-3)])
  from ownership_steps [OF assms(4) init]
  have o: "alloc_inv ?lo ?hi {#} a" "gauges_track (free_chunks dm) (allocated_chunks dm + int n) (dm', a)"
    by (simp_all add: ownership_def)
  have init_inv: "alloc_inv ?lo ?hi {#} (snd (with_metrics d dm))"
    by (rule alloc_inv_with_metrics [OF assms(1-3)])
  have "c \<in> runs_set (free a) \<longleftrightarrow> c \<in> runs_set (free (snd (with_metrics d dm)))" for c
  proof -
    have "payload_chunks (snd (with_metrics d dm)) = Map.empty" by (simp add: with_metrics_def Let_def)
    from owners_only_free [OF this] owners_only_free [OF assms(5)]
    have "of_bool (c \<in> runs_set (free a)) = (of_bool (c \<in> runs_set (free (snd (with_metrics d dm)))) :: nat)"
      using alloc_inv_D(6) [OF o(1), of c] alloc_inv_D(6) [OF init_inv, of c] by (simp only:)
    then show ?thesis by (simp only: of_bool_eq_iff)
  qed
  then have "free a = free (snd (with_metrics d dm))"
    by (intro runs_ok_canonical alloc_inv_D(1) [OF o(1)] alloc_inv_D(1) [OF init_inv]) blast
  moreover have "chunk_capacity a = chunk_capacity (snd (with_metrics d dm))"
    using alloc_inv_D(3) [OF o(1)] alloc_inv_D(3) [OF init_inv] by simp
  ultimately show ?thesis
    using assms(5) o(2) by (simp add: gauges_track_def with_metrics_def Let_def runs_set_singleton n_def)
qed

theorem released_allocator_is_initial_witness:
  "snd (drop_reserved_chunks (snd (the (reserve_chunks 1 (with_metrics (0, 2097152) new_disk_metrics))))
      (fst (the (reserve_chunks 1 (with_metrics (0, 2097152) new_disk_metrics)))))
    = snd (with_metrics (0, 2097152) new_disk_metrics)"
proof -
  let ?s = "with_metrics (0, 2097152) new_disk_metrics"
  let ?s1 = "(new_disk_metrics\<lparr>free_chunks := 1, allocated_chunks := 1\<rparr>,
    \<lparr>free = [(1, 1)], chunk_capacity = 2, payload_chunks = Map.empty\<rparr>)"
  let ?r = "\<lparr>chunk_numbers = (0, 1), recovered = False\<rparr>"
  have res: "reserve_chunks 1 ?s = Some (?s1, ?r)"
    by (rule reserve_first_chunk)
  have "alloc_step\<^sup>*\<^sup>* ({#}, ?s) ({#}, drop_reserved_chunks ?r ?s1)"
    using r_into_rtranclp [of alloc_step, OF step_reserve [OF res, of "{#}"]] step_drop
    by (rule rtranclp.rtrancl_into_rtrancl)
  moreover obtain dm' a where "drop_reserved_chunks ?r ?s1 = (dm', a)" by fastforce
  moreover have "payload_chunks a = Map.empty"
    using calculation(2) by (auto simp: drop_reserved_chunks_def release_def Let_def)
  ultimately show ?thesis
    unfolding res option.sel fst_conv snd_conv
    using released_allocator_is_initial [of "(0, 2097152)" new_disk_metrics dm' a]
    by (simp add: CHUNK_BYTES_def)
qed

text \<open>C36: A reservation of consecutive chunks fails exactly when the free chunks contain no run of that
  length, and otherwise takes the lowest one; nothing else of the free space changes.\<close>

theorem reserve_chunks_first_fit:
  assumes "runs_ok (free a)" and "0 < n"
  shows "case reserve_chunks n (dm, a) of
      None \<Rightarrow> \<forall>t. \<not> {t..<t + n} \<subseteq> runs_set (free a)
    | Some ((_, a'), r) \<Rightarrow> \<exists>t. chunk_numbers r = (t, t + n) \<and> {t..<t + n} \<subseteq> runs_set (free a)
        \<and> (\<forall>u < t. \<not> {u..<u + n} \<subseteq> runs_set (free a))
        \<and> runs_set (free a') = runs_set (free a) - {t..<t + n} \<and> runs_ok (free a')"
proof (cases "bt_find (\<lambda>len. len \<ge> n) (free a)")
  case None
  then show ?thesis using find_run_None [OF assms None] by (simp add: reserve_chunks_def)
next
  case (Some e)
  obtain t m where e: "e = (t, m)" by fastforce
  note run = find_run_Some [OF assms Some [unfolded e]]
  have "reserve_runs (t, t + n) (free a) \<noteq> None"
    using fs.reserve_iff [OF assms(1)] run(1) assms(2) by simp
  then obtain runs where runs: "reserve_runs (t, t + n) (free a) = Some runs" by auto
  have "\<not> {u..<u + n} \<subseteq> runs_set (free a)" if "u < t" for u using run(2) that by (meson not_le)
  then show ?thesis
    using run(1) Some e runs fs.reserve_free [OF assms(1) runs] fs.reserve_ok [OF assms(1) runs]
    by (simp add: reserve_chunks_def reserve_chunk_numbers_def Let_def)
qed

theorem reserve_chunks_first_fit_witness:
  "\<exists>a' r. map_option (\<lambda>x. (snd (fst x), snd x))
      (reserve_chunks 2 (new_disk_metrics,
        \<lparr>free = [(0, 1), (3, 4)], chunk_capacity = 7, payload_chunks = Map.empty\<rparr>)) = Some (a', r)
    \<and> chunk_numbers r = (3, 5) \<and> runs_ok (free a')"
  using reserve_chunks_first_fit
    [of "\<lparr>free = [(0, 1), (3, 4)], chunk_capacity = 7, payload_chunks = Map.empty\<rparr>" 2 new_disk_metrics]
  by (simp add: runs_ok_def reserve_chunks_def reserve_chunk_numbers_def reserve_runs_def
      bt_find_def bt_last_upto_def last_opt_def bt_remove_def)

text \<open>C37: Dropping a fresh reservation undoes it: the free map with its run boundaries, the holds and
  all metrics are what they were.\<close>

theorem reserve_drop_restores:
  assumes "runs_ok (free a)" and "reserve_chunks_at f n (dm, a) = Some (s, r)"
  shows "drop_reserved_chunks r s = (dm, a)"
proof -
  from assms(2) obtain runs where runs: "reserve_runs (f, f + n) (free a) = Some runs"
    and s: "s = (dm\<lparr>free_chunks := free_chunks dm - int n, allocated_chunks := allocated_chunks dm + int n\<rparr>,
      a\<lparr>free := runs\<rparr>)" and r: "r = \<lparr>chunk_numbers = (f, f + n), recovered = False\<rparr>"
    by (auto simp: reserve_chunks_at_def checked_add_def reserve_chunk_numbers_def Let_def
        split: if_splits option.splits)
  show ?thesis
    using fs.restore [OF assms(1) runs] by (simp add: s r drop_reserved_chunks_def release_def Let_def)
qed

theorem reserve_drop_restores_witness:
  "\<exists>s r. reserve_chunks_at 4 2 (new_disk_metrics,
      \<lparr>free = [(0, 1), (3, 4)], chunk_capacity = 7, payload_chunks = Map.empty\<rparr>) = Some (s, r)
    \<and> drop_reserved_chunks r s = (new_disk_metrics,
      \<lparr>free = [(0, 1), (3, 4)], chunk_capacity = 7, payload_chunks = Map.empty\<rparr>)"
  using reserve_drop_restores
    [of "\<lparr>free = [(0, 1), (3, 4)], chunk_capacity = 7, payload_chunks = Map.empty\<rparr>" 4 2 new_disk_metrics]
  by (simp add: runs_ok_def reserve_chunks_at_def checked_add_def u64_limit_def reserve_chunk_numbers_def
      reserve_runs_def bt_last_upto_def last_opt_def bt_remove_def)

end
