(* ===== verification/Page_Format.thy ===== *)
theory Page_Format
  imports Allocation
begin

text \<open>
  The metadata page format of \<open>feuer-storage/src/disk_cache/page_format.rs\<close> and the decoders of
  \<open>disk_cache/recovery.rs\<close> that read it back. A page is a list of 4096 bytes: a checksum over the rest
  of the page, a reserved zero field, the entry count, the tag and the contents, padded with zeros.
  The 64-bit hash (\<open>XxHash64::oneshot(0, _)\<close> of the \<open>twox_hash\<close> package) is the parameter \<open>xxh\<close>;
  nothing is assumed of it.

  \<open>encode_page\<close> returns \<open>None\<close> where the assertions of the source fail.
\<close>

named_theorems page_consts

definition METADATA_PAGE_BYTES :: nat where
  "METADATA_PAGE_BYTES = 4096"

definition PAGE_HEADER_BYTES :: nat where
  "PAGE_HEADER_BYTES = 32"

definition ENTRY_METADATA_BYTES :: nat where
  "ENTRY_METADATA_BYTES = 40"

definition PAGE_CONTENT_BYTES :: nat where
  "PAGE_CONTENT_BYTES =
    (METADATA_PAGE_BYTES - PAGE_HEADER_BYTES) div ENTRY_METADATA_BYTES * ENTRY_METADATA_BYTES"

text \<open>\<open>b"FEUDES15"\<close> and \<open>b"FEUNXT15"\<close>.\<close>

definition ENTRY_METADATA_PAGE_TAG :: "byte list" where
  "ENTRY_METADATA_PAGE_TAG = [70, 69, 85, 68, 69, 83, 49, 53]"

definition NEXT_CHUNK_PAGE_TAG :: "byte list" where
  "NEXT_CHUNK_PAGE_TAG = [70, 69, 85, 78, 88, 84, 49, 53]"

definition ENTRIES_PER_METADATA_PAGE :: nat where
  "ENTRIES_PER_METADATA_PAGE = PAGE_CONTENT_BYTES div ENTRY_METADATA_BYTES"

definition ENTRY_METADATA_PAGES_PER_CHUNK :: nat where
  "ENTRY_METADATA_PAGES_PER_CHUNK = CHUNK_BYTES div METADATA_PAGE_BYTES - 1"

definition ENTRIES_PER_METADATA_CHUNK :: nat where
  "ENTRIES_PER_METADATA_CHUNK = ENTRY_METADATA_PAGES_PER_CHUNK * ENTRIES_PER_METADATA_PAGE"

definition NO_CHUNK :: u64 where
  "NO_CHUNK = - 1"

lemma page_const_values [page_consts]:
  "METADATA_PAGE_BYTES = 4096" "PAGE_HEADER_BYTES = 32" "ENTRY_METADATA_BYTES = 40"
  "PAGE_CONTENT_BYTES = 4040" "ENTRIES_PER_METADATA_PAGE = 101" "ENTRY_METADATA_PAGES_PER_CHUNK = 255"
  "ENTRIES_PER_METADATA_CHUNK = 25755" "CHUNK_BYTES = 1048576"
  by (simp_all add: METADATA_PAGE_BYTES_def PAGE_HEADER_BYTES_def ENTRY_METADATA_BYTES_def
      PAGE_CONTENT_BYTES_def ENTRIES_PER_METADATA_PAGE_def ENTRY_METADATA_PAGES_PER_CHUNK_def
      ENTRIES_PER_METADATA_CHUNK_def CHUNK_BYTES_def)

lemma length_page_tags [simp]: "length ENTRY_METADATA_PAGE_TAG = 8" "length NEXT_CHUNK_PAGE_TAG = 8"
  by (simp_all add: ENTRY_METADATA_PAGE_TAG_def NEXT_CHUNK_PAGE_TAG_def)

subsection \<open>Pages\<close>

definition encode_page ::
  "(byte list \<Rightarrow> u64) \<Rightarrow> byte list \<Rightarrow> byte list \<Rightarrow> u64 \<Rightarrow> byte list \<Rightarrow> byte list option" where
  "encode_page xxh page page_tag entry_count contents =
    (if length page \<noteq> METADATA_PAGE_BYTES \<or> length contents > PAGE_CONTENT_BYTES then None
     else
       let page1 = replicate (length page) 0;
           page2 = copy_into 16 (u64_to_le_bytes entry_count) page1;
           page3 = copy_into 24 page_tag page2;
           page4 = copy_into PAGE_HEADER_BYTES contents page3;
           checksum = xxh (drop 8 page4)
       in Some (copy_into 0 (u64_to_le_bytes checksum) page4))"

definition validate_page :: "(byte list \<Rightarrow> u64) \<Rightarrow> byte list \<Rightarrow> byte list \<Rightarrow> byte list option" where
  "validate_page xxh page page_tag =
    (if slice 24 32 page \<noteq> page_tag \<or> take 8 page \<noteq> u64_to_le_bytes (xxh (drop 8 page)) then None
     else Some (drop PAGE_HEADER_BYTES page))"

subsection \<open>Entry metadata\<close>

record entry_metadata =
  key :: object_key_hash
  payload_len :: u64
  payload_address :: u64
  payload_checksum :: u64

definition encode_entry_metadata :: "byte list \<Rightarrow> entry_metadata \<Rightarrow> byte list" where
  "encode_entry_metadata bytes e =
    (let bytes1 = copy_into 0 (u128_to_le_bytes (key e)) bytes;
         bytes2 = copy_into 16 (u64_to_le_bytes (payload_len e)) bytes1;
         bytes3 = copy_into 24 (u64_to_le_bytes (payload_address e)) bytes2
     in copy_into 32 (u64_to_le_bytes (payload_checksum e)) bytes3)"

definition read_u64 :: "byte list \<Rightarrow> nat \<Rightarrow> u64" where
  "read_u64 bytes offset = u64_from_le_bytes (slice offset (offset + 8) bytes)"

definition decode_entry_metadata :: "byte list \<Rightarrow> entry_metadata option" where
  "decode_entry_metadata bytes =
    (if bytes = replicate ENTRY_METADATA_BYTES 0 then None
     else Some \<lparr>key = u128_from_le_bytes (take 16 bytes), payload_len = read_u64 bytes 16,
       payload_address = read_u64 bytes 24, payload_checksum = read_u64 bytes 32\<rparr>)"

text \<open>The entries of a page: those of a valid page, \<open>UNUSED_ENTRY_METADATA\<close> otherwise.\<close>

definition UNUSED_ENTRY_METADATA :: "byte list list" where
  "UNUSED_ENTRY_METADATA = replicate ENTRIES_PER_METADATA_PAGE (replicate ENTRY_METADATA_BYTES 0)"

definition decode_entry_page :: "(byte list \<Rightarrow> u64) \<Rightarrow> byte list \<Rightarrow> entry_metadata option list" where
  "decode_entry_page xxh page =
    map decode_entry_metadata
      (case validate_page xxh page ENTRY_METADATA_PAGE_TAG of
         Some contents \<Rightarrow> chunks_exact ENTRY_METADATA_BYTES (take PAGE_CONTENT_BYTES contents)
       | None \<Rightarrow> UNUSED_ENTRY_METADATA)"

subsection \<open>Encoded pages validate\<close>

lemma encode_page_Some_iff:
  "encode_page xxh page tag n contents \<noteq> None \<longleftrightarrow>
    length page = METADATA_PAGE_BYTES \<and> length contents \<le> PAGE_CONTENT_BYTES"
  by (auto simp: encode_page_def Let_def)

lemma encode_page_shape:
  assumes "encode_page xxh page tag n contents = Some p" and "length tag = 8"
  shows "length p = METADATA_PAGE_BYTES" and "slice 24 32 p = tag"
    and "take 8 p = u64_to_le_bytes (xxh (drop 8 p))" and "slice 16 24 p = u64_to_le_bytes n"
    and "drop PAGE_HEADER_BYTES p = contents @ replicate (METADATA_PAGE_BYTES - PAGE_HEADER_BYTES - length contents) 0"
proof -
  define z where "z = (replicate METADATA_PAGE_BYTES 0 :: byte list)"
  define p4 where "p4 = copy_into 32 contents (copy_into 24 tag (copy_into 16 (u64_to_le_bytes n) z))"
  have c: "length contents \<le> 4040" and p: "p = copy_into 0 (u64_to_le_bytes (xxh (drop 8 p4))) p4"
    using assms(1) by (auto simp: encode_page_def Let_def page_consts z_def p4_def split: if_splits)
  have lz: "length z = 4096" by (simp add: z_def page_consts)
  have l1: "length (copy_into 16 (u64_to_le_bytes n) z) = 4096" using lz by simp
  have l2: "length (copy_into 24 tag (copy_into 16 (u64_to_le_bytes n) z)) = 4096"
    using l1 assms(2) by simp
  have l4: "length p4 = 4096" using c l2 by (simp add: p4_def)
  have lp: "length p = 4096" using l4 by (simp add: p)
  show "length p = METADATA_PAGE_BYTES" by (simp add: lp page_consts)
  have after: "slice a b p = slice a b p4" if "8 \<le> a" "b \<le> 4096" for a b
    using that l4 by (simp add: p slice_simps)
  show "slice 24 32 p = tag"
    using l1 l2 c assms(2) by (simp add: after p4_def slice_simps)
  show "slice 16 24 p = u64_to_le_bytes n"
    using l1 l2 lz c assms(2) by (simp add: after p4_def slice_simps)
  have d8: "drop 8 p = drop 8 p4" using after [of 8 4096] lp l4 by (simp add: drop_as_slice)
  show "take 8 p = u64_to_le_bytes (xxh (drop 8 p))"
    unfolding d8 using l4 by (simp add: p take_as_slice slice_simps)
  have "drop 32 p = slice 32 (32 + length contents) p @ slice (32 + length contents) 4096 p"
    using c lp by (simp add: slice_append_slice drop_as_slice)
  also have "slice 32 (32 + length contents) p = contents"
    using c l2 by (simp add: after p4_def slice_simps)
  also have "slice (32 + length contents) 4096 p = replicate (4096 - (32 + length contents)) 0"
    using c l1 l2 lz assms(2) by (simp add: after p4_def slice_simps) (simp add: z_def page_consts slice_simps)
  finally show "drop PAGE_HEADER_BYTES p
      = contents @ replicate (METADATA_PAGE_BYTES - PAGE_HEADER_BYTES - length contents) 0"
    by (simp add: page_consts)
qed

lemma validate_encode_page:
  assumes "encode_page xxh page tag n contents = Some p" and "length tag = 8"
  shows "validate_page xxh p tag
    = Some (contents @ replicate (METADATA_PAGE_BYTES - PAGE_HEADER_BYTES - length contents) 0)"
  using encode_page_shape [OF assms] by (simp add: validate_page_def)

text \<open>A page with one tag is not accepted for another.\<close>

lemma validate_page_tag: "validate_page xxh p tag = Some c \<Longrightarrow> validate_page xxh p tag' = Some c' \<Longrightarrow> tag = tag'"
  by (auto simp: validate_page_def split: if_splits)

subsection \<open>Entry metadata round trip\<close>

lemma encode_entry_slices:
  assumes "length bytes = 40"
  shows "length (encode_entry_metadata bytes e) = 40"
    and "slice 0 16 (encode_entry_metadata bytes e) = u128_to_le_bytes (key e)"
    and "slice 16 24 (encode_entry_metadata bytes e) = u64_to_le_bytes (payload_len e)"
    and "slice 24 32 (encode_entry_metadata bytes e) = u64_to_le_bytes (payload_address e)"
    and "slice 32 40 (encode_entry_metadata bytes e) = u64_to_le_bytes (payload_checksum e)"
  using assms by (simp_all add: encode_entry_metadata_def Let_def slice_simps)

lemma u64_from_zeros: "u64_from_le_bytes (replicate n 0) = 0"
proof -
  have "le_nat (replicate n 0) = 0" by (induction n) auto
  then show ?thesis by (simp add: u64_from_le_bytes_def)
qed

lemma decode_encode_entry:
  assumes "length bytes = ENTRY_METADATA_BYTES" and "payload_address e \<noteq> 0"
  shows "decode_entry_metadata (encode_entry_metadata bytes e) = Some e"
proof -
  let ?b = "encode_entry_metadata bytes e"
  note s = encode_entry_slices [OF assms(1) [unfolded page_const_values], of e]
  have "?b \<noteq> replicate ENTRY_METADATA_BYTES 0"
  proof
    assume "?b = replicate ENTRY_METADATA_BYTES 0"
    then have "u64_to_le_bytes (payload_address e) = replicate 8 0"
      using s(4) by (simp add: page_consts slice_simps)
    then have "payload_address e = u64_from_le_bytes (replicate 8 0)"
      by (metis u64_le_roundtrip)
    then show False using assms(2) by (simp add: u64_from_zeros)
  qed
  then show ?thesis
    using s by (simp add: decode_entry_metadata_def read_u64_def take_as_slice)
qed

lemma decode_unused: "decode_entry_metadata (replicate ENTRY_METADATA_BYTES 0) = None"
  by (simp add: decode_entry_metadata_def)

end
