(* ===== verification/Data_File.thy ===== *)
theory Data_File
  imports Feuer_Prelude
begin

text \<open>
  The fixed-capacity data file of \<open>feuer-storage/src/file.rs\<close> with its errors (\<open>error.rs\<close>) and I/O
  metrics (\<open>metrics.rs\<close>). The contents of the file are a function from offsets to bytes. What the
  kernel does with a request is an argument of the operation that issues it, an \<open>io_outcome\<close>:
  it succeeds, or it fails and an arbitrary part of the bytes of a write has reached the file.
  The elapsed time that the metrics record comes with the outcome.

  The locale \<open>byte_file\<close> is what the metadata writer and recovery rely on.
\<close>

subsection \<open>Errors\<close>

datatype io_operation = CreateDirectory | OpenLockFile | LockFile | OpenDataFile | InspectDataFile
  | ResizeDataFile | SyncDataFile | Read | Write

fun io_operation_as_str :: "io_operation \<Rightarrow> string" where
  "io_operation_as_str CreateDirectory = ''create_directory''"
| "io_operation_as_str OpenLockFile = ''open_lock_file''"
| "io_operation_as_str LockFile = ''lock_file''"
| "io_operation_as_str OpenDataFile = ''open_data_file''"
| "io_operation_as_str InspectDataFile = ''inspect_data_file''"
| "io_operation_as_str ResizeDataFile = ''resize_data_file''"
| "io_operation_as_str SyncDataFile = ''sync_data_file''"
| "io_operation_as_str Read = ''read''"
| "io_operation_as_str Write = ''write''"

datatype data_file_error_kind = KindInvalidConfiguration | KindAlreadyOpen | KindRangeExceedsCapacity
  | KindIo | KindTask

fun error_kind_as_str :: "data_file_error_kind \<Rightarrow> string" where
  "error_kind_as_str KindInvalidConfiguration = ''invalid_configuration''"
| "error_kind_as_str KindAlreadyOpen = ''already_open''"
| "error_kind_as_str KindRangeExceedsCapacity = ''range_exceeds_capacity''"
| "error_kind_as_str KindIo = ''io''"
| "error_kind_as_str KindTask = ''task''"

datatype data_file_error = InvalidCapacity | AlreadyOpen string | InvalidDataFile string
  | RangeExceedsCapacity io_operation nat nat nat | LengthOverflow io_operation nat
  | Io io_operation string string | RuntimeUnavailable | Task io_operation string

fun error_kind :: "data_file_error \<Rightarrow> data_file_error_kind" where
  "error_kind InvalidCapacity = KindInvalidConfiguration"
| "error_kind (InvalidDataFile _) = KindInvalidConfiguration"
| "error_kind (AlreadyOpen _) = KindAlreadyOpen"
| "error_kind (RangeExceedsCapacity _ _ _ _) = KindRangeExceedsCapacity"
| "error_kind (LengthOverflow _ _) = KindRangeExceedsCapacity"
| "error_kind (Io _ _ _) = KindIo"
| "error_kind RuntimeUnavailable = KindTask"
| "error_kind (Task _ _) = KindTask"

fun error_operation :: "data_file_error \<Rightarrow> io_operation" where
  "error_operation InvalidCapacity = OpenDataFile"
| "error_operation (AlreadyOpen _) = LockFile"
| "error_operation (InvalidDataFile _) = InspectDataFile"
| "error_operation RuntimeUnavailable = OpenDataFile"
| "error_operation (RangeExceedsCapacity op _ _ _) = op"
| "error_operation (LengthOverflow op _) = op"
| "error_operation (Io op _ _) = op"
| "error_operation (Task op _) = op"

type_synonym 'a data_file_result = "data_file_error + 'a"

subsection \<open>I/O metrics\<close>

record io_operation_metrics =
  success :: nat
  errors :: nat
  successful_bytes :: nat
  success_duration :: "nat list"

record io_metrics =
  read_metrics :: io_operation_metrics
  write_metrics :: io_operation_metrics
  read_size :: "nat list"
  read_queue_waiters :: int
  read_queue_wait_duration :: "nat list"

definition new_io_metrics :: io_metrics where
  "new_io_metrics =
    (let m = \<lparr>success = 0, errors = 0, successful_bytes = 0, success_duration = []\<rparr>
     in \<lparr>read_metrics = m, write_metrics = m, read_size = [], read_queue_waiters = 0,
         read_queue_wait_duration = []\<rparr>)"

definition record_operation ::
  "nat \<Rightarrow> nat \<Rightarrow> bool \<Rightarrow> io_operation_metrics \<Rightarrow> io_operation_metrics" where
  "record_operation bytes elapsed ok m =
    (if ok then m\<lparr>success := success m + 1, successful_bytes := successful_bytes m + bytes,
                  success_duration := success_duration m @ [elapsed]\<rparr>
     else m\<lparr>errors := errors m + 1\<rparr>)"

definition record_io :: "io_operation \<Rightarrow> nat \<Rightarrow> nat \<Rightarrow> bool \<Rightarrow> io_metrics \<Rightarrow> io_metrics" where
  "record_io operation bytes elapsed ok m =
    (case operation of
       Read \<Rightarrow>
         let m1 = m\<lparr>read_metrics := record_operation bytes elapsed ok (read_metrics m)\<rparr>
         in if ok then m1\<lparr>read_size := read_size m1 @ [bytes]\<rparr> else m1
     | Write \<Rightarrow> m\<lparr>write_metrics := record_operation bytes elapsed ok (write_metrics m)\<rparr>
     | _ \<Rightarrow> m)"

subsection \<open>File contents\<close>

definition DIRECT_IO_ALIGNMENT_BYTES :: nat where
  "DIRECT_IO_ALIGNMENT_BYTES = 4096"

type_synonym image = "nat \<Rightarrow> byte"

definition disk_read :: "nat \<Rightarrow> nat \<Rightarrow> image \<Rightarrow> byte list" where
  "disk_read offset n img = map img [offset..<offset + n]"

definition disk_write :: "nat \<Rightarrow> byte list \<Rightarrow> image \<Rightarrow> image" where
  "disk_write offset bs img =
    (\<lambda>i. if offset \<le> i \<and> i < offset + length bs then bs ! (i - offset) else img i)"

text \<open>The part of a failed write selected by \<open>kept\<close> has reached the file.\<close>

definition disk_write_part :: "(nat \<Rightarrow> bool) \<Rightarrow> nat \<Rightarrow> byte list \<Rightarrow> image \<Rightarrow> image" where
  "disk_write_part kept offset bs img =
    (\<lambda>i. if offset \<le> i \<and> i < offset + length bs \<and> kept (i - offset) then bs ! (i - offset) else img i)"

datatype io_outcome = IoOk nat | IoFailed nat string "nat \<Rightarrow> bool"

fun io_elapsed :: "io_outcome \<Rightarrow> nat" where
  "io_elapsed (IoOk t) = t"
| "io_elapsed (IoFailed t _ _) = t"

record data_file =
  data_path :: string
  capacity :: nat
  image :: image
  file_io_metrics :: io_metrics

definition payload_disk_bytes :: "nat \<Rightarrow> nat" where
  "payload_disk_bytes len = next_multiple_of (max len 1) DIRECT_IO_ALIGNMENT_BYTES mod u64_limit"

definition check_range_fits_file :: "io_operation \<Rightarrow> nat \<Rightarrow> nat \<Rightarrow> nat \<Rightarrow> unit data_file_result" where
  "check_range_fits_file operation offset len cap =
    (if (case checked_add offset len of Some range_end \<Rightarrow> range_end > cap | None \<Rightarrow> True)
     then Inl (RangeExceedsCapacity operation offset len cap) else Inr ())"

text \<open>\<open>measure_io\<close> around an operation that has produced \<open>result\<close>.\<close>

definition measure_io ::
  "io_operation \<Rightarrow> nat \<Rightarrow> nat \<Rightarrow> data_file \<times> 'a data_file_result \<Rightarrow> data_file \<times> 'a data_file_result" where
  "measure_io operation observed_bytes elapsed fr =
    (let (f, result) = fr in
     (f\<lparr>file_io_metrics :=
        record_io operation observed_bytes elapsed (case result of Inl _ \<Rightarrow> False | Inr _ \<Rightarrow> True) (file_io_metrics f)\<rparr>,
      result))"

definition io_error :: "io_operation \<Rightarrow> string \<Rightarrow> data_file \<Rightarrow> data_file_error" where
  "io_error operation source f = Io operation (data_path f) source"

text \<open>The file has exactly \<open>capacity\<close> bytes, so the kernel ends a read past it short, which the read
  queue reports as an error.\<close>

definition queue_read :: "io_outcome \<Rightarrow> nat \<Rightarrow> nat \<Rightarrow> data_file \<Rightarrow> byte list data_file_result" where
  "queue_read oc offset len f =
    (case oc of
       IoFailed _ e _ \<Rightarrow> Inl (io_error Read e f)
     | IoOk _ \<Rightarrow> if offset + len \<le> capacity f then Inr (disk_read offset len (image f))
                else Inl (io_error Read ''incomplete aligned direct I/O request'' f))"

text \<open>\<open>buffer_capacity\<close> is the capacity of the buffer the pool allocates for the padded length.\<close>

definition read_slice ::
  "io_outcome \<Rightarrow> (nat \<Rightarrow> nat) \<Rightarrow> nat \<Rightarrow> nat \<Rightarrow> data_file \<Rightarrow> (byte list \<times> nat) data_file_result" where
  "read_slice oc buffer_capacity offset len f =
    (let padding = offset mod DIRECT_IO_ALIGNMENT_BYTES;
         buffer_length = payload_disk_bytes ((padding + len) mod u64_limit)
     in case queue_read oc (offset - padding) buffer_length f of
          Inl e \<Rightarrow> Inl e
        | Inr bytes \<Rightarrow> Inr (slice padding (padding + len) bytes, buffer_capacity buffer_length))"

definition read_at ::
  "io_outcome \<Rightarrow> nat \<Rightarrow> nat \<Rightarrow> data_file \<Rightarrow> data_file \<times> byte list data_file_result" where
  "read_at oc offset len f =
    measure_io Read len (io_elapsed oc)
      (f, case check_range_fits_file Read offset len (capacity f) of
            Inl e \<Rightarrow> Inl e
          | Inr _ \<Rightarrow>
              if len = 0 then Inr []
              else (case read_slice oc id offset len f of Inl e \<Rightarrow> Inl e | Inr (bytes, _) \<Rightarrow> Inr bytes))"

definition read_payload ::
  "io_outcome \<Rightarrow> (nat \<Rightarrow> nat) \<Rightarrow> nat \<Rightarrow> nat \<Rightarrow> data_file \<Rightarrow> data_file \<times> (byte list \<times> nat) data_file_result" where
  "read_payload oc buffer_capacity address len f =
    measure_io Read len (io_elapsed oc) (f, read_slice oc buffer_capacity address len f)"

definition write_padded ::
  "io_outcome \<Rightarrow> nat \<Rightarrow> nat \<Rightarrow> byte list \<Rightarrow> data_file \<Rightarrow> data_file \<times> unit data_file_result" where
  "write_padded oc offset len bytes f =
    measure_io Write len (io_elapsed oc)
      (case check_range_fits_file Write offset len (capacity f) of
         Inl e \<Rightarrow> (f, Inl e)
       | Inr _ \<Rightarrow>
           let padded = take len bytes @ replicate (len - length bytes) 0 in
           (case oc of
              IoOk _ \<Rightarrow> (f\<lparr>image := disk_write offset padded (image f)\<rparr>, Inr ())
            | IoFailed _ e kept \<Rightarrow>
                (f\<lparr>image := disk_write_part kept offset padded (image f)\<rparr>, Inl (io_error Write e f))))"

text \<open>\<open>write_at\<close>: \<open>None\<close> where its assertions panic.\<close>

definition write_at ::
  "io_outcome \<Rightarrow> nat \<Rightarrow> byte list \<Rightarrow> data_file \<Rightarrow> (data_file \<times> unit data_file_result) option" where
  "write_at oc offset bytes f =
    (if offset mod DIRECT_IO_ALIGNMENT_BYTES = 0 \<and> length bytes mod DIRECT_IO_ALIGNMENT_BYTES = 0
     then Some (write_padded oc offset (length bytes) bytes f) else None)"

definition sync_all :: "io_outcome \<Rightarrow> data_file \<Rightarrow> unit data_file_result" where
  "sync_all oc f = (case oc of IoOk _ \<Rightarrow> Inr () | IoFailed _ e _ \<Rightarrow> Inl (io_error SyncDataFile e f))"

subsection \<open>Reading what was written\<close>

locale byte_file =
  fixes rd :: "nat \<Rightarrow> nat \<Rightarrow> 's \<Rightarrow> byte list"
    and wr :: "nat \<Rightarrow> byte list \<Rightarrow> 's \<Rightarrow> 's"
  assumes length_rd: "length (rd p n s) = n"
    and rd_split: "rd p (m + n) s = rd p m s @ rd (p + m) n s"
    and rd_wr_same: "rd p (length bs) (wr p bs s) = bs"
    and rd_wr_disjoint: "p + n \<le> q \<or> q + length bs \<le> p \<Longrightarrow> rd p n (wr q bs s) = rd p n s"
begin

text \<open>A read inside a written range returns that part of the written bytes.\<close>

lemma rd_wr_inside:
  assumes "q \<le> p" and "p + n \<le> q + length bs"
  shows "rd p n (wr q bs s) = slice (p - q) (p - q + n) bs"
proof -
  let ?s = "wr q bs s"
  define a where "a = p - q"
  define b where "b = length bs - a - n"
  have len: "length bs = a + (n + b)" and p: "p = q + a" using assms by (simp_all add: a_def b_def)
  have "bs = rd q (a + (n + b)) ?s" using rd_wr_same [of q bs s] by (simp add: len)
  also have "\<dots> = rd q a ?s @ rd p n ?s @ rd (p + n) b ?s"
    by (simp add: rd_split p add.assoc)
  finally have bs: "bs = rd q a ?s @ rd p n ?s @ rd (p + n) b ?s" .
  have "slice a (a + n) (rd q a ?s @ rd p n ?s @ rd (p + n) b ?s) = rd p n ?s"
    by (simp add: slice_def length_rd)
  then show ?thesis using bs a_def by metis
qed

text \<open>A write replaces exactly one of consecutive equal pieces.\<close>

lemma rd_wr_piece:
  assumes "length bs = n" and "0 < n"
  shows "rd (base + i * n) n (wr (base + j * n) bs s) = (if i = j then bs else rd (base + i * n) n s)"
proof (cases "i = j")
  case True
  then show ?thesis using rd_wr_same [of "base + j * n" bs s] assms by simp
next
  case False
  then consider "i < j" | "j < i" by linarith
  then have "base + i * n + n \<le> base + j * n \<or> base + j * n + length bs \<le> base + i * n"
  proof cases
    case 1
    then have "Suc i * n \<le> j * n" by (intro mult_le_mono1) simp
    then show ?thesis by simp
  next
    case 2
    then have "Suc j * n \<le> i * n" by (intro mult_le_mono1) simp
    then show ?thesis using assms(1) by simp
  qed
  then show ?thesis using False rd_wr_disjoint by simp
qed

end

interpretation img: byte_file disk_read disk_write
proof (standard, goal_cases)
  case (1 p n s) then show ?case by (simp add: disk_read_def)
next
  case (2 p m n s)
  have "[p..<p + (m + n)] = [p..<p + m] @ [p + m..<p + m + n]"
    by (metis add.assoc le_add1 upt_add_eq_append)
  then show ?case by (simp add: disk_read_def)
next
  case (3 p bs s) then show ?case by (auto simp: disk_read_def disk_write_def intro: nth_equalityI)
next
  case (4 p n q bs s) then show ?case by (auto simp: disk_read_def disk_write_def)
qed

lemma payload_disk_bytes_no_wrap:
  assumes "len + 4096 \<le> u64_limit"
  shows "payload_disk_bytes len = next_multiple_of (max len 1) 4096"
  using next_multiple_of_less [of 4096 "max len 1"] assms
  by (simp add: payload_disk_bytes_def DIRECT_IO_ALIGNMENT_BYTES_def u64_limit_def max_def split: if_splits)

text \<open>A successful write of a whole number of blocks changes the file exactly there.\<close>

lemma write_padded_ok:
  assumes "write_padded oc offset len bytes f = (f', Inr ())"
  shows "image f' = disk_write offset (take len bytes @ replicate (len - length bytes) 0) (image f)"
    and "capacity f' = capacity f" and "offset + len \<le> capacity f" and "data_path f' = data_path f"
  using assms
  by (auto simp: write_padded_def measure_io_def check_range_fits_file_def checked_add_def Let_def
      split: if_splits io_outcome.splits sum.splits)

text \<open>A failed write changes no byte outside its range.\<close>

lemma write_padded_frame:
  assumes "write_padded oc offset len bytes f = (f', r)" and "i < offset \<or> offset + len \<le> i"
  shows "image f' i = image f i"
  using assms
  by (auto simp: write_padded_def measure_io_def disk_write_def disk_write_part_def Let_def min_def
      split: if_splits io_outcome.splits sum.splits)

lemma slice_disk_read:
  "p + n \<le> m \<Longrightarrow> slice p (p + n) (disk_read offset m img) = disk_read (offset + p) n img"
  by (intro nth_equalityI) (auto simp: disk_read_def add.assoc)

text \<open>Alignment padding is invisible: a read inside the file returns the requested bytes, whatever
  the alignment of its address.\<close>

lemma read_slice_ok:
  assumes fits: "offset + max len 1 \<le> capacity f" and al: "4096 dvd capacity f"
    and cap: "capacity f \<le> i64_max"
  shows "read_slice (IoOk t) bc offset len f =
    Inr (disk_read offset len (image f), bc (payload_disk_bytes (offset mod 4096 + len)))"
proof -
  define p where "p = offset mod 4096"
  have p: "p < 4096" "p \<le> offset" "4096 dvd offset - p"
    by (simp_all add: p_def dvd_minus_mod)
  have lim: "p + len + 4096 \<le> u64_limit" using fits cap p by (simp add: i64_max_def u64_limit_def)
  define b where "b = next_multiple_of (max (p + len) 1) 4096"
  have pdb: "payload_disk_bytes (p + len) = b"
    using payload_disk_bytes_no_wrap [OF lim] by (simp add: b_def)
  have "4096 dvd capacity f - (offset - p)" using al p(3) by (rule dvd_diff_nat)
  then have "b \<le> capacity f - (offset - p)"
    unfolding b_def using fits p(2) by (intro next_multiple_of_least) auto
  then have fit: "offset - p + b \<le> capacity f" using fits p by linarith
  have "max (p + len) 1 \<le> b" by (simp add: b_def next_multiple_of_ge)
  then have "slice p (p + len) (disk_read (offset - p) b (image f)) = disk_read offset len (image f)"
    using slice_disk_read [of p len b "offset - p" "image f"] p by simp
  moreover have "(p + len) mod u64_limit = p + len" using lim by simp
  ultimately show ?thesis
    using fit pdb by (simp add: read_slice_def queue_read_def Let_def DIRECT_IO_ALIGNMENT_BYTES_def
        flip: p_def)
qed

lemma write_at_succeeds:
  assumes "a mod 4096 = 0" and "length b mod 4096 = 0" and "a + length b \<le> capacity f" and "capacity f < u64_limit"
  shows "\<exists>f'. write_at (IoOk t) a b f = Some (f', Inr ())"
  using assms by (auto simp: write_at_def write_padded_def measure_io_def check_range_fits_file_def checked_add_def
      DIRECT_IO_ALIGNMENT_BYTES_def Let_def)

text \<open>A file of zeros, for examples.\<close>

definition zero_file :: "nat \<Rightarrow> data_file" where
  "zero_file n = \<lparr>data_path = ''data'', capacity = n, image = \<lambda>_. 0, file_io_metrics = new_io_metrics\<rparr>"

end
