(* ===== verification/Metadata.thy ===== *)
theory Metadata
  imports Page_Format Data_File
begin

text \<open>
  The in-memory metadata chain of \<open>feuer-storage/src/disk_cache/metadata.rs\<close>: its chunks with their
  entry slots and links, the dirty pages, the search for free slots, and the writer that encodes dirty
  pages and writes them. Indexes are \<open>nat\<close>; the \<open>u32\<close>, \<open>u16\<close> and \<open>u8\<close> conversions of the source
  cannot fail for fewer than \<open>2 ^ 32\<close> metadata chunks.

  \<open>meta_inv\<close> is the invariant of the in-memory chain and \<open>meta_on_disk\<close> relates it to the file: every
  page that is neither dirty nor part of a chunk that is still to be initialized holds its encoding.
\<close>

subsection \<open>Locations\<close>

datatype entry_metadata_location = EntryMetadataLocation (chunk_index: nat) (entry_index: nat)

datatype metadata_page_location = MetadataPageLocation (page_chunk_index: nat) (page_index: nat)

instantiation entry_metadata_location :: linorder
begin

definition less_eq_entry_metadata_location :: "entry_metadata_location \<Rightarrow> entry_metadata_location \<Rightarrow> bool" where
  "less_eq_entry_metadata_location a b \<longleftrightarrow>
    chunk_index a < chunk_index b \<or> chunk_index a = chunk_index b \<and> entry_index a \<le> entry_index b"

definition less_entry_metadata_location :: "entry_metadata_location \<Rightarrow> entry_metadata_location \<Rightarrow> bool" where
  "less_entry_metadata_location a b \<longleftrightarrow>
    chunk_index a < chunk_index b \<or> chunk_index a = chunk_index b \<and> entry_index a < entry_index b"

instance
  by standard (auto simp: less_eq_entry_metadata_location_def less_entry_metadata_location_def
      intro: entry_metadata_location.expand)

end

instantiation metadata_page_location :: linorder
begin

definition less_eq_metadata_page_location :: "metadata_page_location \<Rightarrow> metadata_page_location \<Rightarrow> bool" where
  "less_eq_metadata_page_location a b \<longleftrightarrow>
    page_chunk_index a < page_chunk_index b
    \<or> page_chunk_index a = page_chunk_index b \<and> page_index a \<le> page_index b"

definition less_metadata_page_location :: "metadata_page_location \<Rightarrow> metadata_page_location \<Rightarrow> bool" where
  "less_metadata_page_location a b \<longleftrightarrow>
    page_chunk_index a < page_chunk_index b
    \<or> page_chunk_index a = page_chunk_index b \<and> page_index a < page_index b"

instance
  by standard (auto simp: less_eq_metadata_page_location_def less_metadata_page_location_def
      intro: metadata_page_location.expand)

end

lemmas location_order = less_eq_entry_metadata_location_def less_entry_metadata_location_def
lemmas page_location_order = less_eq_metadata_page_location_def less_metadata_page_location_def

subsection \<open>Chunks\<close>

record metadata_chunk =
  reserved_chunk :: reserved_chunks
  entries :: "entry_metadata option list"
  next_chunk_address :: u64
  needs_full_write :: bool

record metadata_chunks =
  chunks :: "metadata_chunk list"
  dirty_pages :: "metadata_page_location set"
  free_slot_search_start :: entry_metadata_location
  free_slot_count :: nat

definition default_metadata_chunks :: metadata_chunks where
  "default_metadata_chunks = \<lparr>chunks = [], dirty_pages = {},
    free_slot_search_start = EntryMetadataLocation 0 0, free_slot_count = 0\<rparr>"

text \<open>\<open>MetadataChunk::encode_page\<close>. The contents start as zeros; used slots are encoded over them.\<close>

definition encode_slot :: "byte list \<Rightarrow> entry_metadata option \<Rightarrow> byte list" where
  "encode_slot bytes slot = (case slot of Some e \<Rightarrow> encode_entry_metadata bytes e | None \<Rightarrow> bytes)"

definition entry_page_contents :: "entry_metadata option list \<Rightarrow> byte list" where
  "entry_page_contents slots =
    concat (map2 encode_slot (chunks_exact ENTRY_METADATA_BYTES (replicate PAGE_CONTENT_BYTES 0)) slots)"

definition encode_chunk_page ::
  "(byte list \<Rightarrow> u64) \<Rightarrow> metadata_chunk \<Rightarrow> nat \<Rightarrow> byte list \<Rightarrow> byte list option" where
  "encode_chunk_page xxh chunk i page =
    (if i = ENTRY_METADATA_PAGES_PER_CHUNK
     then encode_page xxh page NEXT_CHUNK_PAGE_TAG 1 (u64_to_le_bytes (next_chunk_address chunk))
     else encode_page xxh page ENTRY_METADATA_PAGE_TAG (of_nat ENTRIES_PER_METADATA_PAGE)
       (entry_page_contents
         (take ENTRIES_PER_METADATA_PAGE (drop (i * ENTRIES_PER_METADATA_PAGE) (entries chunk)))))"

subsection \<open>Slots\<close>

definition position :: "('a \<Rightarrow> bool) \<Rightarrow> 'a list \<Rightarrow> nat option" where
  "position P xs = find (\<lambda>i. P (xs ! i)) [0..<length xs]"

text \<open>The search loop of \<open>store_entry_metadata\<close>. \<open>None\<close> is the panic when it runs past the last chunk.\<close>

function find_free_slot :: "metadata_chunk list \<Rightarrow> nat \<Rightarrow> nat \<Rightarrow> entry_metadata_location option" where
  "find_free_slot cs c e =
    (if c < length cs then
       (case position (\<lambda>slot. slot = None) (drop e (entries (cs ! c))) of
          Some offset \<Rightarrow> Some (EntryMetadataLocation c (e + offset))
        | None \<Rightarrow> find_free_slot cs (c + 1) 0)
     else None)"
  by pat_completeness auto
termination
  by (relation "measure (\<lambda>(cs, c, e). length cs - c)") auto

declare find_free_slot.simps [simp del]

definition set_slot ::
  "entry_metadata_location \<Rightarrow> entry_metadata option \<Rightarrow> metadata_chunk list \<Rightarrow> metadata_chunk list" where
  "set_slot loc slot cs =
    cs[chunk_index loc := (cs ! chunk_index loc)\<lparr>entries :=
      (entries (cs ! chunk_index loc))[entry_index loc := slot]\<rparr>]"

definition slot_page :: "entry_metadata_location \<Rightarrow> metadata_page_location" where
  "slot_page loc = MetadataPageLocation (chunk_index loc) (entry_index loc div ENTRIES_PER_METADATA_PAGE)"

definition link_page :: "nat \<Rightarrow> metadata_page_location" where
  "link_page i = MetadataPageLocation i ENTRY_METADATA_PAGES_PER_CHUNK"

definition mark_page_dirty :: "entry_metadata_location \<Rightarrow> metadata_chunks \<Rightarrow> metadata_chunks" where
  "mark_page_dirty loc m = m\<lparr>dirty_pages := insert (slot_page loc) (dirty_pages m)\<rparr>"

definition mark_link_page_dirty :: "nat \<Rightarrow> metadata_chunks \<Rightarrow> metadata_chunks" where
  "mark_link_page_dirty i m = m\<lparr>dirty_pages := insert (link_page i) (dirty_pages m)\<rparr>"

definition store_entry_metadata ::
  "entry_metadata \<Rightarrow> metadata_chunks \<Rightarrow> (metadata_chunks \<times> entry_metadata_location) option" where
  "store_entry_metadata e m =
    (case find_free_slot (chunks m) (chunk_index (free_slot_search_start m))
            (entry_index (free_slot_search_start m)) of
       None \<Rightarrow> None
     | Some loc \<Rightarrow>
         Some (mark_page_dirty loc
           (m\<lparr>chunks := set_slot loc (Some e) (chunks m), free_slot_search_start := loc,
              free_slot_count := free_slot_count m - 1\<rparr>), loc))"

text \<open>\<open>None\<close> is an index out of bounds or the assertion that the slot is in use.\<close>

definition free_entry_metadata :: "entry_metadata_location \<Rightarrow> metadata_chunks \<Rightarrow> metadata_chunks option" where
  "free_entry_metadata loc m =
    (if chunk_index loc < length (chunks m) \<and> entry_index loc < length (entries (chunks m ! chunk_index loc))
        \<and> entries (chunks m ! chunk_index loc) ! entry_index loc \<noteq> None
     then Some (mark_page_dirty loc
       (m\<lparr>chunks := set_slot loc None (chunks m),
          free_slot_search_start := min (free_slot_search_start m) loc,
          free_slot_count := free_slot_count m + 1\<rparr>))
     else None)"

definition set_last_chunk_link :: "u64 \<Rightarrow> metadata_chunks \<Rightarrow> metadata_chunks" where
  "set_last_chunk_link address m =
    (if chunks m = [] then m
     else mark_link_page_dirty (length (chunks m) - 1)
       (m\<lparr>chunks := (chunks m)[length (chunks m) - 1 :=
          (last (chunks m))\<lparr>next_chunk_address := address\<rparr>]\<rparr>))"

definition ensure_free_slots ::
  "nat \<Rightarrow> alloc_state \<Rightarrow> metadata_chunks \<Rightarrow> (alloc_state \<times> metadata_chunks) option" where
  "ensure_free_slots n s m =
    (if free_slot_count m < n then
       (case reserve_chunks 1 s of
          None \<Rightarrow> None
        | Some (s1, r) \<Rightarrow>
            let m1 = set_last_chunk_link (of_nat (fst (disk_byte_range r))) m;
                m2 = m1\<lparr>chunks := chunks m1 @
                  [\<lparr>reserved_chunk = r, entries = replicate ENTRIES_PER_METADATA_CHUNK None,
                    next_chunk_address = NO_CHUNK, needs_full_write = True\<rparr>]\<rparr>;
                m3 = mark_link_page_dirty (length (chunks m2) - 1) m2
            in Some (s1, m3\<lparr>free_slot_count := free_slot_count m3 + ENTRIES_PER_METADATA_CHUNK\<rparr>))
     else Some (s, m))"

definition reset_free_slots :: "metadata_chunks \<Rightarrow> metadata_chunks" where
  "reset_free_slots m = m\<lparr>free_slot_search_start := EntryMetadataLocation 0 0,
    free_slot_count := length (filter (\<lambda>slot. slot = None) (concat (map entries (chunks m))))\<rparr>"

subsection \<open>Writing dirty pages\<close>

text \<open>The locked part of \<open>write_dirty_metadata_pages\<close>: the pages to write, later chunks first, with
  their disk addresses, and the metadata without dirty pages. \<open>None\<close> is a failed assertion or an
  index out of bounds.\<close>

definition encode_metadata_write ::
  "(byte list \<Rightarrow> u64) \<Rightarrow> metadata_chunk list \<Rightarrow> metadata_page_location \<Rightarrow> (nat \<times> nat \<times> byte list) option" where
  "encode_metadata_write xxh cs loc =
    (let chunk = cs ! page_chunk_index loc;
         (first_page, page_count) =
           (if needs_full_write chunk then (0, ENTRY_METADATA_PAGES_PER_CHUNK + 1) else (page_index loc, 1));
         pages = map (\<lambda>i. encode_chunk_page xxh chunk i (replicate METADATA_PAGE_BYTES 0))
           [first_page..<first_page + page_count];
         start = fst (disk_byte_range (reserved_chunk chunk)) + first_page * METADATA_PAGE_BYTES
     in if list_all (\<lambda>p. p \<noteq> None) pages
        then Some (page_chunk_index loc, start, concat (map the pages)) else None)"

definition dirty_after_marking :: "metadata_chunks \<Rightarrow> metadata_page_location set" where
  "dirty_after_marking m =
    (if dirty_pages m \<noteq> {}
     then dirty_pages m \<union> set (map link_page (filter (\<lambda>i. needs_full_write (chunks m ! i)) [0..<length (chunks m)]))
     else {})"

definition take_metadata_writes ::
  "(byte list \<Rightarrow> u64) \<Rightarrow> metadata_chunks \<Rightarrow> metadata_chunks \<times> (nat \<times> nat \<times> byte list) list option" where
  "take_metadata_writes xxh m =
    (let locations = rev (sorted_list_of_set (dirty_after_marking m));
         selected = filter (\<lambda>loc. \<not> (needs_full_write (chunks m ! page_chunk_index loc)
           \<and> page_index loc \<noteq> ENTRY_METADATA_PAGES_PER_CHUNK)) locations;
         writes = map (encode_metadata_write xxh (chunks m)) selected
     in (m\<lparr>dirty_pages := {}\<rparr>,
         if list_all (\<lambda>w. w \<noteq> None) writes then Some (map the writes) else None))"

definition finish_metadata_write :: "nat \<Rightarrow> byte list \<Rightarrow> metadata_chunks \<Rightarrow> metadata_chunks" where
  "finish_metadata_write i bytes m =
    (if length bytes = CHUNK_BYTES
     then m\<lparr>chunks := (chunks m)[i := (chunks m ! i)\<lparr>needs_full_write := False\<rparr>]\<rparr> else m)"

text \<open>The writes are sequential and the first failure ends the round. \<open>ocs n\<close> is the outcome of the
  \<open>n\<close>-th write.\<close>

fun perform_metadata_writes ::
  "(nat \<Rightarrow> io_outcome) \<Rightarrow> (nat \<times> nat \<times> byte list) list \<Rightarrow> data_file \<times> metadata_chunks
    \<Rightarrow> (data_file \<times> metadata_chunks \<times> unit data_file_result) option" where
  "perform_metadata_writes ocs [] (f, m) = Some (f, m, Inr ())"
| "perform_metadata_writes ocs ((i, address, bytes) # ws) (f, m) =
    (case write_at (ocs 0) address bytes f of
       None \<Rightarrow> None
     | Some (f1, Inl e) \<Rightarrow> Some (f1, m, Inl e)
     | Some (f1, Inr _) \<Rightarrow>
         perform_metadata_writes (\<lambda>n. ocs (Suc n)) ws (f1, finish_metadata_write i bytes m))"

definition write_dirty_metadata_pages ::
  "(byte list \<Rightarrow> u64) \<Rightarrow> (nat \<Rightarrow> io_outcome) \<Rightarrow> data_file \<times> metadata_chunks
    \<Rightarrow> (data_file \<times> metadata_chunks \<times> unit data_file_result) option" where
  "write_dirty_metadata_pages xxh ocs fm =
    (case take_metadata_writes xxh (snd fm) of
       (_, None) \<Rightarrow> None
     | (m, Some writes) \<Rightarrow> perform_metadata_writes ocs writes (fst fm, m))"

subsection \<open>The slots as a map\<close>

definition valid_loc :: "metadata_chunk list \<Rightarrow> entry_metadata_location \<Rightarrow> bool" where
  "valid_loc cs loc \<longleftrightarrow>
    chunk_index loc < length cs \<and> entry_index loc < length (entries (cs ! chunk_index loc))"

definition slot_at :: "metadata_chunk list \<Rightarrow> entry_metadata_location \<Rightarrow> entry_metadata option" where
  "slot_at cs loc = (if valid_loc cs loc then entries (cs ! chunk_index loc) ! entry_index loc else None)"

definition free_slots :: "metadata_chunk list \<Rightarrow> nat" where
  "free_slots cs = length (filter (\<lambda>slot. slot = None) (concat (map entries cs)))"

lemma position_Some:
  "position P xs = Some i \<longleftrightarrow> i < length xs \<and> P (xs ! i) \<and> (\<forall>j < i. \<not> P (xs ! j))"
  unfolding position_def find_Some_iff by (auto intro: exI [of _ i])

lemma position_None: "position P xs = None \<longleftrightarrow> (\<forall>i < length xs. \<not> P (xs ! i))"
  by (auto simp: position_def find_None_iff)

lemma find_free_slot_Some:
  assumes "find_free_slot cs c e = Some loc"
  shows "valid_loc cs loc \<and> slot_at cs loc = None \<and> EntryMetadataLocation c e \<le> loc
    \<and> (\<forall>l. valid_loc cs l \<longrightarrow> EntryMetadataLocation c e \<le> l \<longrightarrow> l < loc \<longrightarrow> slot_at cs l \<noteq> None)"
  using assms
proof (induction cs c e rule: find_free_slot.induct)
  case (1 cs c e)
  let ?p = "position (\<lambda>slot. slot = None) (drop e (entries (cs ! c)))"
  have c: "c < length cs" using "1.prems" by (subst (asm) find_free_slot.simps) (auto split: if_splits)
  show ?case
  proof (cases ?p)
    case None
    then have "find_free_slot cs (c + 1) 0 = Some loc"
      using "1.prems" c by (subst (asm) find_free_slot.simps) simp
    from "1.IH" [OF c None this] have IH: "valid_loc cs loc" "slot_at cs loc = None"
      "EntryMetadataLocation (c + 1) 0 \<le> loc"
      "\<And>l. valid_loc cs l \<Longrightarrow> EntryMetadataLocation (c + 1) 0 \<le> l \<Longrightarrow> l < loc \<Longrightarrow> slot_at cs l \<noteq> None"
      by auto
    have here: "slot_at cs l \<noteq> None"
      if l: "valid_loc cs l" "EntryMetadataLocation c e \<le> l" "\<not> EntryMetadataLocation (c + 1) 0 \<le> l" for l
    proof -
      have "chunk_index l = c" "e \<le> entry_index l" using l(2,3) by (auto simp: location_order)
      moreover have "entries (cs ! c) ! (e + i) \<noteq> None" if "i < length (entries (cs ! c)) - e" for i
        using None that by (auto simp: position_None)
      from this [of "entry_index l - e"] show ?thesis
        using l(1) calculation by (auto simp: slot_at_def valid_loc_def)
    qed
    have "EntryMetadataLocation c e \<le> loc" using IH(3) by (auto simp: location_order)
    then show ?thesis using IH here by blast
  next
    case (Some i)
    then have loc: "loc = EntryMetadataLocation c (e + i)"
      using "1.prems" c by (subst (asm) find_free_slot.simps) simp
    have i: "e + i < length (entries (cs ! c))" "entries (cs ! c) ! (e + i) = None"
      "\<And>j. j < i \<Longrightarrow> entries (cs ! c) ! (e + j) \<noteq> None"
      using Some by (auto simp: position_Some)
    have "slot_at cs l \<noteq> None"
      if l: "valid_loc cs l" "EntryMetadataLocation c e \<le> l" "l < loc" for l
    proof -
      have "chunk_index l = c" "e \<le> entry_index l" "entry_index l - e < i"
        using l(2,3) loc by (auto simp: location_order)
      then show ?thesis using i(3) [of "entry_index l - e"] l(1) by (auto simp: slot_at_def)
    qed
    then show ?thesis using i c loc by (auto simp: slot_at_def valid_loc_def location_order)
  qed
qed

lemma find_free_slot_None:
  assumes "find_free_slot cs c e = None" and "valid_loc cs l" and "EntryMetadataLocation c e \<le> l"
  shows "slot_at cs l \<noteq> None"
  using assms
proof (induction cs c e rule: find_free_slot.induct)
  case (1 cs c e)
  have c: "c < length cs" using "1.prems"(2,3) by (auto simp: valid_loc_def location_order)
  have none: "position (\<lambda>slot. slot = None) (drop e (entries (cs ! c))) = None"
    "find_free_slot cs (c + 1) 0 = None"
    using "1.prems"(1) c by (auto simp: find_free_slot.simps [of cs c e] split: option.splits)
  show ?case
  proof (cases "EntryMetadataLocation (c + 1) 0 \<le> l")
    case True
    then show ?thesis using "1.IH" [OF c none(1) none(2)] "1.prems"(2) by blast
  next
    case False
    have "chunk_index l = c" "e \<le> entry_index l" using "1.prems"(3) False by (auto simp: location_order)
    moreover have "entries (cs ! c) ! (e + i) \<noteq> None" if "i < length (entries (cs ! c)) - e" for i
      using none(1) that by (auto simp: position_None)
    from this [of "entry_index l - e"] show ?thesis
      using "1.prems"(2) calculation by (auto simp: slot_at_def valid_loc_def)
  qed
qed

lemma length_filter_update:
  assumes "i < length xs"
  shows "length (filter P (xs[i := v])) + of_bool (P (xs ! i)) = length (filter P xs) + of_bool (P v)"
  using assms
proof (induction xs arbitrary: i)
  case (Cons x xs)
  then show ?case by (cases i) (auto simp: of_bool_def split: if_splits)
qed simp

lemma free_slots_Cons: "free_slots (c # cs) = length (filter (\<lambda>slot. slot = None) (entries c)) + free_slots cs"
  by (simp add: free_slots_def)

lemma free_slots_update:
  assumes "i < length cs"
  shows "free_slots (cs[i := c]) + length (filter (\<lambda>slot. slot = None) (entries (cs ! i)))
    = free_slots cs + length (filter (\<lambda>slot. slot = None) (entries c))"
  using assms
proof (induction cs arbitrary: i)
  case (Cons x cs)
  then show ?case by (cases i) (auto simp: free_slots_Cons)
qed simp

lemma free_slots_set_slot:
  assumes "valid_loc cs loc"
  shows "free_slots (set_slot loc v cs) + of_bool (slot_at cs loc = None)
    = free_slots cs + of_bool (v = None)"
proof -
  let ?i = "chunk_index loc" and ?j = "entry_index loc"
  let ?c = "(cs ! ?i)\<lparr>entries := (entries (cs ! ?i))[?j := v]\<rparr>"
  have v: "?i < length cs" "?j < length (entries (cs ! ?i))" using assms by (auto simp: valid_loc_def)
  have "slot_at cs loc = entries (cs ! ?i) ! ?j" using assms by (simp add: slot_at_def)
  moreover note free_slots_update [OF v(1), of ?c] length_filter_update [OF v(2), of "\<lambda>slot. slot = None" v]
  ultimately show ?thesis by (simp add: set_slot_def)
qed

lemma free_slots_pos:
  assumes "0 < free_slots cs"
  shows "\<exists>loc. valid_loc cs loc \<and> slot_at cs loc = None"
proof -
  from assms have "filter (\<lambda>slot. slot = None) (concat (map entries cs)) \<noteq> []"
    unfolding free_slots_def by (metis length_greater_0_conv)
  then obtain c where "c \<in> set cs" "None \<in> set (entries c)" by (auto simp: filter_empty_conv)
  then obtain i j where "i < length cs" "j < length (entries (cs ! i))" "entries (cs ! i) ! j = None"
    by (metis in_set_conv_nth)
  then have "valid_loc cs (EntryMetadataLocation i j) \<and> slot_at cs (EntryMetadataLocation i j) = None"
    by (simp add: valid_loc_def slot_at_def)
  then show ?thesis ..
qed

lemma length_set_slot [simp]: "length (set_slot loc v cs) = length cs"
  by (simp add: set_slot_def)

lemma set_slot_fields:
  assumes "i < length cs"
  shows "reserved_chunk (set_slot loc v cs ! i) = reserved_chunk (cs ! i)"
    and "next_chunk_address (set_slot loc v cs ! i) = next_chunk_address (cs ! i)"
    and "needs_full_write (set_slot loc v cs ! i) = needs_full_write (cs ! i)"
    and "length (entries (set_slot loc v cs ! i)) = length (entries (cs ! i))"
  using assms by (cases "chunk_index loc < length cs"; simp add: set_slot_def nth_list_update)+

lemma valid_loc_set_slot [simp]: "valid_loc (set_slot loc v cs) l = valid_loc cs l"
  by (auto simp: valid_loc_def set_slot_fields)

lemma slot_at_set_slot:
  "valid_loc cs loc \<Longrightarrow> slot_at (set_slot loc v cs) = (slot_at cs)(loc := v)"
proof
  fix l assume v: "valid_loc cs loc"
  have "loc = l" if "chunk_index loc = chunk_index l" "entry_index loc = entry_index l"
    using that by (rule entry_metadata_location.expand [OF conjI])
  then show "slot_at (set_slot loc v cs) l = ((slot_at cs)(loc := v)) l"
    using v by (auto simp: slot_at_def set_slot_def valid_loc_def nth_list_update)
qed

subsection \<open>The invariant\<close>

definition chain_ok :: "metadata_chunk list \<Rightarrow> bool" where
  "chain_ok cs \<longleftrightarrow> (\<forall>i < length cs. next_chunk_address (cs ! i) =
    (if Suc i < length cs then of_nat (fst (disk_byte_range (reserved_chunk (cs ! Suc i)))) else NO_CHUNK))"

definition chunk_ok :: "metadata_chunk \<Rightarrow> bool" where
  "chunk_ok c \<longleftrightarrow> length (entries c) = ENTRIES_PER_METADATA_CHUNK \<and> chunk_count (reserved_chunk c) = 1"

definition meta_inv :: "metadata_chunks \<Rightarrow> bool" where
  "meta_inv m \<longleftrightarrow>
    (\<forall>c \<in> set (chunks m). chunk_ok c) \<and> chain_ok (chunks m) \<and>
    free_slot_count m = free_slots (chunks m) \<and>
    (\<forall>loc. valid_loc (chunks m) loc \<longrightarrow> loc < free_slot_search_start m \<longrightarrow> slot_at (chunks m) loc \<noteq> None) \<and>
    (free_slot_search_start m = EntryMetadataLocation 0 0
      \<or> chunk_index (free_slot_search_start m) < length (chunks m)) \<and>
    finite (dirty_pages m) \<and>
    (\<forall>p \<in> dirty_pages m. page_chunk_index p < length (chunks m)
      \<and> page_index p \<le> ENTRY_METADATA_PAGES_PER_CHUNK)"

lemma meta_inv_D:
  assumes "meta_inv m"
  shows "\<And>c. c \<in> set (chunks m) \<Longrightarrow> chunk_ok c" and "chain_ok (chunks m)"
    and "free_slot_count m = free_slots (chunks m)"
    and "\<And>loc. valid_loc (chunks m) loc \<Longrightarrow> loc < free_slot_search_start m \<Longrightarrow> slot_at (chunks m) loc \<noteq> None"
    and "finite (dirty_pages m)"
    and "\<And>p. p \<in> dirty_pages m \<Longrightarrow> page_chunk_index p < length (chunks m)
      \<and> page_index p \<le> ENTRY_METADATA_PAGES_PER_CHUNK"
    and "free_slot_search_start m = EntryMetadataLocation 0 0
      \<or> chunk_index (free_slot_search_start m) < length (chunks m)"
  using assms by (auto simp: meta_inv_def)

lemma chain_ok_set_slot: "chain_ok cs \<Longrightarrow> chain_ok (set_slot loc v cs)"
  by (simp add: chain_ok_def set_slot_fields)

lemma chunk_ok_set_slot:
  assumes "\<And>c. c \<in> set cs \<Longrightarrow> chunk_ok c"
  shows "\<forall>c \<in> set (set_slot loc v cs). chunk_ok c"
proof
  fix c assume "c \<in> set (set_slot loc v cs)"
  then obtain i where i: "i < length cs" "c = set_slot loc v cs ! i"
    by (auto simp: in_set_conv_nth)
  then show "chunk_ok c" using assms [of "cs ! i"] by (simp add: chunk_ok_def set_slot_fields)
qed

lemma slot_page_ok:
  assumes "\<And>c. c \<in> set cs \<Longrightarrow> chunk_ok c" and "valid_loc cs loc"
  shows "page_chunk_index (slot_page loc) < length cs \<and> page_index (slot_page loc) < ENTRY_METADATA_PAGES_PER_CHUNK"
proof -
  have "chunk_ok (cs ! chunk_index loc)" using assms by (simp add: valid_loc_def)
  then have "entry_index loc < 255 * 101" using assms(2) by (simp add: valid_loc_def chunk_ok_def page_consts)
  then have "entry_index loc div 101 < 255" by (simp add: div_less_iff_less_mult)
  then show ?thesis using assms(2) by (simp add: slot_page_def valid_loc_def page_consts)
qed

lemma store_entry_metadata_ok:
  assumes inv: "meta_inv m" and room: "0 < free_slot_count m"
  obtains m' loc where "store_entry_metadata e m = Some (m', loc)" and "meta_inv m'"
    and "valid_loc (chunks m) loc" and "slot_at (chunks m) loc = None"
    and "\<And>l. valid_loc (chunks m) l \<Longrightarrow> l < loc \<Longrightarrow> slot_at (chunks m) l \<noteq> None"
    and "slot_at (chunks m') = (slot_at (chunks m))(loc \<mapsto> e)"
    and "free_slot_count m' = free_slot_count m - 1"
    and "chunks m' = set_slot loc (Some e) (chunks m)"
    and "dirty_pages m' = insert (slot_page loc) (dirty_pages m)"
proof -
  note D = meta_inv_D [OF inv]
  let ?s = "free_slot_search_start m"
  have s: "EntryMetadataLocation (chunk_index ?s) (entry_index ?s) = ?s" by simp
  obtain l0 where l0: "valid_loc (chunks m) l0" "slot_at (chunks m) l0 = None"
    using free_slots_pos room D(3) by auto
  have "?s \<le> l0" using D(4) l0 by (meson not_le)
  then have "find_free_slot (chunks m) (chunk_index ?s) (entry_index ?s) \<noteq> None"
    using find_free_slot_None [of "chunks m" "chunk_index ?s" "entry_index ?s" l0] l0 s by auto
  then obtain loc where loc: "find_free_slot (chunks m) (chunk_index ?s) (entry_index ?s) = Some loc" by auto
  from find_free_slot_Some [OF loc] have f: "valid_loc (chunks m) loc" "slot_at (chunks m) loc = None" "?s \<le> loc"
    "\<And>l. valid_loc (chunks m) l \<Longrightarrow> ?s \<le> l \<Longrightarrow> l < loc \<Longrightarrow> slot_at (chunks m) l \<noteq> None"
    by (auto simp: s)
  have least: "slot_at (chunks m) l \<noteq> None" if "valid_loc (chunks m) l" "l < loc" for l
    using f(4) [OF that(1) _ that(2)] D(4) [OF that(1)] by (cases "?s \<le> l") (auto simp: not_le)
  define m' where "m' = mark_page_dirty loc (m\<lparr>chunks := set_slot loc (Some e) (chunks m),
    free_slot_search_start := loc, free_slot_count := free_slot_count m - 1\<rparr>)"
  have m': "chunks m' = set_slot loc (Some e) (chunks m)" "free_slot_count m' = free_slot_count m - 1"
    "free_slot_search_start m' = loc" "dirty_pages m' = insert (slot_page loc) (dirty_pages m)"
    by (simp_all add: m'_def mark_page_dirty_def)
  have cnt: "free_slots (chunks m') = free_slots (chunks m) - 1"
    using free_slots_set_slot [OF f(1), of "Some e"] f(2) m'(1) by simp
  have "meta_inv m'"
    using D(1) D(2,3,5) D(6) least f(1) f(1) [unfolded valid_loc_def] chain_ok_set_slot chunk_ok_set_slot [OF D(1)] slot_page_ok [OF D(1) f(1)] cnt
    unfolding meta_inv_def m' by (auto simp: slot_at_set_slot [OF f(1)] intro: less_imp_le)
  then show ?thesis
    using that [of m' loc] loc f least m' by (simp add: store_entry_metadata_def m'_def slot_at_set_slot)
qed

lemma free_entry_metadata_ok:
  assumes inv: "meta_inv m" and used: "slot_at (chunks m) loc = Some e"
  obtains m' where "free_entry_metadata loc m = Some m'" and "meta_inv m'"
    and "slot_at (chunks m') = (slot_at (chunks m))(loc := None)"
    and "free_slot_count m' = free_slot_count m + 1"
    and "chunks m' = set_slot loc None (chunks m)"
    and "dirty_pages m' = insert (slot_page loc) (dirty_pages m)"
proof -
  note D = meta_inv_D [OF inv]
  have v: "valid_loc (chunks m) loc" using used by (auto simp: slot_at_def split: if_splits)
  define m' where "m' = mark_page_dirty loc (m\<lparr>chunks := set_slot loc None (chunks m),
    free_slot_search_start := min (free_slot_search_start m) loc, free_slot_count := free_slot_count m + 1\<rparr>)"
  have m': "chunks m' = set_slot loc None (chunks m)" "free_slot_count m' = free_slot_count m + 1"
    "free_slot_search_start m' = min (free_slot_search_start m) loc"
    "dirty_pages m' = insert (slot_page loc) (dirty_pages m)"
    by (simp_all add: m'_def mark_page_dirty_def)
  have cnt: "free_slots (chunks m') = free_slots (chunks m) + 1"
    using free_slots_set_slot [OF v, of None] used m'(1) by simp
  have "meta_inv m'"
    using D(1) D(2,3,5) D(6) D(4) D(7) v [unfolded valid_loc_def] chain_ok_set_slot chunk_ok_set_slot [OF D(1)] slot_page_ok [OF D(1) v] cnt
    unfolding meta_inv_def m' by (auto simp: slot_at_set_slot [OF v] min_def intro: less_imp_le)
  moreover have "free_entry_metadata loc m = Some m'"
    using used v by (auto simp: free_entry_metadata_def slot_at_def valid_loc_def m'_def)
  ultimately show ?thesis using that m' by (simp add: slot_at_set_slot [OF v])
qed

subsection \<open>Growing the chain\<close>

definition meta_live :: "metadata_chunks \<Rightarrow> rng multiset" where
  "meta_live m = mset (map (\<lambda>c. chunk_numbers (reserved_chunk c)) (chunks m))"

lemma set_last_chunk_link_fields [simp]:
  "length (chunks (set_last_chunk_link a m)) = length (chunks m)"
  "free_slot_count (set_last_chunk_link a m) = free_slot_count m"
  "free_slot_search_start (set_last_chunk_link a m) = free_slot_search_start m"
  by (simp_all add: set_last_chunk_link_def mark_link_page_dirty_def)

lemma set_last_chunk_link_nth:
  assumes "i < length (chunks m)"
  shows "chunks (set_last_chunk_link a m) ! i =
    (if Suc i = length (chunks m) then (chunks m ! i)\<lparr>next_chunk_address := a\<rparr> else chunks m ! i)"
  using assms by (auto simp: set_last_chunk_link_def mark_link_page_dirty_def last_conv_nth nth_list_update)

lemma set_last_chunk_link_dirty:
  "dirty_pages (set_last_chunk_link a m) =
    (if chunks m = [] then dirty_pages m else insert (link_page (length (chunks m) - 1)) (dirty_pages m))"
  by (simp add: set_last_chunk_link_def mark_link_page_dirty_def)

lemma map_set_last_chunk_link:
  assumes "\<And>c. g (c\<lparr>next_chunk_address := a\<rparr>) = g c"
  shows "map g (chunks (set_last_chunk_link a m)) = map g (chunks m)"
  using assms by (intro nth_equalityI) (auto simp: set_last_chunk_link_nth)

lemma free_slots_cong: "map entries cs = map entries cs' \<Longrightarrow> free_slots cs = free_slots cs'"
  by (simp add: free_slots_def)

lemma slot_at_cong:
  assumes "map entries cs = map entries cs'"
  shows "valid_loc cs = valid_loc cs'" and "slot_at cs = slot_at cs'"
proof -
  have "length cs = length cs'" using assms by (metis length_map)
  moreover have "entries (cs ! i) = entries (cs' ! i)" if "i < length cs" for i
    using assms that by (metis calculation nth_map)
  ultimately show "valid_loc cs = valid_loc cs'" and "slot_at cs = slot_at cs'"
    by (auto simp: valid_loc_def slot_at_def fun_eq_iff)
qed

lemma slot_at_append_unused:
  "slot_at (cs @ [c\<lparr>entries := replicate n None\<rparr>]) = slot_at cs"
proof
  fix l
  show "slot_at (cs @ [c\<lparr>entries := replicate n None\<rparr>]) l = slot_at cs l"
    by (cases "chunk_index l < length cs"; cases "chunk_index l = length cs")
      (auto simp: slot_at_def valid_loc_def nth_append)
qed

lemma ensure_free_slots_ok:
  assumes inv: "meta_inv m" and alloc: "alloc_inv lo hi (meta_live m + live) (snd s)"
    and ens: "ensure_free_slots n s m = Some (s', m')"
  shows "meta_inv m'" and "alloc_inv lo hi (meta_live m' + live) (snd s')"
    and "slot_at (chunks m') = slot_at (chunks m)" and "free_slot_count m \<le> free_slot_count m'"
    and "n \<le> ENTRIES_PER_METADATA_CHUNK \<Longrightarrow> n \<le> free_slot_count m'"
    and "payload_chunks (snd s') = payload_chunks (snd s)"
    and "dirty_pages m \<subseteq> dirty_pages m'"
proof -
  have "meta_inv m' \<and> alloc_inv lo hi (meta_live m' + live) (snd s') \<and> slot_at (chunks m') = slot_at (chunks m)
    \<and> free_slot_count m \<le> free_slot_count m' \<and> (n \<le> ENTRIES_PER_METADATA_CHUNK \<longrightarrow> n \<le> free_slot_count m')
    \<and> payload_chunks (snd s') = payload_chunks (snd s) \<and> dirty_pages m \<subseteq> dirty_pages m'"
  proof (cases "free_slot_count m < n")
    case False
    then show ?thesis using ens inv alloc by (auto simp: ensure_free_slots_def)
  next
    case True
    then obtain r where res: "reserve_chunks 1 s = Some (s', r)"
      using ens by (auto simp: ensure_free_slots_def Let_def split: option.splits)
    define new where "new = \<lparr>reserved_chunk = r, entries = replicate ENTRIES_PER_METADATA_CHUNK None,
      next_chunk_address = NO_CHUNK, needs_full_write = True\<rparr>"
    define m1 where "m1 = set_last_chunk_link (of_nat (fst (disk_byte_range r))) m"
    have m': "chunks m' = chunks m1 @ [new]"
      "dirty_pages m' = insert (link_page (length (chunks m))) (dirty_pages m1)"
      "free_slot_search_start m' = free_slot_search_start m"
      "free_slot_count m' = free_slot_count m + ENTRIES_PER_METADATA_CHUNK"
      using ens True res
      by (auto simp: ensure_free_slots_def Let_def mark_link_page_dirty_def new_def m1_def)
    note D = meta_inv_D [OF inv]
    obtain dm a dm' a' where s: "s = (dm, a)" "s' = (dm', a')" by (cases s; cases s')
    note al = alloc_inv_reserve_chunks [OF alloc [unfolded s snd_conv] res [unfolded s]]
    have ents: "map entries (chunks m1) = map entries (chunks m)"
      and resv: "map (\<lambda>c. chunk_numbers (reserved_chunk c)) (chunks m1)
        = map (\<lambda>c. chunk_numbers (reserved_chunk c)) (chunks m)"
      unfolding m1_def by (rule map_set_last_chunk_link; simp)+
    have lm: "meta_live m' = add_mset (chunk_numbers r) (meta_live m)"
      unfolding meta_live_def m'(1) map_append resv by (simp add: new_def)
    have sl: "slot_at (chunks m') = slot_at (chunks m)"
      unfolding m'(1) using slot_at_append_unused [of "chunks m1" ENTRIES_PER_METADATA_CHUNK new]
        slot_at_cong(2) [OF ents] by (simp add: new_def)
    have fr: "free_slots (chunks m') = free_slots (chunks m) + ENTRIES_PER_METADATA_CHUNK"
      using free_slots_cong [OF ents] by (simp add: m'(1) free_slots_def new_def)
    have ch: "chunk_ok c" if "c \<in> set (chunks m')" for c
    proof -
      have "chunk_ok (chunks m1 ! i)" if "i < length (chunks m)" for i
        using D(1) [of "chunks m ! i"] that by (auto simp: m1_def set_last_chunk_link_nth chunk_ok_def)
      moreover have "chunk_ok new" using al(2) by (simp add: chunk_ok_def new_def)
      ultimately show ?thesis using that by (auto simp: m'(1) in_set_conv_nth m1_def)
    qed
    have chain: "chain_ok (chunks m')"
      unfolding chain_ok_def
    proof (intro allI impI)
      fix i assume i: "i < length (chunks m')"
      consider "Suc i < length (chunks m)" | "Suc i = length (chunks m)" | "i = length (chunks m)"
        using i by (fastforce simp: m'(1) m1_def)
      then show "next_chunk_address (chunks m' ! i) = (if Suc i < length (chunks m')
          then of_nat (fst (disk_byte_range (reserved_chunk (chunks m' ! Suc i)))) else NO_CHUNK)"
        using D(2) by cases
          (auto simp: m'(1) m1_def nth_append set_last_chunk_link_nth chain_ok_def new_def)
    qed
    have start: "slot_at (chunks m') loc \<noteq> None"
      if "valid_loc (chunks m') loc" "loc < free_slot_search_start m'" for loc
    proof -
      have loc: "loc < free_slot_search_start m" using that(2) by (simp add: m'(3))
      then have c: "chunk_index loc < length (chunks m)"
        using D(7) by (auto simp: location_order)
      then have "valid_loc (chunks m1) loc" using that(1) by (simp add: m'(1) valid_loc_def nth_append m1_def)
      then show ?thesis using D(4) [OF _ loc] sl slot_at_cong(1) [OF ents] by simp
    qed
    have dirty: "finite (dirty_pages m')" "\<And>p. p \<in> dirty_pages m' \<Longrightarrow>
        page_chunk_index p < length (chunks m') \<and> page_index p \<le> ENTRY_METADATA_PAGES_PER_CHUNK"
      using D(5) D(6) by (auto simp: m'(1,2) m1_def set_last_chunk_link_dirty link_page_def less_Suc_eq
          split: if_splits)
    have "meta_inv m'"
      unfolding meta_inv_def using ch chain fr D(3) start dirty D(7) by (auto simp: m'(1,3,4) m1_def)
    moreover have "alloc_inv lo hi (meta_live m' + live) (snd s')" using al(1) by (simp add: lm s)
    moreover have "dirty_pages m \<subseteq> dirty_pages m'" by (auto simp: m'(2) m1_def set_last_chunk_link_dirty)
    ultimately show ?thesis using sl m'(4) al(3) by (simp add: s)
  qed
  then show "meta_inv m'" and "alloc_inv lo hi (meta_live m' + live) (snd s')"
    and "slot_at (chunks m') = slot_at (chunks m)" and "free_slot_count m \<le> free_slot_count m'"
    and "n \<le> ENTRIES_PER_METADATA_CHUNK \<Longrightarrow> n \<le> free_slot_count m'"
    and "payload_chunks (snd s') = payload_chunks (snd s)"
    and "dirty_pages m \<subseteq> dirty_pages m'" by blast+
qed

lemma reset_free_slots_inv:
  assumes "\<And>c. c \<in> set (chunks m) \<Longrightarrow> chunk_ok c" and "chain_ok (chunks m)" and "finite (dirty_pages m)"
    and "\<And>p. p \<in> dirty_pages m \<Longrightarrow> page_chunk_index p < length (chunks m)
      \<and> page_index p \<le> ENTRY_METADATA_PAGES_PER_CHUNK"
  shows "meta_inv (reset_free_slots m)"
  using assms by (auto simp: meta_inv_def reset_free_slots_def free_slots_def location_order)

lemma default_metadata_inv: "meta_inv default_metadata_chunks"
  by (simp add: meta_inv_def default_metadata_chunks_def chain_ok_def free_slots_def valid_loc_def)

subsection \<open>The contract of a slot store\<close>

locale slot_store =
  fixes slots :: "'m \<Rightarrow> 'l \<rightharpoonup> 'e"
    and put :: "'e \<Rightarrow> 'm \<Rightarrow> ('m \<times> 'l) option"
    and clear :: "'l \<Rightarrow> 'm \<Rightarrow> 'm option"
    and room :: "'m \<Rightarrow> nat"
    and ok :: "'m \<Rightarrow> bool"
  assumes put_ok: "ok m \<Longrightarrow> 0 < room m \<Longrightarrow> \<exists>m' l. put e m = Some (m', l) \<and> ok m' \<and> slots m l = None
      \<and> slots m' = (slots m)(l \<mapsto> e) \<and> room m' = room m - 1"
    and clear_ok: "ok m \<Longrightarrow> slots m l = Some e \<Longrightarrow> \<exists>m'. clear l m = Some m' \<and> ok m'
      \<and> slots m' = (slots m)(l := None) \<and> room m' = room m + 1"
begin

text \<open>A batch that fits the room is stored without failing, each element in a slot of its own that
  was free before, and nothing else changes.\<close>

fun put_all :: "'e list \<Rightarrow> 'm \<Rightarrow> ('m \<times> 'l list) option" where
  "put_all [] m = Some (m, [])"
| "put_all (e # es) m = (case put e m of
     None \<Rightarrow> None
   | Some (m', l) \<Rightarrow> map_option (\<lambda>(m'', ls). (m'', l # ls)) (put_all es m'))"

lemma put_all_ok:
  assumes "ok m" and "length es \<le> room m"
  shows "\<exists>m' ls. put_all es m = Some (m', ls) \<and> ok m' \<and> length ls = length es \<and> distinct ls
    \<and> (\<forall>l \<in> set ls. slots m l = None) \<and> slots m' = (slots m)(ls [\<mapsto>] es)
    \<and> room m' = room m - length es"
  using assms
proof (induction es arbitrary: m)
  case Nil
  then show ?case by simp
next
  case (Cons e es)
  then obtain m1 l where put: "put e m = Some (m1, l)" "ok m1" "slots m l = None"
    "slots m1 = (slots m)(l \<mapsto> e)" "room m1 = room m - 1" using put_ok [of m e] by auto
  with Cons obtain m' ls where IH: "put_all es m1 = Some (m', ls)" "ok m'" "length ls = length es" "distinct ls"
    "\<forall>l \<in> set ls. slots m1 l = None" "slots m' = (slots m1)(ls [\<mapsto>] es)" "room m' = room m1 - length es"
    by fastforce
  have "l \<notin> set ls" using IH(5) put(4) by auto
  moreover have "\<forall>l' \<in> set ls. slots m l' = None"
    using IH(5) calculation unfolding put(4) by (metis fun_upd_apply)
  ultimately show ?case using put IH by auto
qed

text \<open>Storing and clearing again leaves the map as it was.\<close>

lemma put_clear:
  assumes "ok m" and "0 < room m" and "put e m = Some (m', l)"
  shows "\<exists>m''. clear l m' = Some m'' \<and> slots m'' = slots m \<and> room m'' = room m"
proof -
  have p: "ok m'" "slots m l = None" "slots m' = (slots m)(l \<mapsto> e)" "room m' = room m - 1"
    using put_ok [OF assms(1,2), of e] assms(3) by auto
  then obtain m'' where "clear l m' = Some m''" "slots m'' = (slots m')(l := None)" "room m'' = room m' + 1"
    using clear_ok [of m' l e] by auto
  then show ?thesis using p assms(2) by auto
qed

end

interpretation ms: slot_store "\<lambda>m. slot_at (chunks m)" store_entry_metadata free_entry_metadata
  free_slot_count meta_inv
proof (standard, goal_cases)
  case (1 m e)
  obtain m' loc where "store_entry_metadata e m = Some (m', loc)" "meta_inv m'"
    "slot_at (chunks m) loc = None" "slot_at (chunks m') = (slot_at (chunks m))(loc \<mapsto> e)"
    "free_slot_count m' = free_slot_count m - 1"
    by (rule store_entry_metadata_ok [OF 1, of e]) blast
  then show ?case by auto
next
  case (2 m l e)
  obtain m' where "free_entry_metadata l m = Some m'" "meta_inv m'"
    "slot_at (chunks m') = (slot_at (chunks m))(l := None)" "free_slot_count m' = free_slot_count m + 1"
    by (rule free_entry_metadata_ok [OF 2]) blast
  then show ?case by auto
qed

text \<open>C28: Metadata slots are reused earliest first: with a free slot left, storing an entry takes the
  first free location of the chain, fills exactly that one, marks its page dirty and counts it off.\<close>

theorem store_entry_metadata_earliest:
  assumes "meta_inv m" and "0 < free_slot_count m"
  shows "\<exists>m' loc. store_entry_metadata e m = Some (m', loc) \<and> meta_inv m'
    \<and> valid_loc (chunks m) loc \<and> slot_at (chunks m) loc = None
    \<and> (\<forall>l. valid_loc (chunks m) l \<and> l < loc \<longrightarrow> slot_at (chunks m) l \<noteq> None)
    \<and> slot_at (chunks m') = (slot_at (chunks m))(loc \<mapsto> e)
    \<and> slot_page loc \<in> dirty_pages m' \<and> free_slots (chunks m') = free_slots (chunks m) - 1"
proof -
  obtain m' loc where st: "store_entry_metadata e m = Some (m', loc)" "meta_inv m'" "valid_loc (chunks m) loc"
    "slot_at (chunks m) loc = None" "\<And>l. valid_loc (chunks m) l \<Longrightarrow> l < loc \<Longrightarrow> slot_at (chunks m) l \<noteq> None"
    "slot_at (chunks m') = (slot_at (chunks m))(loc \<mapsto> e)" "free_slot_count m' = free_slot_count m - 1"
    "dirty_pages m' = insert (slot_page loc) (dirty_pages m)"
    by (rule store_entry_metadata_ok [OF assms, of e]) blast
  then show ?thesis using meta_inv_D(3) [OF assms(1)] meta_inv_D(3) [OF st(2)] by auto
qed

definition example_chunk :: metadata_chunk where
  "example_chunk = \<lparr>reserved_chunk = \<lparr>chunk_numbers = (1, 2), recovered = False\<rparr>,
    entries = replicate ENTRIES_PER_METADATA_CHUNK None, next_chunk_address = NO_CHUNK, needs_full_write = True\<rparr>"

definition example_metadata :: metadata_chunks where
  "example_metadata = \<lparr>chunks = [example_chunk], dirty_pages = {link_page 0},
    free_slot_search_start = EntryMetadataLocation 0 0, free_slot_count = ENTRIES_PER_METADATA_CHUNK\<rparr>"

lemma example_metadata_inv: "meta_inv example_metadata"
  by (simp add: meta_inv_def example_metadata_def example_chunk_def chunk_ok_def chain_ok_def chunk_count_def
      free_slots_def location_order link_page_def)

lemma example_metadata_room: "0 < free_slot_count example_metadata"
  unfolding example_metadata_def by (simp add: page_consts)

theorem store_entry_metadata_earliest_witness:
  "\<exists>m' loc. store_entry_metadata \<lparr>key = 7, payload_len = 5, payload_address = 4096, payload_checksum = 9\<rparr>
      example_metadata = Some (m', loc) \<and> meta_inv m'"
  using store_entry_metadata_earliest [OF example_metadata_inv example_metadata_room,
      of "\<lparr>key = 7, payload_len = 5, payload_address = 4096, payload_checksum = 9\<rparr>"]
  by blast

end
