(* ===== verification/Metadata_Disk.thy ===== *)
theory Metadata_Disk
  imports Metadata
begin

text \<open>
  Metadata pages on disk. The first part shows that an encoded metadata page decodes to its slots and
  an encoded link page to its link, through the contract \<open>fixed_codec\<close> of records of one size. The
  second part is about the metadata writer of \<open>feuer-storage/src/disk_cache/metadata.rs\<close>: the effect
  of a successful round on the file, and that a chunk is written before any page of an earlier one.
\<close>

subsection \<open>Records of a fixed size\<close>

locale fixed_codec =
  fixes enc :: "'a \<Rightarrow> byte list"
    and dec :: "byte list \<Rightarrow> 'a"
    and size :: nat
    and ok :: "'a \<Rightarrow> bool"
  assumes size_pos: "0 < size"
    and length_enc: "length (enc x) = size"
    and dec_enc: "ok x \<Longrightarrow> dec (enc x) = x"
begin

lemma length_concat_enc: "length (concat (map enc xs)) = length xs * size"
  by (induction xs) (auto simp: length_enc)

lemma decode_all:
  assumes "\<And>x. x \<in> set xs \<Longrightarrow> ok x"
  shows "map dec (chunks_exact size (concat (map enc xs))) = xs"
proof -
  have "chunks_exact size (concat (map enc xs)) = map enc xs"
    by (rule chunks_exact_concat) (auto simp: size_pos length_enc)
  then show ?thesis using assms by (simp add: map_idI dec_enc)
qed

text \<open>Padding after the records does not disturb them.\<close>

lemma decode_padded:
  assumes "\<And>x. x \<in> set xs \<Longrightarrow> ok x"
  shows "map dec (chunks_exact size (take (length xs * size) (concat (map enc xs) @ pad))) = xs"
  using decode_all [OF assms] by (simp add: length_concat_enc)

end

definition slot_ok :: "entry_metadata option \<Rightarrow> bool" where
  "slot_ok slot \<longleftrightarrow> (case slot of Some e \<Rightarrow> payload_address e \<noteq> 0 | None \<Rightarrow> True)"

interpretation ec: fixed_codec "encode_slot (replicate ENTRY_METADATA_BYTES 0)" decode_entry_metadata
  ENTRY_METADATA_BYTES slot_ok
proof (standard, goal_cases)
  case 1 then show ?case by (simp add: page_consts)
next
  case (2 x) then show ?case
    using encode_entry_slices(1) [of "replicate 40 0"] by (cases x) (auto simp: encode_slot_def page_consts)
next
  case (3 x)
  show ?case
  proof (cases x)
    case None
    then show ?thesis by (simp add: encode_slot_def decode_unused)
  next
    case (Some e)
    then show ?thesis using 3 decode_encode_entry [of "replicate ENTRY_METADATA_BYTES 0" e]
      by (simp add: encode_slot_def slot_ok_def)
  qed
qed

subsection \<open>Pages of a chunk\<close>

definition page_bytes :: "(byte list \<Rightarrow> u64) \<Rightarrow> metadata_chunk \<Rightarrow> nat \<Rightarrow> byte list" where
  "page_bytes xxh c i = the (encode_chunk_page xxh c i (replicate METADATA_PAGE_BYTES 0))"

definition page_slots :: "metadata_chunk \<Rightarrow> nat \<Rightarrow> entry_metadata option list" where
  "page_slots c i = take ENTRIES_PER_METADATA_PAGE (drop (i * ENTRIES_PER_METADATA_PAGE) (entries c))"

lemma concat_replicate_replicate: "concat (replicate m (replicate n x)) = replicate (m * n) x"
  by (induction m) (simp_all add: replicate_add)

lemma content_bytes: "PAGE_CONTENT_BYTES = ENTRIES_PER_METADATA_PAGE * ENTRY_METADATA_BYTES"
  by (simp add: page_consts)

lemma entry_page_contents_eq:
  assumes "length slots = ENTRIES_PER_METADATA_PAGE"
  shows "entry_page_contents slots = concat (map (encode_slot (replicate ENTRY_METADATA_BYTES 0)) slots)"
proof -
  let ?z = "replicate ENTRY_METADATA_BYTES (0 :: byte)"
  have "chunks_exact ENTRY_METADATA_BYTES (replicate PAGE_CONTENT_BYTES (0 :: byte))
      = replicate ENTRIES_PER_METADATA_PAGE ?z"
    unfolding content_bytes concat_replicate_replicate [symmetric]
    by (rule chunks_exact_concat) (auto simp: ec.size_pos)
  then show ?thesis using assms by (simp add: entry_page_contents_def zip_replicate1 comp_def)
qed

lemma length_page_slots:
  assumes "chunk_ok c" and "i < ENTRY_METADATA_PAGES_PER_CHUNK"
  shows "length (page_slots c i) = ENTRIES_PER_METADATA_PAGE"
  using assms by (simp add: page_slots_def chunk_ok_def page_consts)

lemma page_bytes_Some:
  assumes "chunk_ok c" and "i \<le> ENTRY_METADATA_PAGES_PER_CHUNK"
  shows "encode_chunk_page xxh c i (replicate METADATA_PAGE_BYTES 0) = Some (page_bytes xxh c i)"
proof -
  have "encode_chunk_page xxh c i (replicate METADATA_PAGE_BYTES 0) \<noteq> None"
  proof (cases "i = ENTRY_METADATA_PAGES_PER_CHUNK")
    case True
    then show ?thesis unfolding encode_chunk_page_def
      by (simp only: encode_page_Some_iff if_True refl) (simp add: page_consts)
  next
    case False
    then have i: "i < ENTRY_METADATA_PAGES_PER_CHUNK" using assms(2) by simp
    have "length (entry_page_contents (page_slots c i)) = PAGE_CONTENT_BYTES"
      by (simp add: entry_page_contents_eq length_page_slots [OF assms(1) i] ec.length_concat_enc content_bytes)
    then show ?thesis using False unfolding encode_chunk_page_def page_slots_def
      by (simp only: encode_page_Some_iff if_False) (simp add: page_consts)
  qed
  then show ?thesis by (auto simp: page_bytes_def)
qed

lemma length_page_bytes:
  assumes "chunk_ok c" and "i \<le> ENTRY_METADATA_PAGES_PER_CHUNK"
  shows "length (page_bytes xxh c i) = METADATA_PAGE_BYTES"
  using page_bytes_Some [OF assms, of xxh] encode_page_shape(1)
  by (auto simp: encode_chunk_page_def split: if_splits)

text \<open>A written page has its tag, so a written chunk is not all zeros.\<close>

lemma page_bytes_nonzero:
  assumes "chunk_ok c" and "i \<le> ENTRY_METADATA_PAGES_PER_CHUNK"
  shows "\<exists>b \<in> set (page_bytes xxh c i). b \<noteq> 0"
proof -
  obtain tag n contents where enc: "encode_page xxh (replicate METADATA_PAGE_BYTES 0) tag n contents
      = Some (page_bytes xxh c i)" and tag: "tag = ENTRY_METADATA_PAGE_TAG \<or> tag = NEXT_CHUNK_PAGE_TAG"
    using page_bytes_Some [OF assms, of xxh] by (auto simp: encode_chunk_page_def split: if_splits)
  have "length tag = 8" and "70 \<in> set tag"
    using tag by (auto simp: ENTRY_METADATA_PAGE_TAG_def NEXT_CHUNK_PAGE_TAG_def)
  then have "70 \<in> set (slice 24 32 (page_bytes xxh c i))" using encode_page_shape(2) [OF enc] by simp
  then have "70 \<in> set (page_bytes xxh c i)" unfolding slice_def by (meson in_set_dropD in_set_takeD)
  then show ?thesis by (intro bexI [of _ 70]) auto
qed

lemma decode_entry_page_bytes:
  assumes "chunk_ok c" and "i < ENTRY_METADATA_PAGES_PER_CHUNK" and "\<And>slot. slot \<in> set (entries c) \<Longrightarrow> slot_ok slot"
  shows "decode_entry_page xxh (page_bytes xxh c i) = page_slots c i"
proof -
  let ?slots = "page_slots c i"
  let ?contents = "concat (map (encode_slot (replicate ENTRY_METADATA_BYTES 0)) ?slots)"
  note len = length_page_slots [OF assms(1,2)]
  have "encode_page xxh (replicate METADATA_PAGE_BYTES 0) ENTRY_METADATA_PAGE_TAG
      (of_nat ENTRIES_PER_METADATA_PAGE) ?contents = Some (page_bytes xxh c i)"
    using page_bytes_Some [OF assms(1), of i xxh] assms(2) entry_page_contents_eq [OF len]
    by (simp add: encode_chunk_page_def page_slots_def)
  from validate_encode_page [OF this] obtain pad where
    v: "validate_page xxh (page_bytes xxh c i) ENTRY_METADATA_PAGE_TAG = Some (?contents @ pad)" by auto
  have "slot_ok slot" if "slot \<in> set ?slots" for slot
    using that assms(3) by (auto simp: page_slots_def dest: in_set_takeD in_set_dropD)
  from ec.decode_padded [of ?slots pad, OF this] show ?thesis
    using v by (simp add: decode_entry_page_def content_bytes len)
qed

lemma decode_link_page_bytes:
  assumes "chunk_ok c"
  shows "map_option (\<lambda>contents. read_u64 contents 0)
    (validate_page xxh (page_bytes xxh c ENTRY_METADATA_PAGES_PER_CHUNK) NEXT_CHUNK_PAGE_TAG)
    = Some (next_chunk_address c)"
proof -
  have "encode_page xxh (replicate METADATA_PAGE_BYTES 0) NEXT_CHUNK_PAGE_TAG 1
      (u64_to_le_bytes (next_chunk_address c)) = Some (page_bytes xxh c ENTRY_METADATA_PAGES_PER_CHUNK)"
    using page_bytes_Some [OF assms, of ENTRY_METADATA_PAGES_PER_CHUNK xxh] by (simp add: encode_chunk_page_def)
  from validate_encode_page [OF this] show ?thesis by (simp add: read_u64_def slice_def)
qed

text \<open>The slots of the pages, in order, are the slots of the chunk.\<close>

lemma concat_page_slots:
  assumes "chunk_ok c"
  shows "concat (map (page_slots c) [0..<ENTRY_METADATA_PAGES_PER_CHUNK]) = entries c"
proof -
  have "concat (map (\<lambda>i. take n (drop (i * n) xs)) [0..<k]) = take (k * n) xs" for n k :: nat and xs :: "'a list"
  proof (induction k)
    case (Suc k)
    have "take (k * n) xs @ take n (drop (k * n) xs) = take (k * n + n) xs" by (simp add: take_add)
    then show ?case using Suc by (simp add: add.commute)
  qed simp
  from this [of ENTRIES_PER_METADATA_PAGE "entries c"] show ?thesis
    using assms by (simp add: page_slots_def [abs_def] chunk_ok_def ENTRIES_PER_METADATA_CHUNK_def)
qed

subsection \<open>The effect of a write round\<close>

definition page_addr :: "metadata_chunk \<Rightarrow> nat \<Rightarrow> nat" where
  "page_addr c i = fst (disk_byte_range (reserved_chunk c)) + i * METADATA_PAGE_BYTES"

definition page_on_disk :: "(byte list \<Rightarrow> u64) \<Rightarrow> image \<Rightarrow> metadata_chunk \<Rightarrow> nat \<Rightarrow> bool" where
  "page_on_disk xxh im c i \<longleftrightarrow> disk_read (page_addr c i) METADATA_PAGE_BYTES im = page_bytes xxh c i"

text \<open>The chunks of a chain lie in different places.\<close>

definition chunks_apart :: "metadata_chunk list \<Rightarrow> bool" where
  "chunks_apart cs \<longleftrightarrow> distinct (map (\<lambda>c. fst (chunk_numbers (reserved_chunk c))) cs)"

text \<open>The pages a selected location writes.\<close>

definition covers :: "metadata_chunk list \<Rightarrow> metadata_page_location \<Rightarrow> nat \<Rightarrow> nat \<Rightarrow> bool" where
  "covers cs loc c i \<longleftrightarrow> page_chunk_index loc = c \<and> (needs_full_write (cs ! c) \<or> page_index loc = i)"

definition page_no :: "metadata_chunk \<Rightarrow> nat \<Rightarrow> nat" where
  "page_no c i = fst (chunk_numbers (reserved_chunk c)) * 256 + i"

lemma page_addr_page_no: "page_addr c i = page_no c i * METADATA_PAGE_BYTES"
  by (simp add: page_addr_def page_no_def disk_byte_range_def page_consts)

lemma page_no_inject:
  assumes "chunks_apart cs" and "c < length cs" "d < length cs" "i < 256" "j < 256"
    and "page_no (cs ! c) i = page_no (cs ! d) j"
  shows "c = d \<and> i = j"
proof -
  let ?k = "\<lambda>c. fst (chunk_numbers (reserved_chunk (cs ! c)))"
  have eq: "?k c * 256 + i = ?k d * 256 + j" using assms(6) by (simp add: page_no_def)
  then have "(?k c * 256 + i) div 256 = (?k d * 256 + j) div 256" by simp
  then have "?k c = ?k d" using assms(4,5) by simp
  moreover from this have "c = d" using assms(1-3) nth_eq_iff_index_eq [of "map (\<lambda>c. fst (chunk_numbers (reserved_chunk c))) cs" c d]
    by (simp add: chunks_apart_def)
  ultimately show ?thesis using eq by simp
qed

lemma read_page_after_pages:
  assumes "\<forall>p \<in> set ps. length p = METADATA_PAGE_BYTES"
  shows "disk_read (h * METADATA_PAGE_BYTES) METADATA_PAGE_BYTES (disk_write (g * METADATA_PAGE_BYTES) (concat ps) im)
    = (if g \<le> h \<and> h < g + length ps then ps ! (h - g)
       else disk_read (h * METADATA_PAGE_BYTES) METADATA_PAGE_BYTES im)"
proof -
  let ?P = METADATA_PAGE_BYTES
  have len: "length (concat ps) = length ps * ?P" by (rule length_concat_uniform [OF assms])
  show ?thesis
  proof (cases "g \<le> h \<and> h < g + length ps")
    case True
    then have h: "h = g + (h - g)" "h - g < length ps" by auto
    have off: "h * ?P - g * ?P = (h - g) * ?P" by (simp add: diff_mult_distrib)
    have "Suc (h - g) * ?P \<le> length ps * ?P" using h(2) by (intro mult_le_mono1) simp
    then have "h * ?P + ?P \<le> g * ?P + length (concat ps)"
      unfolding len using True by (simp add: diff_mult_distrib)
    then have "disk_read (h * ?P) ?P (disk_write (g * ?P) (concat ps) im)
        = slice ((h - g) * ?P) ((h - g) * ?P + ?P) (concat ps)"
      using img.rd_wr_inside [of "g * ?P" "h * ?P" ?P "concat ps" im] True off by simp
    then show ?thesis using True slice_concat_uniform [OF assms h(2)] by simp
  next
    case False
    then consider "Suc h \<le> g" | "g + length ps \<le> h" by linarith
    then have "h * ?P + ?P \<le> g * ?P \<or> g * ?P + length (concat ps) \<le> h * ?P"
    proof cases
      case 1
      then have "Suc h * ?P \<le> g * ?P" by (rule mult_le_mono1)
      then show ?thesis by simp
    next
      case 2
      then have "(g + length ps) * ?P \<le> h * ?P" by (rule mult_le_mono1)
      then show ?thesis by (simp only: len add_mult_distrib simp_thms)
    qed
    from img.rd_wr_disjoint [OF this] show ?thesis unfolding if_not_P [OF False] .
  qed
qed

text \<open>One planned write, in terms of pages.\<close>

lemma encode_metadata_write_pages:
  assumes ok: "\<And>c. c \<in> set cs \<Longrightarrow> chunk_ok c" and loc: "page_chunk_index loc < length cs"
    "page_index loc \<le> ENTRY_METADATA_PAGES_PER_CHUNK"
  obtains first n where
    "encode_metadata_write xxh cs loc = Some (page_chunk_index loc,
       page_no (cs ! page_chunk_index loc) first * METADATA_PAGE_BYTES,
       concat (map (page_bytes xxh (cs ! page_chunk_index loc)) [first..<first + n]))"
    and "first + n \<le> 256" and "0 < n"
    and "\<forall>i < 256. covers cs loc (page_chunk_index loc) i \<longleftrightarrow> first \<le> i \<and> i < first + n"
    and "needs_full_write (cs ! page_chunk_index loc) \<longleftrightarrow> n = 256"
proof -
  let ?c = "cs ! page_chunk_index loc"
  define first n where "first = (if needs_full_write ?c then 0 else page_index loc)"
    and "n = (if needs_full_write ?c then ENTRY_METADATA_PAGES_PER_CHUNK + 1 else 1)"
  have c: "chunk_ok ?c" using ok loc by simp
  have bound: "first + n \<le> 256" using loc(2) by (simp add: first_def n_def page_consts)
  have pages: "encode_chunk_page xxh ?c i (replicate METADATA_PAGE_BYTES 0) = Some (page_bytes xxh ?c i)"
    if "i < first + n" for i
    using page_bytes_Some [OF c, of i xxh] that bound by (simp add: page_consts)
  have "map (\<lambda>i. encode_chunk_page xxh ?c i (replicate METADATA_PAGE_BYTES 0)) [first..<first + n]
      = map Some (map (page_bytes xxh ?c) [first..<first + n])"
    using pages by simp
  moreover have "(if needs_full_write ?c then (0, ENTRY_METADATA_PAGES_PER_CHUNK + 1) else (page_index loc, 1))
      = (first, n)" by (simp add: first_def n_def)
  ultimately have enc: "encode_metadata_write xxh cs loc = Some (page_chunk_index loc,
      page_no ?c first * METADATA_PAGE_BYTES, concat (map (page_bytes xxh ?c) [first..<first + n]))"
    unfolding encode_metadata_write_def Let_def page_addr_page_no [symmetric]
    by (simp add: list_all_iff page_addr_def comp_def) (simp add: page_bytes_def [abs_def])
  have "0 < n" and "needs_full_write ?c \<longleftrightarrow> n = 256" by (simp_all add: n_def page_consts)
  moreover have "covers cs loc (page_chunk_index loc) i \<longleftrightarrow> first \<le> i \<and> i < first + n" if "i < 256" for i
    using that by (auto simp: first_def n_def covers_def page_consts)
  ultimately show ?thesis using that [OF enc bound] by blast
qed

text \<open>A successful write of a planned location puts exactly the covered pages on disk.\<close>

lemma write_location_effect:
  assumes ok: "\<And>c. c \<in> set cs \<Longrightarrow> chunk_ok c" and apart: "chunks_apart cs"
    and loc: "page_chunk_index loc < length cs" "page_index loc \<le> ENTRY_METADATA_PAGES_PER_CHUNK"
    and enc: "encode_metadata_write xxh cs loc = Some (k, address, bytes)"
    and wr: "write_at oc address bytes f = Some (f', Inr ())"
    and ci: "c < length cs" "i < 256"
  shows "disk_read (page_addr (cs ! c) i) METADATA_PAGE_BYTES (image f') =
    (if covers cs loc c i then page_bytes xxh (cs ! c) i
     else disk_read (page_addr (cs ! c) i) METADATA_PAGE_BYTES (image f))"
proof -
  let ?k = "page_chunk_index loc"
  obtain first n where e: "encode_metadata_write xxh cs loc = Some (?k, page_no (cs ! ?k) first * METADATA_PAGE_BYTES,
      concat (map (page_bytes xxh (cs ! ?k)) [first..<first + n]))" "first + n \<le> 256" "0 < n"
    and cov: "\<forall>i < 256. covers cs loc ?k i \<longleftrightarrow> first \<le> i \<and> i < first + n"
    by (rule encode_metadata_write_pages [OF ok loc, of xxh]) blast
  define ps where "ps = map (page_bytes xxh (cs ! ?k)) [first..<first + n]"
  have ps: "\<forall>p \<in> set ps. length p = METADATA_PAGE_BYTES" and lps: "length ps = n"
    using length_page_bytes [OF ok [OF nth_mem [OF loc(1)]]] e(2) by (auto simp: ps_def page_consts)
  have a: "address = page_no (cs ! ?k) first * METADATA_PAGE_BYTES" "bytes = concat ps"
    using enc e(1) by (auto simp: ps_def)
  have "image f' = disk_write address bytes (image f)"
    using wr write_padded_ok(1) [of oc address "length bytes" bytes f f'] by (simp add: write_at_def split: if_splits)
  then have rd: "disk_read (page_addr (cs ! c) i) METADATA_PAGE_BYTES (image f') =
      (if page_no (cs ! ?k) first \<le> page_no (cs ! c) i \<and> page_no (cs ! c) i < page_no (cs ! ?k) first + n
       then ps ! (page_no (cs ! c) i - page_no (cs ! ?k) first)
       else disk_read (page_addr (cs ! c) i) METADATA_PAGE_BYTES (image f))"
    using read_page_after_pages [OF ps] by (simp add: a page_addr_page_no lps)
  show ?thesis
  proof (cases "c = ?k")
    case True
    then show ?thesis using rd cov ci(2) by (auto simp: page_no_def ps_def)
  next
    case False
    have "\<not> (page_no (cs ! ?k) first \<le> page_no (cs ! c) i \<and> page_no (cs ! c) i < page_no (cs ! ?k) first + n)"
    proof
      assume r: "page_no (cs ! ?k) first \<le> page_no (cs ! c) i \<and> page_no (cs ! c) i < page_no (cs ! ?k) first + n"
      define j where "j = first + (page_no (cs ! c) i - page_no (cs ! ?k) first)"
      have "j < 256" and "page_no (cs ! c) i = page_no (cs ! ?k) j"
        using r e(2) by (auto simp: j_def page_no_def)
      then show False using page_no_inject [OF apart ci(1) loc(1) ci(2)] False by blast
    qed
    then show ?thesis using rd False by (auto simp: covers_def)
  qed
qed

definition initialize_chunk :: "metadata_chunk list \<Rightarrow> nat set \<Rightarrow> metadata_chunk list" where
  "initialize_chunk cs ks = map (\<lambda>i. if i \<in> ks then (cs ! i)\<lparr>needs_full_write := False\<rparr> else cs ! i) [0..<length cs]"

lemma initialize_chunk_insert:
  assumes "k < length cs"
  shows "(initialize_chunk cs ks)[k := (initialize_chunk cs ks ! k)\<lparr>needs_full_write := False\<rparr>]
    = initialize_chunk cs (insert k ks)"
  using assms by (intro nth_equalityI) (auto simp: initialize_chunk_def nth_list_update)

lemma initialize_chunk_none: "initialize_chunk cs {} = cs"
  by (simp add: initialize_chunk_def map_nth)

text \<open>A successful sequence of planned writes: every covered page is on disk, every other page is
  unchanged, and exactly the fully written chunks are initialized.\<close>

lemma perform_writes_effect:
  assumes ok: "\<And>c. c \<in> set cs \<Longrightarrow> chunk_ok c" and apart: "chunks_apart cs"
    and locs: "\<And>l. l \<in> set ls \<Longrightarrow> page_chunk_index l < length cs \<and> page_index l \<le> ENTRY_METADATA_PAGES_PER_CHUNK"
    and perf: "perform_metadata_writes ocs (map (\<lambda>l. the (encode_metadata_write xxh cs l)) ls) (f, m)
      = Some (f', m', Inr ())"
    and ms: "chunks m = initialize_chunk cs ks"
  shows "(\<forall>c < length cs. \<forall>i < 256. disk_read (page_addr (cs ! c) i) METADATA_PAGE_BYTES (image f') =
      (if \<exists>l \<in> set ls. covers cs l c i then page_bytes xxh (cs ! c) i
       else disk_read (page_addr (cs ! c) i) METADATA_PAGE_BYTES (image f)))
    \<and> capacity f' = capacity f
    \<and> m' = m\<lparr>chunks := initialize_chunk cs
        (ks \<union> {page_chunk_index l | l. l \<in> set ls \<and> needs_full_write (cs ! page_chunk_index l)})\<rparr>"
  using locs perf ms
proof (induction ls arbitrary: ocs f m ks)
  case Nil
  then show ?case by (simp add: metadata_chunks.surjective)
next
  case (Cons l ls)
  let ?k = "page_chunk_index l"
  have l: "?k < length cs" "page_index l \<le> ENTRY_METADATA_PAGES_PER_CHUNK" using Cons.prems(1) by auto
  obtain first n where e: "encode_metadata_write xxh cs l = Some (?k, page_no (cs ! ?k) first * METADATA_PAGE_BYTES,
      concat (map (page_bytes xxh (cs ! ?k)) [first..<first + n]))" "first + n \<le> 256"
      "needs_full_write (cs ! ?k) \<longleftrightarrow> n = 256"
    by (rule encode_metadata_write_pages [OF ok l, of xxh]) blast
  define address bytes where "address = page_no (cs ! ?k) first * METADATA_PAGE_BYTES"
    and "bytes = concat (map (page_bytes xxh (cs ! ?k)) [first..<first + n])"
  have enc: "encode_metadata_write xxh cs l = Some (?k, address, bytes)"
    using e(1) by (simp add: address_def bytes_def)
  obtain f1 where wr: "write_at (ocs 0) address bytes f = Some (f1, Inr ())"
    and rest: "perform_metadata_writes (\<lambda>n. ocs (Suc n)) (map (\<lambda>l. the (encode_metadata_write xxh cs l)) ls)
      (f1, finish_metadata_write ?k bytes m) = Some (f', m', Inr ())"
    using Cons.prems(2) by (auto simp: enc split: option.splits sum.splits prod.splits)
  have lb: "length bytes = n * METADATA_PAGE_BYTES"
    using length_concat_uniform [of "map (page_bytes xxh (cs ! ?k)) [first..<first + n]" METADATA_PAGE_BYTES]
      length_page_bytes [OF ok [OF nth_mem [OF l(1)]]] e(2) by (auto simp: bytes_def page_consts)
  define ks1 where "ks1 = (if needs_full_write (cs ! ?k) then insert ?k ks else ks)"
  have m1: "finish_metadata_write ?k bytes m = m\<lparr>chunks := initialize_chunk cs ks1\<rparr>"
    using Cons.prems(3) initialize_chunk_insert [OF l(1), of ks] lb e(3)
    by (auto simp: finish_metadata_write_def ks1_def page_consts)
  have cap: "capacity f1 = capacity f"
    using wr write_padded_ok(2) by (auto simp: write_at_def split: if_splits)
  have IH: "\<forall>c < length cs. \<forall>i < 256. disk_read (page_addr (cs ! c) i) METADATA_PAGE_BYTES (image f') =
      (if \<exists>l \<in> set ls. covers cs l c i then page_bytes xxh (cs ! c) i
       else disk_read (page_addr (cs ! c) i) METADATA_PAGE_BYTES (image f1))"
    "capacity f' = capacity f1"
    "m' = (finish_metadata_write ?k bytes m)\<lparr>chunks := initialize_chunk cs
      (ks1 \<union> {page_chunk_index l | l. l \<in> set ls \<and> needs_full_write (cs ! page_chunk_index l)})\<rparr>"
    using Cons.IH [OF _ rest, of ks1] Cons.prems(1) m1 by auto
  have "ks1 \<union> {page_chunk_index l | l. l \<in> set ls \<and> needs_full_write (cs ! page_chunk_index l)}
    = ks \<union> {page_chunk_index l' | l'. l' \<in> set (l # ls) \<and> needs_full_write (cs ! page_chunk_index l')}"
    by (auto simp: ks1_def)
  then show ?case
    using IH cap write_location_effect [OF ok apart l enc wr] by (auto simp: m1)
qed

definition selected_locations :: "metadata_chunks \<Rightarrow> metadata_page_location list" where
  "selected_locations m = filter (\<lambda>loc. \<not> (needs_full_write (chunks m ! page_chunk_index loc)
    \<and> page_index loc \<noteq> ENTRY_METADATA_PAGES_PER_CHUNK)) (rev (sorted_list_of_set (dirty_after_marking m)))"

lemma dirty_after_marking_ok:
  assumes "meta_inv m"
  shows "finite (dirty_after_marking m)"
    and "l \<in> dirty_after_marking m \<Longrightarrow>
      page_chunk_index l < length (chunks m) \<and> page_index l \<le> ENTRY_METADATA_PAGES_PER_CHUNK"
  using meta_inv_D(5,6) [OF assms] by (auto simp: dirty_after_marking_def link_page_def split: if_splits)

lemma selected_locations_ok:
  assumes "meta_inv m" and "l \<in> set (selected_locations m)"
  shows "page_chunk_index l < length (chunks m) \<and> page_index l \<le> ENTRY_METADATA_PAGES_PER_CHUNK"
  using assms dirty_after_marking_ok [OF assms(1)] by (simp add: selected_locations_def)

lemma link_page_selected:
  assumes "meta_inv m" and "dirty_pages m \<noteq> {}" and "c < length (chunks m)" and "needs_full_write (chunks m ! c)"
  shows "link_page c \<in> set (selected_locations m)"
  using assms dirty_after_marking_ok(1) [OF assms(1)]
  by (simp add: selected_locations_def dirty_after_marking_def link_page_def)

lemma covers_link_page: "needs_full_write (cs ! c) \<Longrightarrow> covers cs (link_page c) c i"
  by (simp add: covers_def link_page_def)

lemma dirty_page_covered:
  assumes "meta_inv m" and "MetadataPageLocation c i \<in> dirty_pages m"
  shows "\<exists>l \<in> set (selected_locations m). covers (chunks m) l c i"
proof (cases "needs_full_write (chunks m ! c)")
  case True
  have "c < length (chunks m)" using meta_inv_D(6) [OF assms] by simp
  then have "link_page c \<in> set (selected_locations m)" using link_page_selected [OF assms(1)] assms(2) True by blast
  then show ?thesis using covers_link_page [OF True] by blast
next
  case False
  then have "MetadataPageLocation c i \<in> set (selected_locations m)"
    using assms dirty_after_marking_ok(1) [OF assms(1)] by (auto simp: selected_locations_def dirty_after_marking_def)
  moreover have "covers (chunks m) (MetadataPageLocation c i) c i" by (simp add: covers_def)
  ultimately show ?thesis by blast
qed

lemma take_metadata_writes_eq:
  assumes "meta_inv m"
  shows "take_metadata_writes xxh m = (m\<lparr>dirty_pages := {}\<rparr>,
    Some (map (\<lambda>l. the (encode_metadata_write xxh (chunks m) l)) (selected_locations m)))"
proof -
  have "encode_metadata_write xxh (chunks m) l \<noteq> None" if "l \<in> set (selected_locations m)" for l
    using encode_metadata_write_pages [OF meta_inv_D(1) [OF assms], of "chunks m" l xxh]
      selected_locations_ok [OF assms that] by (metis meta_inv_D(1) [OF assms] encode_metadata_write_pages option.distinct(1))
  then show ?thesis
    by (simp add: take_metadata_writes_def Let_def selected_locations_def list_all_iff comp_def)
qed

lemma encode_selected:
  assumes "meta_inv m" and "l \<in> set (selected_locations m)"
  shows "\<exists>first n. encode_metadata_write xxh (chunks m) l = Some (page_chunk_index l,
       page_no (chunks m ! page_chunk_index l) first * METADATA_PAGE_BYTES,
       concat (map (page_bytes xxh (chunks m ! page_chunk_index l)) [first..<first + n])) \<and> first + n \<le> 256"
proof -
  note ok = selected_locations_ok [OF assms]
  show ?thesis
    by (rule encode_metadata_write_pages [OF meta_inv_D(1) [OF assms(1)] conjunct1 [OF ok] conjunct2 [OF ok], of xxh])
      (assumption, intro exI conjI, assumption+)
qed

text \<open>The metadata and the file agree on every page that is neither dirty nor still uninitialized.\<close>

definition meta_on_disk :: "(byte list \<Rightarrow> u64) \<Rightarrow> image \<Rightarrow> metadata_chunks \<Rightarrow> bool" where
  "meta_on_disk xxh im m \<longleftrightarrow> (\<forall>c < length (chunks m). \<forall>i < 256.
    \<not> needs_full_write (chunks m ! c) \<longrightarrow> MetadataPageLocation c i \<notin> dirty_pages m \<longrightarrow> page_on_disk xxh im (chunks m ! c) i)"

lemma page_bytes_cong:
  "entries c = entries c' \<Longrightarrow> next_chunk_address c = next_chunk_address c' \<Longrightarrow> page_bytes xxh c = page_bytes xxh c'"
  by (simp add: page_bytes_def encode_chunk_page_def fun_eq_iff)

lemma page_on_disk_flag [simp]: "page_on_disk xxh im (c\<lparr>needs_full_write := b\<rparr>) = page_on_disk xxh im c"
  using page_bytes_cong [of "c\<lparr>needs_full_write := b\<rparr>" c xxh]
  by (simp add: page_on_disk_def page_addr_def fun_eq_iff)

lemma write_dirty_effect:
  assumes inv: "meta_inv m" and apart: "chunks_apart (chunks m)" and disk: "meta_on_disk xxh (image f) m"
    and dirty: "dirty_pages m \<noteq> {}" and wr: "write_dirty_metadata_pages xxh ocs (f, m) = Some (f', m', Inr ())"
  shows "m' = m\<lparr>dirty_pages := {}, chunks := map (\<lambda>c. c\<lparr>needs_full_write := False\<rparr>) (chunks m)\<rparr>"
    and "\<forall>c < length (chunks m). \<forall>i < 256. page_on_disk xxh (image f') (chunks m' ! c) i"
    and "capacity f' = capacity f"
proof -
  let ?cs = "chunks m" and ?ls = "selected_locations m"
  let ?ks = "{page_chunk_index l | l. l \<in> set ?ls \<and> needs_full_write (?cs ! page_chunk_index l)}"
  have perf: "perform_metadata_writes ocs (map (\<lambda>l. the (encode_metadata_write xxh ?cs l)) ?ls)
      (f, m\<lparr>dirty_pages := {}\<rparr>) = Some (f', m', Inr ())"
    using wr by (simp add: write_dirty_metadata_pages_def take_metadata_writes_eq [OF inv])
  note eff = perform_writes_effect [OF meta_inv_D(1) [OF inv] apart selected_locations_ok [OF inv] perf, of "{}"]
  have eff': "\<And>c i. c < length ?cs \<Longrightarrow> i < 256 \<Longrightarrow> disk_read (page_addr (?cs ! c) i) METADATA_PAGE_BYTES (image f') =
      (if \<exists>l \<in> set ?ls. covers ?cs l c i then page_bytes xxh (?cs ! c) i
       else disk_read (page_addr (?cs ! c) i) METADATA_PAGE_BYTES (image f))"
    "capacity f' = capacity f" "m' = m\<lparr>dirty_pages := {}, chunks := initialize_chunk ?cs ?ks\<rparr>"
    using eff by (auto simp: initialize_chunk_none)
  have "initialize_chunk ?cs ?ks ! c = (?cs ! c)\<lparr>needs_full_write := False\<rparr>" if c: "c < length ?cs" for c
  proof (cases "needs_full_write (?cs ! c)")
    case True
    then have "c \<in> ?ks" using link_page_selected [OF inv dirty c] by (force simp: link_page_def)
    then show ?thesis using c by (simp add: initialize_chunk_def)
  next
    case False
    then have "c \<notin> ?ks" by auto
    then show ?thesis using c False by (simp add: initialize_chunk_def)
  qed
  then have init: "initialize_chunk ?cs ?ks = map (\<lambda>c. c\<lparr>needs_full_write := False\<rparr>) ?cs"
    by (intro nth_equalityI) (auto simp: initialize_chunk_def)
  then show m': "m' = m\<lparr>dirty_pages := {}, chunks := map (\<lambda>c. c\<lparr>needs_full_write := False\<rparr>) (chunks m)\<rparr>"
    using eff'(3) by simp
  show "capacity f' = capacity f" by (rule eff'(2))
  show "\<forall>c < length (chunks m). \<forall>i < 256. page_on_disk xxh (image f') (chunks m' ! c) i"
  proof (intro allI impI)
    fix c i assume ci: "c < length ?cs" "i < (256 :: nat)"
    have "page_on_disk xxh (image f') (?cs ! c) i"
    proof (cases "\<exists>l \<in> set ?ls. covers ?cs l c i")
      case True
      then show ?thesis using eff'(1) [OF ci] by (simp add: page_on_disk_def)
    next
      case False
      then have "\<not> needs_full_write (?cs ! c)"
        using link_page_selected [OF inv dirty ci(1)] covers_link_page by blast
      moreover have "MetadataPageLocation c i \<notin> dirty_pages m" using False dirty_page_covered [OF inv] by blast
      ultimately show ?thesis using disk ci eff'(1) [OF ci] False by (auto simp: meta_on_disk_def page_on_disk_def)
    qed
    then show "page_on_disk xxh (image f') (chunks m' ! c) i" using ci by (simp add: m')
  qed
qed

subsection \<open>Properties\<close>

lemma perform_never_panics:
  assumes "\<And>k a b. (k, a, b) \<in> set ws \<Longrightarrow> a mod 4096 = 0 \<and> length b mod 4096 = 0"
  shows "perform_metadata_writes ocs ws (f, m) \<noteq> None"
  using assms
proof (induction ws arbitrary: ocs f m)
  case (Cons w ws)
  obtain k a b where w: "w = (k, a, b)" by (cases w)
  have "write_at (ocs 0) a b f \<noteq> None"
    using Cons.prems [of k a b] w by (simp add: write_at_def DIRECT_IO_ALIGNMENT_BYTES_def)
  moreover have "perform_metadata_writes (\<lambda>n. ocs (Suc n)) ws (f1, finish_metadata_write k b m) \<noteq> None" for f1
    using Cons.IH Cons.prems by (meson list.set_intros(2))
  ultimately show ?case using w by (auto split: sum.splits)
qed simp

lemma metadata_writes_aligned:
  assumes "meta_inv m" and "(k, a, b) \<in> set (map (\<lambda>l. the (encode_metadata_write xxh (chunks m) l)) (selected_locations m))"
  shows "a mod 4096 = 0 \<and> length b mod 4096 = 0"
proof -
  from assms(2) obtain l where l: "l \<in> set (selected_locations m)"
    "(k, a, b) = the (encode_metadata_write xxh (chunks m) l)" by auto
  note ok = selected_locations_ok [OF assms(1) l(1)]
  obtain first n where e: "encode_metadata_write xxh (chunks m) l = Some (page_chunk_index l,
      page_no (chunks m ! page_chunk_index l) first * METADATA_PAGE_BYTES,
      concat (map (page_bytes xxh (chunks m ! page_chunk_index l)) [first..<first + n]))" "first + n \<le> 256"
    using encode_selected [OF assms(1) l(1)] by blast
  have "length (concat (map (page_bytes xxh (chunks m ! page_chunk_index l)) [first..<first + n])) = n * METADATA_PAGE_BYTES"
    using length_concat_uniform [of "map (page_bytes xxh (chunks m ! page_chunk_index l)) [first..<first + n]" METADATA_PAGE_BYTES]
      length_page_bytes [OF meta_inv_D(1) [OF assms(1) nth_mem [OF conjunct1 [OF ok]]]] e(2)
    by (auto simp: page_consts)
  then show ?thesis using e(1) l(2) by (auto simp: page_consts)
qed



lemma selected_descending: "meta_inv m \<Longrightarrow> sorted_wrt (\<lambda>a b. b < a) (selected_locations m)"
  using dirty_after_marking_ok(1)
  by (simp add: selected_locations_def sorted_wrt_filter sorted_wrt_rev)

lemma perform_prefix_initializes:
  assumes inv: "meta_inv m" and apart: "chunks_apart (chunks m)" and dirty: "dirty_pages m \<noteq> {}"
    and sel: "selected_locations m = ls1 @ l # ls2"
    and perf: "perform_metadata_writes ocs (map (\<lambda>l. the (encode_metadata_write xxh (chunks m) l)) ls1)
      (f, m\<lparr>dirty_pages := {}\<rparr>) = Some (f', m', Inr ())"
    and c: "page_chunk_index l < c" "c < length (chunks m)"
  shows "\<not> needs_full_write (chunks m' ! c)"
    and "needs_full_write (chunks m ! c) \<Longrightarrow> i < 256 \<Longrightarrow> page_on_disk xxh (image f') (chunks m ! c) i"
proof -
  let ?ks = "{page_chunk_index l | l. l \<in> set ls1 \<and> needs_full_write (chunks m ! page_chunk_index l)}"
  have before: "link_page c \<in> set ls1" if "needs_full_write (chunks m ! c)"
  proof -
    have "link_page c \<in> set (selected_locations m)" by (rule link_page_selected [OF inv dirty c(2) that])
    moreover have "link_page c \<noteq> x" if "x = l \<or> x \<in> set ls2" for x
      using that selected_descending [OF inv] c(1)
      by (auto simp: sel sorted_wrt_append link_page_def page_location_order)
    ultimately show ?thesis by (auto simp: sel)
  qed
  have locs: "page_chunk_index l < length (chunks m) \<and> page_index l \<le> ENTRY_METADATA_PAGES_PER_CHUNK"
    if "l \<in> set ls1" for l using selected_locations_ok [OF inv, of l] that by (simp add: sel)
  note eff = perform_writes_effect [OF meta_inv_D(1) [OF inv] apart locs perf, of "{}"]
  have m': "chunks m' = initialize_chunk (chunks m) ?ks" using eff by (auto simp: initialize_chunk_none)
  show "\<not> needs_full_write (chunks m' ! c)"
  proof (cases "needs_full_write (chunks m ! c)")
    case True
    then have "c \<in> ?ks" using before by (force simp: link_page_def)
    then show ?thesis using c(2) by (simp add: m' initialize_chunk_def)
  next
    case False
    then show ?thesis using c(2) by (simp add: m' initialize_chunk_def)
  qed
  show "page_on_disk xxh (image f') (chunks m ! c) i" if "needs_full_write (chunks m ! c)" "i < 256"
    using eff c(2) that before covers_link_page [of "chunks m" c i]
    by (auto simp: page_on_disk_def initialize_chunk_none)
qed

lemma map_append_split:
  assumes "map g xs = ys @ y # zs"
  obtains us u vs where "xs = us @ u # vs" and "map g us = ys" and "g u = y"
  using assms by (auto simp: map_eq_append_conv map_eq_Cons_conv)

text \<open>C17: A link never reaches the disk before the chunk it points to. When the metadata writer is about to
  write any page of a chunk, every later chunk of the chain is already initialized, and the ones this
  round had to initialize have all their pages on disk.\<close>

theorem links_written_after_targets:
  assumes "meta_inv m" and "chunks_apart (chunks m)" and "dirty_pages m \<noteq> {}"
    and "take_metadata_writes xxh m = (m1, Some (before @ (k, address, bytes) # rest))"
    and "perform_metadata_writes ocs before (f, m1) = Some (f', m', Inr ())"
    and "k < c" and "c < length (chunks m)"
  shows "\<not> needs_full_write (chunks m' ! c)
    \<and> (needs_full_write (chunks m ! c) \<longrightarrow> (\<forall>i < 256. page_on_disk xxh (image f') (chunks m ! c) i))"
proof -
  let ?g = "\<lambda>l. the (encode_metadata_write xxh (chunks m) l)"
  have m1: "m1 = m\<lparr>dirty_pages := {}\<rparr>" and ws: "map ?g (selected_locations m) = before @ (k, address, bytes) # rest"
    using assms(4) by (simp_all add: take_metadata_writes_eq [OF assms(1)])
  obtain ls1 l ls2 where sel: "selected_locations m = ls1 @ l # ls2" and b: "map ?g ls1 = before"
    and l: "?g l = (k, address, bytes)" by (rule map_append_split [OF ws])
  have "page_chunk_index l < length (chunks m) \<and> page_index l \<le> ENTRY_METADATA_PAGES_PER_CHUNK"
    using selected_locations_ok [OF assms(1)] by (simp add: sel)
  then have "page_chunk_index l = k"
    using encode_metadata_write_pages [OF meta_inv_D(1) [OF assms(1)], of "chunks m" l xxh] l by force
  then have c: "page_chunk_index l < c" using assms(6) by simp
  have perf: "perform_metadata_writes ocs (map ?g ls1) (f, m\<lparr>dirty_pages := {}\<rparr>) = Some (f', m', Inr ())"
    using assms(5) by (simp add: b m1)
  show ?thesis using perform_prefix_initializes [OF assms(1-3) sel perf c assms(7)] by blast
qed

definition example_chain :: metadata_chunks where
  "example_chain = \<lparr>chunks = [example_chunk\<lparr>next_chunk_address := 2097152\<rparr>,
      example_chunk\<lparr>reserved_chunk := \<lparr>chunk_numbers = (2, 3), recovered = False\<rparr>\<rparr>],
    dirty_pages = {link_page 0, link_page 1}, free_slot_search_start = EntryMetadataLocation 0 0,
    free_slot_count = 2 * ENTRIES_PER_METADATA_CHUNK\<rparr>"

lemma example_chain_inv: "meta_inv example_chain"
  by (auto simp: meta_inv_def example_chain_def example_chunk_def chunk_ok_def chain_ok_def chunk_count_def
      free_slots_def location_order link_page_def disk_byte_range_def CHUNK_BYTES_def less_Suc_eq)

lemma example_chain_selected: "selected_locations example_chain = [link_page 1, link_page 0]"
proof -
  have "dirty_after_marking example_chain = {link_page 0, link_page 1}"
    by (auto simp: dirty_after_marking_def example_chain_def example_chunk_def less_Suc_eq)
  moreover have "sorted_list_of_set {link_page 0, link_page 1} = [link_page 0, link_page 1]"
    by (simp add: link_page_def page_location_order)
  ultimately show ?thesis by (simp add: selected_locations_def link_page_def)
qed

theorem links_written_after_targets_witness:
  "\<exists>m1 w before rest f' m'. take_metadata_writes (\<lambda>_. 0) example_chain = (m1, Some (before @ w # rest)) \<and> fst w = 0
    \<and> perform_metadata_writes (\<lambda>_. IoOk 0) before (zero_file 4194304, m1) = Some (f', m', Inr ())
    \<and> \<not> needs_full_write (chunks m' ! 1)
    \<and> page_on_disk (\<lambda>_. 0) (image f') (chunks example_chain ! 1) 255"
proof -
  let ?m = example_chain and ?g = "\<lambda>l. the (encode_metadata_write (\<lambda>_. 0) (chunks example_chain) l)"
  have apart: "chunks_apart (chunks ?m)" by (simp add: chunks_apart_def example_chain_def example_chunk_def)
  have ws: "take_metadata_writes (\<lambda>_. 0) ?m = (?m\<lparr>dirty_pages := {}\<rparr>, Some ([?g (link_page 1)] @ ?g (link_page 0) # []))"
    by (simp add: take_metadata_writes_eq [OF example_chain_inv] example_chain_selected)
  have pci: "page_chunk_index (link_page k) = k" for k by (simp add: link_page_def)
  have sel: "link_page 0 \<in> set (selected_locations ?m)" "link_page 1 \<in> set (selected_locations ?m)"
    by (simp_all add: example_chain_selected)
  obtain a0 b0 where w0: "?g (link_page 0) = (0, a0, b0)"
    using encode_selected [OF example_chain_inv sel(1), of "\<lambda>_. 0"] unfolding pci by force
  obtain first n where w1: "?g (link_page 1) = (1, page_no (chunks ?m ! 1) first * METADATA_PAGE_BYTES,
      concat (map (page_bytes (\<lambda>_. 0) (chunks ?m ! 1)) [first..<first + n]))" "first + n \<le> 256"
    using encode_selected [OF example_chain_inv sel(2), of "\<lambda>_. 0"] unfolding pci by force
  let ?b = "concat (map (page_bytes (\<lambda>_. 0) (chunks ?m ! 1)) [first..<first + n])"
  have al: "page_no (chunks ?m ! 1) first * METADATA_PAGE_BYTES mod 4096 = 0 \<and> length ?b mod 4096 = 0"
    by (rule metadata_writes_aligned [OF example_chain_inv, of 1 _ _ "\<lambda>_. 0"])
      (use w1(1) in \<open>simp add: example_chain_selected\<close>)
  have "length ?b = n * METADATA_PAGE_BYTES"
    using length_concat_uniform [of "map (page_bytes (\<lambda>_. 0) (chunks ?m ! 1)) [first..<first + n]" METADATA_PAGE_BYTES]
      length_page_bytes [of "chunks ?m ! 1"] meta_inv_D(1) [OF example_chain_inv, of "chunks ?m ! 1"] w1(2)
    by (auto simp: page_consts example_chain_def)
  moreover have "page_no (chunks ?m ! 1) first = 512 + first"
    by (simp add: page_no_def example_chain_def)
  ultimately have fit: "page_no (chunks ?m ! 1) first * METADATA_PAGE_BYTES + length ?b \<le> 4194304"
    using w1(2) by (simp add: page_consts)
  obtain f' where f': "write_at (IoOk 0) (page_no (chunks ?m ! 1) first * METADATA_PAGE_BYTES) ?b (zero_file 4194304)
      = Some (f', Inr ())"
    using write_at_succeeds [OF conjunct1 [OF al] conjunct2 [OF al], of "zero_file 4194304" 0] fit
    by (auto simp: zero_file_def u64_limit_def)
  then obtain m' where perf: "perform_metadata_writes (\<lambda>_. IoOk 0) [?g (link_page 1)]
      (zero_file 4194304, ?m\<lparr>dirty_pages := {}\<rparr>) = Some (f', m', Inr ())"
    unfolding w1(1) perform_metadata_writes.simps by simp
  have dirty: "dirty_pages ?m \<noteq> {}" and len: "1 < length (chunks ?m)" and nfw: "needs_full_write (chunks ?m ! 1)"
    by (simp_all add: example_chain_def example_chunk_def)
  from links_written_after_targets [OF example_chain_inv apart dirty ws [unfolded w0] perf _ len] nfw
  show ?thesis using ws perf w0 by (intro exI [of _ "?m\<lparr>dirty_pages := {}\<rparr>"] exI [of _ "(0, a0, b0)"]
        exI [of _ "[?g (link_page 1)]"] exI [of _ "[]"] exI [of _ f'] exI [of _ m']) simp
qed

end
