(* ===== verification/Candidate_Index.thy ===== *)
theory Candidate_Index
  imports Feuer_Prelude
begin

text \<open>
  The index both cache tiers keep: entries by key, and a vector of keys sampled for eviction, where
  each entry stores its position in the vector. Removal is \<open>swap_remove\<close> plus a repair of the moved
  entry's position. The locale \<open>candidate_index\<close> takes the position field of an entry type and proves
  once that pushing and removing keep entries and candidates consistent; the disk index and the memory
  shard interpret it.
\<close>

locale candidate_index =
  fixes pos :: "'e \<Rightarrow> nat"
    and set_pos :: "nat \<Rightarrow> 'e \<Rightarrow> 'e"
  assumes pos_set_pos: "pos (set_pos i e) = i"
    and set_pos_set_pos: "set_pos i (set_pos j e) = set_pos i e"
    and set_pos_pos: "set_pos (pos e) e = e"
begin

definition consistent :: "('k \<rightharpoonup> 'e) \<Rightarrow> 'k list \<Rightarrow> bool" where
  "consistent m cs \<longleftrightarrow>
    (\<forall>k e. m k = Some e \<longrightarrow> pos e < length cs \<and> cs ! pos e = k) \<and>
    (\<forall>i < length cs. \<exists>e. m (cs ! i) = Some e \<and> pos e = i)"

lemma consistent_entry: "consistent m cs \<Longrightarrow> m k = Some e \<Longrightarrow> pos e < length cs \<and> cs ! pos e = k"
  by (simp add: consistent_def)

lemma consistent_candidate: "consistent m cs \<Longrightarrow> i < length cs \<Longrightarrow> \<exists>e. m (cs ! i) = Some e \<and> pos e = i"
  by (simp add: consistent_def)

lemma consistent_empty: "consistent Map.empty []"
  by (simp add: consistent_def)

lemma consistent_dom: "consistent m cs \<Longrightarrow> dom m = set cs"
proof -
  assume c: "consistent m cs"
  show ?thesis
  proof (intro set_eqI iffI)
    fix k assume "k \<in> dom m"
    then obtain e where "m k = Some e" by auto
    then show "k \<in> set cs" using consistent_entry [OF c] nth_mem by metis
  next
    fix k assume "k \<in> set cs"
    then show "k \<in> dom m" using consistent_candidate [OF c] by (auto simp: in_set_conv_nth)
  qed
qed

lemma consistent_finite: "consistent m cs \<Longrightarrow> finite (dom m)"
  by (simp add: consistent_dom)

lemma consistent_distinct: "consistent m cs \<Longrightarrow> distinct cs"
  unfolding distinct_conv_nth by (metis consistent_candidate option.inject)

lemma consistent_length: "consistent m cs \<Longrightarrow> length cs = card (dom m)"
  by (simp add: consistent_dom consistent_distinct distinct_card)

lemma consistent_push:
  assumes c: "consistent m cs" and k: "m k = None"
  shows "consistent (m(k \<mapsto> set_pos (length cs) e)) (cs @ [k])"
proof -
  have fresh: "k \<notin> set cs" using consistent_dom [OF c] k by blast
  show ?thesis unfolding consistent_def
  proof (intro conjI allI impI)
    fix k' e' assume "(m(k \<mapsto> set_pos (length cs) e)) k' = Some e'"
    then show "pos e' < length (cs @ [k])" and "(cs @ [k]) ! pos e' = k'"
      using consistent_entry [OF c, of k' e'] by (auto simp: pos_set_pos nth_append split: if_splits)
  next
    fix i assume "i < length (cs @ [k])"
    then consider "i < length cs" | "i = length cs" by fastforce
    then show "\<exists>e'. (m(k \<mapsto> set_pos (length cs) e)) ((cs @ [k]) ! i) = Some e' \<and> pos e' = i"
    proof cases
      case 1
      then have "cs ! i \<noteq> k" using fresh nth_mem by metis
      then show ?thesis using 1 consistent_candidate [OF c 1] by (simp add: nth_append)
    next
      case 2
      then show ?thesis by (simp add: pos_set_pos)
    qed
  qed
qed

text \<open>Removal of the entry at position \<open>i\<close>: the map without its key, the candidates after
  \<open>swap_remove\<close>, and the position of the moved key repaired. \<open>None\<close> is the failed \<open>unwrap\<close>.\<close>

definition repair :: "nat \<Rightarrow> 'k list \<Rightarrow> ('k \<rightharpoonup> 'e) \<Rightarrow> ('k \<rightharpoonup> 'e) option" where
  "repair i cs m = (case vec_get cs i of
     None \<Rightarrow> Some m
   | Some moved \<Rightarrow> (case m moved of None \<Rightarrow> None | Some e \<Rightarrow> Some (m(moved \<mapsto> set_pos i e))))"

lemma swap_remove_entry:
  assumes c: "consistent m cs" and k: "m k = Some e"
  shows "pos e < length cs" and "cs ! pos e = k" and "distinct cs"
    and "\<And>j. j < length cs - 1 \<Longrightarrow>
      swap_remove (pos e) cs ! j = (if j = pos e then cs ! (length cs - 1) else cs ! j)"
proof -
  show i: "pos e < length cs" "cs ! pos e = k" using consistent_entry [OF c k] by auto
  show "distinct cs" by (rule consistent_distinct [OF c])
  have "last cs = cs ! (length cs - 1)" using i(1) by (cases cs) (auto simp: last_conv_nth)
  then show "swap_remove (pos e) cs ! j = (if j = pos e then cs ! (length cs - 1) else cs ! j)"
    if "j < length cs - 1" for j using nth_swap_remove [OF i(1) that] by simp
qed

lemma consistent_remove_last:
  assumes c: "consistent m cs" and k: "m k = Some e" and top: "pos e = length cs - 1"
  shows "consistent (m(k := None)) (swap_remove (pos e) cs)"
  unfolding consistent_def
proof (intro conjI allI impI)
  note i = swap_remove_entry [OF c k]
  fix k' e' assume e': "(m(k := None)) k' = Some e'"
  then have p: "pos e' < length cs" "cs ! pos e' = k'" "k' \<noteq> k"
    using consistent_entry [OF c, of k' e'] by (auto split: if_splits)
  then have "pos e' \<noteq> pos e" using i(2) by auto
  then show "pos e' < length (swap_remove (pos e) cs)" and "swap_remove (pos e) cs ! pos e' = k'"
    using p top i(4) [of "pos e'"] by auto
next
  note i = swap_remove_entry [OF c k]
  fix j assume "j < length (swap_remove (pos e) cs)"
  then have j: "j < length cs - 1" by simp
  then have "cs ! j \<noteq> k" using nth_eq_iff_index_eq [OF i(3), of j "pos e"] i(1,2) top by auto
  then show "\<exists>e'. (m(k := None)) (swap_remove (pos e) cs ! j) = Some e' \<and> pos e' = j"
    using consistent_candidate [OF c, of j] j top i(4) [OF j] by auto
qed

lemma consistent_remove_inner:
  assumes c: "consistent m cs" and k: "m k = Some e" and inner: "pos e < length cs - 1"
    and e1: "m (cs ! (length cs - 1)) = Some e1" "cs ! (length cs - 1) \<noteq> k"
  shows "consistent ((m(k := None))(cs ! (length cs - 1) \<mapsto> set_pos (pos e) e1)) (swap_remove (pos e) cs)"
    (is "consistent ?m ?cs")
  unfolding consistent_def
proof (intro conjI allI impI)
  note i = swap_remove_entry [OF c k]
  fix k' e' assume e': "?m k' = Some e'"
  have "pos e' < length cs - 1 \<and> ?cs ! pos e' = k'"
  proof (cases "k' = cs ! (length cs - 1)")
    case True
    then show ?thesis using e' i(4) [OF inner] inner by (auto simp: pos_set_pos)
  next
    case False
    then have p: "pos e' < length cs" "cs ! pos e' = k'" "k' \<noteq> k"
      using e' consistent_entry [OF c, of k' e'] by (auto split: if_splits)
    then have "pos e' \<noteq> pos e" "pos e' \<noteq> length cs - 1" using i(2) False by auto
    then show ?thesis using p i(4) [of "pos e'"] by auto
  qed
  then show "pos e' < length ?cs" and "?cs ! pos e' = k'" by auto
next
  note i = swap_remove_entry [OF c k]
  fix j assume "j < length ?cs"
  then have j: "j < length cs - 1" by simp
  show "\<exists>e'. ?m (?cs ! j) = Some e' \<and> pos e' = j"
  proof (cases "j = pos e")
    case True
    then show ?thesis using i(4) [OF inner] by (simp add: pos_set_pos)
  next
    case False
    have "cs ! j \<noteq> k" "cs ! j \<noteq> cs ! (length cs - 1)"
      using False j i(1,2) nth_eq_iff_index_eq [OF i(3), of j "pos e"]
        nth_eq_iff_index_eq [OF i(3), of j "length cs - 1"] by auto
    then show ?thesis using consistent_candidate [OF c, of j] j i(4) [OF j] False by auto
  qed
qed

lemma consistent_remove:
  assumes c: "consistent m cs" and k: "m k = Some e"
  shows "\<exists>m'. repair (pos e) (swap_remove (pos e) cs) (m(k := None)) = Some m'
    \<and> consistent m' (swap_remove (pos e) cs)
    \<and> (\<forall>k'. map_option (set_pos 0) (m' k') = map_option (set_pos 0) ((m(k := None)) k'))"
proof (cases "pos e < length cs - 1")
  case False
  note i = swap_remove_entry [OF c k]
  have top: "pos e = length cs - 1" using False i(1) by simp
  then have "repair (pos e) (swap_remove (pos e) cs) (m(k := None)) = Some (m(k := None))"
    by (simp add: repair_def vec_get_def)
  then show ?thesis using consistent_remove_last [OF c k top] by auto
next
  case True
  note i = swap_remove_entry [OF c k]
  let ?moved = "cs ! (length cs - 1)"
  have n: "length cs - 1 < length cs" using True by linarith
  have ne: "?moved \<noteq> k" using nth_eq_iff_index_eq [OF i(3) n i(1)] True i(2) by auto
  obtain e1 where e1: "m ?moved = Some e1" using consistent_candidate [OF c n] by blast
  have "repair (pos e) (swap_remove (pos e) cs) (m(k := None))
      = Some ((m(k := None))(?moved \<mapsto> set_pos (pos e) e1))"
    using True i(4) [OF True] e1 ne by (simp add: repair_def vec_get_def)
  moreover have "map_option (set_pos 0) (((m(k := None))(?moved \<mapsto> set_pos (pos e) e1)) k')
      = map_option (set_pos 0) ((m(k := None)) k')" for k'
    using e1 ne by (auto simp: set_pos_set_pos)
  ultimately show ?thesis using consistent_remove_inner [OF c k True e1 ne] by blast
qed

text \<open>A quantity that does not depend on the position survives the repair.\<close>

lemma repair_total:
  assumes "\<And>k. map_option (set_pos 0) (m' k) = map_option (set_pos 0) (m k)"
    and "\<And>i e. f (set_pos i e) = f e"
  shows "map_option f (m' k) = map_option f (m k)"
proof -
  have "map_option f (map_option (set_pos 0) x) = map_option f x" for x
    by (cases x) (simp_all add: assms(2))
  then show ?thesis using assms(1) by metis
qed

end

end
