(* ===== verification/Retention.thy ===== *)
theory Retention
  imports Feuer_Prelude Complex_Main
begin

text \<open>
  The retention policy of \<open>feuer-memory/src/retention.rs\<close>: rotating samples of eviction candidates,
  the choice of the first lowest score (\<open>Iterator::min_by\<close> with \<open>f64::total_cmp\<close>), and the two scorers.
  \<open>f64\<close> arithmetic is rational arithmetic followed by a rounding \<open>rnd\<close> after each operation; the
  scores the contract asks for are finite. Where only the order of scores matters, scores are of any
  linearly ordered type.
\<close>

definition RECLAIM_SAMPLE_SIZE :: nat where
  "RECLAIM_SAMPLE_SIZE = 64"

subsection \<open>Sampling\<close>

text \<open>The advanced start and the sample.\<close>

definition sample_candidates :: "nat \<Rightarrow> 'a list \<Rightarrow> nat \<Rightarrow> nat \<times> 'a list" where
  "sample_candidates next_sample_start candidates sample_size =
    (let candidate_count = length candidates;
         sample_start = next_sample_start mod max candidate_count 1;
         next_start = (if candidate_count > 0
           then (sample_start + min candidate_count sample_size) mod candidate_count
           else next_sample_start)
     in (next_start, take sample_size (drop sample_start candidates @ take sample_start candidates)))"

lemma length_sample: "length (snd (sample_candidates st cs n)) = min n (length cs)"
proof -
  have "st mod max (length cs) 1 \<le> length cs"
    by (cases cs) (auto simp: max_def less_imp_le)
  then show ?thesis by (simp add: sample_candidates_def Let_def)
qed

lemma nth_sample:
  assumes "i < min n (length cs)"
  shows "snd (sample_candidates st cs n) ! i = cs ! ((st + i) mod length cs)"
proof -
  let ?l = "length cs"
  have l: "0 < ?l" using assms by auto
  define s where "s = st mod ?l"
  have s: "s < ?l" using l by (simp add: s_def)
  have eq: "(st + i) mod ?l = (s + i) mod ?l" by (simp add: s_def mod_add_left_eq)
  have smp: "snd (sample_candidates st cs n) = take n (drop s cs @ take s cs)"
  proof -
    have "max ?l 1 = ?l" using l by linarith
    then show ?thesis unfolding sample_candidates_def Let_def snd_conv s_def by (simp only:)
  qed
  have "i < n" using assms by simp
  then have at: "snd (sample_candidates st cs n) ! i = (drop s cs @ take s cs) ! i"
    unfolding smp by (rule nth_take)
  show ?thesis
  proof (cases "s + i < ?l")
    case True
    then have "i < ?l - s" by linarith
    then have "(drop s cs @ take s cs) ! i = cs ! (s + i)" by (simp add: nth_append)
    then show ?thesis using at eq True by simp
  next
    case False
    then have "s + i = (s + i - ?l) + ?l" and "s + i - ?l < ?l" using assms s by auto
    then have "(s + i) mod ?l = s + i - ?l" by (metis mod_add_self2 mod_less)
    moreover have "i - (?l - s) = s + i - ?l" and "\<not> i < ?l - s" and "s + i - ?l < s"
      using False s assms by linarith+
    then have "(drop s cs @ take s cs) ! i = cs ! (s + i - ?l)"
      using assms s by (simp add: nth_append)
    ultimately show ?thesis using at eq by simp
  qed
qed

lemma set_sample: "set (snd (sample_candidates st cs n)) \<subseteq> set cs"
  by (auto simp: sample_candidates_def Let_def dest!: in_set_takeD intro: in_set_dropD in_set_takeD)

lemma distinct_sample: "distinct cs \<Longrightarrow> distinct (snd (sample_candidates st cs n))"
proof -
  assume d: "distinct cs"
  define s where "s = st mod max (length cs) 1"
  have "distinct (take s cs @ drop s cs)" using d by simp
  then have "distinct (drop s cs @ take s cs)" by (simp only: distinct_append) blast
  then have "distinct (take n (drop s cs @ take s cs))" by (rule distinct_take)
  then show ?thesis unfolding sample_candidates_def Let_def s_def snd_conv .
qed

lemma sample_start_next:
  assumes "0 < length cs"
  shows "fst (sample_candidates st cs n) = (st + min (length cs) n) mod length cs"
proof -
  have "max (length cs) 1 = length cs" using assms by linarith
  then show ?thesis using assms unfolding sample_candidates_def Let_def fst_conv
    by (simp only: if_True mod_add_left_eq)
qed

text \<open>The samples of consecutive rounds follow each other around the candidates.\<close>

fun sample_rounds :: "nat \<Rightarrow> nat \<Rightarrow> 'a list \<Rightarrow> nat \<Rightarrow> 'a list list" where
  "sample_rounds 0 st cs n = []"
| "sample_rounds (Suc r) st cs n =
    (let (st', s) = sample_candidates st cs n in s # sample_rounds r st' cs n)"

lemma sample_rounds_nth:
  assumes "r < rounds" and "i < min n (length cs)"
  shows "sample_rounds rounds st cs n ! r ! i = cs ! ((st + r * min (length cs) n + i) mod length cs)"
  using assms
proof (induction rounds arbitrary: st r)
  case (Suc k)
  let ?m = "min (length cs) n"
  have l: "0 < length cs" using Suc.prems(2) by auto
  show ?case
  proof (cases r)
    case 0
    then show ?thesis using nth_sample [OF Suc.prems(2), of st] by (simp add: case_prod_beta Let_def)
  next
    case (Suc q)
    have "((st + ?m) mod length cs + q * ?m + i) mod length cs = (st + Suc q * ?m + i) mod length cs"
      using mod_add_left_eq [of "st + ?m" "length cs" "q * ?m + i"] by (simp add: algebra_simps)
    then show ?thesis
      using Suc.IH [of q "fst (sample_candidates st cs n)"] Suc.prems Suc sample_start_next [OF l, of st n]
      by (simp add: case_prod_beta Let_def)
  qed
qed simp

text \<open>C33: Eviction sampling starves no candidate: as long as the list does not change, enough consecutive
  samples to cover its length inspect every candidate.\<close>

theorem rotating_samples_cover:
  assumes "0 < n" and "length cs \<le> rounds * n" and "x \<in> set cs"
  shows "\<exists>s \<in> set (sample_rounds rounds st cs n). x \<in> set s"
proof -
  let ?l = "length cs" and ?m = "min (length cs) n"
  obtain j where j: "j < ?l" "x = cs ! j" using assms(3) by (metis in_set_conv_nth)
  have m: "0 < ?m" using j assms(1) by auto
  define d where "d = (j + ?l - st mod ?l) mod ?l"
  have "0 < ?l" using j(1) by linarith
  then have d: "d < ?l" unfolding d_def by (rule mod_less_divisor)
  have "(st + d) mod ?l = (st mod ?l + (j + ?l - st mod ?l)) mod ?l"
    by (simp add: d_def mod_add_left_eq mod_add_right_eq)
  also have "st mod ?l + (j + ?l - st mod ?l) = j + ?l"
    using mod_less_divisor [OF \<open>0 < ?l\<close>, of st] by linarith
  also have "(j + ?l) mod ?l = j" using j(1) by simp
  finally have hit: "(st + d) mod ?l = j" .
  have dm: "d = d div ?m * ?m + d mod ?m" by (rule div_mult_mod_eq [symmetric])
  have r: "d div ?m < rounds"
  proof (cases "n \<le> ?l")
    case True
    then have "d < rounds * ?m" using d assms(2) by (simp add: min_def)
    then show ?thesis using div_less_iff_less_mult [OF m] by blast
  next
    case False
    then have "0 < rounds" using j assms(2) by (cases rounds) auto
    then show ?thesis using False d by (simp add: min_def)
  qed
  have i: "d mod ?m < min n ?l" using mod_less_divisor [OF m] by (simp only: min.commute)
  have "sample_rounds rounds st cs n ! (d div ?m) ! (d mod ?m) = x"
    using sample_rounds_nth [OF r i, of st] hit j(2) dm by (simp add: add.assoc)
  moreover have len: "length (sample_rounds k s0 cs n) = k" for k s0
    by (induction k arbitrary: s0) (auto simp: case_prod_beta Let_def)
  moreover have "length (sample_rounds k s0 cs n ! q) = min n ?l" if "q < k" for k s0 q
    using that by (induction k arbitrary: s0 q) (auto simp: case_prod_beta Let_def length_sample nth_Cons split: nat.splits)
  ultimately show ?thesis using r i by (metis nth_mem)
qed

theorem rotating_samples_cover_witness:
  "\<exists>s \<in> set (sample_rounds 3 4 [10, 20, 30, 40, 50 :: nat] 2). 30 \<in> set s"
  using rotating_samples_cover [of 2 "[10, 20, 30, 40, 50 :: nat]" 3 30 4] by simp

subsection \<open>The lowest score\<close>

text \<open>\<open>min_by\<close> returns the first of several minimal elements.\<close>

fun min_first :: "('a \<Rightarrow> 's::linorder) \<Rightarrow> 'a list \<Rightarrow> 'a option" where
  "min_first f [] = None"
| "min_first f (x # xs) =
    (case min_first f xs of None \<Rightarrow> Some x | Some y \<Rightarrow> Some (if f y < f x then y else x))"

lemma min_first_None [simp]: "min_first f xs = None \<longleftrightarrow> xs = []"
  by (cases xs) (auto split: option.splits)

lemma min_first_Some: "min_first f xs = Some x \<Longrightarrow> x \<in> set xs \<and> (\<forall>y \<in> set xs. f x \<le> f y)"
proof (induction xs arbitrary: x)
  case (Cons a xs)
  show ?case
  proof (cases "min_first f xs")
    case None
    then show ?thesis using Cons.prems by auto
  next
    case (Some b)
    then have IH: "b \<in> set xs" "\<forall>y \<in> set xs. f b \<le> f y" using Cons.IH by auto
    have x: "x = (if f b < f a then b else a)" using Cons.prems Some by simp
    show ?thesis using IH x by (auto simp: not_less intro: order_trans)
  qed
qed simp

subsection \<open>Scorers\<close>

record fetch_cost_scorer =
  cost_per_request :: rat
  cost_per_byte :: rat

definition default_fetch_cost_scorer :: fetch_cost_scorer where
  "default_fetch_cost_scorer = \<lparr>cost_per_request = 0, cost_per_byte = 1\<rparr>"

definition fetch_cost_score :: "(rat \<Rightarrow> rat) \<Rightarrow> fetch_cost_scorer \<Rightarrow> rat \<Rightarrow> nat \<Rightarrow> rat" where
  "fetch_cost_score rnd sc decayed_request_count len =
    (let fetch_cost = rnd (cost_per_request sc + rnd (rnd (of_nat len) * cost_per_byte sc))
     in rnd (rnd (decayed_request_count * fetch_cost) / rnd (of_nat (max len 1))))"

record cache_read_savings_scorer =
  fallback_cost_per_request :: rat
  fallback_cost_per_byte :: rat
  cache_read_cost_per_request :: rat
  cache_read_cost_per_byte :: rat

definition cache_read_savings_score :: "(rat \<Rightarrow> rat) \<Rightarrow> cache_read_savings_scorer \<Rightarrow> rat \<Rightarrow> nat \<Rightarrow> rat" where
  "cache_read_savings_score rnd sc decayed_request_count len =
    (let fallback_cost = rnd (fallback_cost_per_request sc + rnd (rnd (of_nat len) * fallback_cost_per_byte sc));
         cache_read_cost = rnd (cache_read_cost_per_request sc + rnd (rnd (of_nat len) * cache_read_cost_per_byte sc))
     in rnd (rnd (decayed_request_count * rnd (fallback_cost - cache_read_cost)) / rnd (of_nat (max len 1))))"

text \<open>What both scorers promise the eviction policy, for any rounding that is monotone and keeps zero
  and one: an object nobody requested scores zero, and more demand never lowers a nonnegative cost's
  score.\<close>

locale demand_score =
  fixes score :: "rat \<Rightarrow> nat \<Rightarrow> rat"
    and saves :: "nat \<Rightarrow> bool"
  assumes score_zero: "score 0 len = 0"
    and score_mono: "saves len \<Longrightarrow> a \<le> b \<Longrightarrow> score a len \<le> score b len"
begin

lemma score_nonneg: "saves len \<Longrightarrow> 0 \<le> a \<Longrightarrow> 0 \<le> score a len"
  using score_mono [of len 0 a] score_zero by simp

text \<open>An object without demand is never kept over one with demand.\<close>

lemma unrequested_first:
  assumes "\<And>x. x \<in> set xs \<Longrightarrow> saves (sz x) \<and> 0 \<le> demand x" and "z \<in> set xs" and "demand z = 0"
    and "min_first (\<lambda>x. score (demand x) (sz x)) xs = Some y"
  shows "score (demand y) (sz y) = 0"
proof -
  have y: "y \<in> set xs" "\<forall>x \<in> set xs. score (demand y) (sz y) \<le> score (demand x) (sz x)"
    using min_first_Some [OF assms(4)] by auto
  then have "score (demand y) (sz y) \<le> 0" using assms(2,3) score_zero by metis
  moreover have "0 \<le> score (demand y) (sz y)" using score_nonneg assms(1) y(1) by blast
  ultimately show ?thesis by simp
qed

end

lemma fetch_cost_score_laws:
  assumes mono: "\<And>x y. x \<le> y \<Longrightarrow> rnd x \<le> rnd y" and zero: "rnd 0 = (0 :: rat)"
  shows "demand_score (fetch_cost_score rnd sc) (\<lambda>len. 0 \<le> cost_per_request sc \<and> 0 \<le> cost_per_byte sc)"
proof
  show "fetch_cost_score rnd sc 0 len = 0" for len by (simp add: fetch_cost_score_def zero)
next
  fix len :: nat and a b :: rat
  assume cost: "0 \<le> cost_per_request sc \<and> 0 \<le> cost_per_byte sc" and ab: "a \<le> b"
  have pos: "0 \<le> rnd x" if "0 \<le> x" for x using mono [OF that] zero by simp
  define c where "c = rnd (cost_per_request sc + rnd (rnd (of_nat len) * cost_per_byte sc))"
  have c: "0 \<le> c" unfolding c_def using cost by (intro pos add_nonneg_nonneg mult_nonneg_nonneg) auto
  have "rnd (a * c) \<le> rnd (b * c)" using ab c by (intro mono mult_right_mono)
  then have "rnd (a * c) / rnd (of_nat (max len 1)) \<le> rnd (b * c) / rnd (of_nat (max len 1))"
    by (intro divide_right_mono pos) auto
  then show "fetch_cost_score rnd sc a len \<le> fetch_cost_score rnd sc b len"
    unfolding fetch_cost_score_def Let_def c_def by (rule mono)
qed

lemma cache_read_savings_score_laws:
  assumes mono: "\<And>x y. x \<le> y \<Longrightarrow> rnd x \<le> rnd y" and zero: "rnd 0 = (0 :: rat)"
  shows "demand_score (cache_read_savings_score rnd sc) (\<lambda>len.
    rnd (cache_read_cost_per_request sc + rnd (rnd (of_nat len) * cache_read_cost_per_byte sc))
    \<le> rnd (fallback_cost_per_request sc + rnd (rnd (of_nat len) * fallback_cost_per_byte sc)))"
proof
  show "cache_read_savings_score rnd sc 0 len = 0" for len by (simp add: cache_read_savings_score_def zero)
next
  fix len :: nat and a b :: rat
  let ?f = "rnd (fallback_cost_per_request sc + rnd (rnd (of_nat len) * fallback_cost_per_byte sc))"
  let ?r = "rnd (cache_read_cost_per_request sc + rnd (rnd (of_nat len) * cache_read_cost_per_byte sc))"
  assume cost: "?r \<le> ?f" and ab: "a \<le> b"
  have pos: "0 \<le> rnd x" if "0 \<le> x" for x using mono [OF that] zero by simp
  have c: "0 \<le> rnd (?f - ?r)" using cost by (intro pos) simp
  have "rnd (a * rnd (?f - ?r)) \<le> rnd (b * rnd (?f - ?r))" using ab c by (intro mono mult_right_mono)
  then have "rnd (a * rnd (?f - ?r)) / rnd (of_nat (max len 1)) \<le> rnd (b * rnd (?f - ?r)) / rnd (of_nat (max len 1))"
    by (intro divide_right_mono pos) auto
  then show "cache_read_savings_score rnd sc a len \<le> cache_read_savings_score rnd sc b len"
    unfolding cache_read_savings_score_def Let_def by (rule mono)
qed

text \<open>With exact arithmetic the default score of a nonempty object is its decayed request count.\<close>

lemma default_score_exact: "0 < len \<Longrightarrow> fetch_cost_score id default_fetch_cost_scorer d len = d"
  by (simp add: fetch_cost_score_def default_fetch_cost_scorer_def)

interpretation fcs: demand_score "fetch_cost_score id sc"
  "\<lambda>len. 0 \<le> cost_per_request sc \<and> 0 \<le> cost_per_byte sc" for sc
  by (rule fetch_cost_score_laws) auto

interpretation crs: demand_score "cache_read_savings_score id sc"
  "\<lambda>len. cache_read_cost_per_request sc + of_nat len * cache_read_cost_per_byte sc
    \<le> fallback_cost_per_request sc + of_nat len * fallback_cost_per_byte sc" for sc
  using cache_read_savings_score_laws [of id sc] by simp

end
