(* ===== verification/Disk_Shard.thy ===== *)
theory Disk_Shard
  imports Metadata_Disk Candidate_Index Retention
begin

text \<open>
  A shard of the disk cache, \<open>feuer-storage/src/disk_cache.rs\<close>: its entry index with eviction
  candidates, and the operations that insert, remove and evict entries together with their payload
  holds and metadata slots. The metrics are passed along; \<open>None\<close> is a panic (a failed \<open>unwrap\<close>, an
  index out of bounds, \<open>unreachable!\<close> or an assertion of the components below).

  \<open>shard_core\<close> is the invariant that ties index, metadata slots and payload holds together. It has
  two parameters for states inside an operation: payload holds not yet backed by an entry, and slots
  not yet claimed by one.
\<close>

subsection \<open>State\<close>

text \<open>A weak pointer to a shared read: \<open>None\<close> is dangling, otherwise the identity of the read.\<close>

record disk_entry =
  shared_read :: "nat option"
  eviction_position :: nat
  entry_payload_len :: u64
  entry_payload_checksum :: u64
  entry_payload_address :: u64
  entry_location :: entry_metadata_location

record disk_entry_index =
  entries_by_key :: "object_key_hash \<rightharpoonup> disk_entry"
  eviction_candidates :: "object_key_hash list"
  next_sample_start :: nat

definition new_disk_entry_index :: disk_entry_index where
  "new_disk_entry_index = \<lparr>entries_by_key = Map.empty, eviction_candidates = [], next_sample_start = 0\<rparr>"

text \<open>The completion guard of a write: none, or the metrics of a queued write, with its payload bytes
  and the time it was queued until it is dequeued.\<close>

datatype completion = NoCompletion | QueuedWriteMetrics nat "nat option"

fun drop_completion :: "completion \<Rightarrow> disk_metrics \<Rightarrow> disk_metrics" where
  "drop_completion NoCompletion dm = dm"
| "drop_completion (QueuedWriteMetrics n queued_at) dm =
    (let dm1 = dm\<lparr>pending_bytes := pending_bytes dm - int n\<rparr>
     in if queued_at \<noteq> None
        then record_queue QueueCanceled (dm1\<lparr>queued_entries := queued_entries dm1 - 1\<rparr>) else dm1)"

record write_entry =
  write_key :: object_key_hash
  write_payload_len :: nat
  write_payload_checksum :: u64
  buffer_offset :: nat
  attempt :: disk_write_attempt
  completion_guard :: completion

definition drop_write_entry :: "write_entry \<Rightarrow> disk_metrics \<Rightarrow> disk_metrics" where
  "drop_write_entry e dm = drop_completion (completion_guard e) (drop_disk_write_attempt (attempt e) dm)"

record small_entry_buffer =
  buffer :: "byte list"
  buffered_entries :: "write_entry list"

record disk_cache_shard =
  allocator :: disk_chunk_allocator
  entry_index :: disk_entry_index
  metadata_pages :: metadata_chunks
  small_entry_buffer :: small_entry_buffer

type_synonym shard_state = "disk_metrics \<times> disk_cache_shard"

subsection \<open>The entry index\<close>

definition new_disk_entry :: "entry_metadata \<Rightarrow> entry_metadata_location \<Rightarrow> disk_entry" where
  "new_disk_entry em loc = \<lparr>shared_read = None, eviction_position = 0, entry_payload_len = payload_len em,
    entry_payload_checksum = payload_checksum em, entry_payload_address = payload_address em,
    entry_location = loc\<rparr>"

definition entry_chunk_count :: "disk_entry \<Rightarrow> nat" where
  "entry_chunk_count e = div_ceil (max (unat (entry_payload_len e)) 1) CHUNK_BYTES"

definition take_entry :: "object_key_hash \<Rightarrow> disk_metrics \<times> disk_entry_index
    \<Rightarrow> ((disk_metrics \<times> disk_entry_index) \<times> disk_entry option) option" where
  "take_entry k s =
    (let (dm, idx) = s in
     case entries_by_key idx k of
       None \<Rightarrow> Some (s, None)
     | Some e \<Rightarrow>
         let dm1 = dm\<lparr>entries_gauge := entries_gauge dm - 1,
               payload_bytes := payload_bytes dm - int (unat (entry_payload_len e))\<rparr>;
             m1 = (entries_by_key idx)(k := None);
             p = eviction_position e;
             cs = swap_remove p (eviction_candidates idx)
         in if p \<ge> length (eviction_candidates idx) then None
            else case vec_get cs p of
              None \<Rightarrow> Some ((dm1, idx\<lparr>entries_by_key := m1, eviction_candidates := cs\<rparr>), Some e)
            | Some moved_key \<Rightarrow>
                (case m1 moved_key of
                   None \<Rightarrow> None
                 | Some moved \<Rightarrow>
                     Some ((dm1, idx\<lparr>entries_by_key := m1(moved_key \<mapsto> moved\<lparr>eviction_position := p\<rparr>),
                       eviction_candidates := cs\<rparr>), Some e)))"

definition drop_disk_entry_index :: "(object_key_hash \<rightharpoonup> disk_entry) \<Rightarrow> object_key_hash list \<Rightarrow> disk_metrics \<Rightarrow> disk_metrics" where
  "drop_disk_entry_index m cs dm =
    dm\<lparr>entries_gauge := entries_gauge dm - int (length cs),
       payload_bytes := payload_bytes dm - (\<Sum>k \<leftarrow> cs. int (unat (entry_payload_len (the (m k)))))\<rparr>"

subsection \<open>Operations of a shard\<close>

definition release_entry :: "disk_entry \<Rightarrow> shard_state \<Rightarrow> shard_state option" where
  "release_entry e s =
    (let (dm, sh) = s in
     case release_payload (unat (entry_payload_address e)) (dm, allocator sh) of
       None \<Rightarrow> None
     | Some (dm1, a1) \<Rightarrow>
         (case free_entry_metadata (entry_location e) (metadata_pages sh) of
            None \<Rightarrow> None
          | Some m1 \<Rightarrow> Some (dm1, sh\<lparr>allocator := a1, metadata_pages := m1\<rparr>)))"

definition remove_entry_from_index :: "object_key_hash \<Rightarrow> shard_state \<Rightarrow> shard_state option" where
  "remove_entry_from_index k s =
    (let (dm, sh) = s in
     case take_entry k (dm, entry_index sh) of
       None \<Rightarrow> None
     | Some ((dm1, idx1), None) \<Rightarrow> Some (dm1, sh\<lparr>entry_index := idx1\<rparr>)
     | Some ((dm1, idx1), Some e) \<Rightarrow> release_entry e (dm1, sh\<lparr>entry_index := idx1\<rparr>))"

definition insert_entry :: "object_key_hash \<Rightarrow> disk_entry \<Rightarrow> shard_state \<Rightarrow> shard_state option" where
  "insert_entry k e s =
    (case remove_entry_from_index k s of
       None \<Rightarrow> None
     | Some (dm1, sh1) \<Rightarrow>
         let idx = entry_index sh1;
             e1 = e\<lparr>eviction_position := length (eviction_candidates idx)\<rparr>
         in Some (dm1, sh1\<lparr>entry_index := idx\<lparr>eviction_candidates := eviction_candidates idx @ [k],
              entries_by_key := (entries_by_key idx)(k \<mapsto> e1)\<rparr>\<rparr>))"

text \<open>\<open>score\<close> is the retention scorer applied to the current histories.\<close>

definition eviction_choice :: "(object_key_hash \<Rightarrow> nat \<Rightarrow> 's::linorder) \<Rightarrow> nat \<Rightarrow> (object_key_hash \<rightharpoonup> disk_entry)
    \<Rightarrow> object_key_hash list \<Rightarrow> (object_key_hash \<times> nat) option option" where
  "eviction_choice score remaining_chunks m sample =
    (if list_all (\<lambda>k. m k \<noteq> None) sample
     then Some (map_option (\<lambda>(k, _, n). (k, n))
       (min_first (\<lambda>(k, s, n). s)
         (filter (\<lambda>(k, s, n). n \<le> remaining_chunks)
           (map (\<lambda>k. let e = the (m k) in (k, score k (unat (entry_payload_len e)), entry_chunk_count e)) sample))))
     else None)"

definition sample_and_evict_entry ::
  "(object_key_hash \<Rightarrow> nat \<Rightarrow> 's::linorder) \<Rightarrow> nat \<Rightarrow> nat \<times> nat \<Rightarrow> shard_state
    \<Rightarrow> ((nat \<times> nat) \<times> shard_state \<times> bool) option" where
  "sample_and_evict_entry score reclaim_sample_size budget s =
    (let (attempts, remaining_chunks) = budget; (dm, sh) = s; idx = entry_index sh in
     if attempts = 0 \<or> remaining_chunks = 0 then Some (budget, s, False)
     else if eviction_candidates idx = [] then Some (budget, s, False)
     else
       let (next_start, sample) =
             sample_candidates (next_sample_start idx) (eviction_candidates idx) reclaim_sample_size;
           sh1 = sh\<lparr>entry_index := idx\<lparr>next_sample_start := next_start\<rparr>\<rparr>
       in case eviction_choice score remaining_chunks (entries_by_key idx) sample of
            None \<Rightarrow> None
          | Some None \<Rightarrow> Some ((attempts - 1, remaining_chunks), (dm, sh1), True)
          | Some (Some (k, n)) \<Rightarrow>
              (case remove_entry_from_index k (dm, sh1) of
                 None \<Rightarrow> None
               | Some s2 \<Rightarrow> Some ((attempts - 1, remaining_chunks - n), s2, True)))"

subsection \<open>The index invariant\<close>

interpretation di: candidate_index eviction_position "\<lambda>i e. e\<lparr>eviction_position := i\<rparr>"
  by standard auto

definition index_ok :: "disk_entry_index \<Rightarrow> bool" where
  "index_ok idx \<longleftrightarrow> di.consistent (entries_by_key idx) (eviction_candidates idx)"

lemma take_entry_absent: "entries_by_key idx k = None \<Longrightarrow> take_entry k (dm, idx) = Some ((dm, idx), None)"
  by (simp add: take_entry_def)

lemma take_entry_present:
  assumes ok: "index_ok idx" and k: "entries_by_key idx k = Some e"
  obtains idx' where
    "take_entry k (dm, idx) = Some ((dm\<lparr>entries_gauge := entries_gauge dm - 1,
        payload_bytes := payload_bytes dm - int (unat (entry_payload_len e))\<rparr>, idx'), Some e)"
    and "index_ok idx'" and "next_sample_start idx' = next_sample_start idx"
    and "\<And>k'. map_option (\<lambda>e. e\<lparr>eviction_position := 0\<rparr>) (entries_by_key idx' k')
      = map_option (\<lambda>e. e\<lparr>eviction_position := 0\<rparr>) (((entries_by_key idx)(k := None)) k')"
    and "length (eviction_candidates idx') = length (eviction_candidates idx) - 1"
proof -
  let ?m = "entries_by_key idx" and ?cs = "eviction_candidates idx" and ?p = "eviction_position e"
  have c: "di.consistent ?m ?cs" using ok by (simp add: index_ok_def)
  from di.consistent_remove [OF c k] obtain m' where
    rep: "di.repair ?p (swap_remove ?p ?cs) (?m(k := None)) = Some m'"
    and m': "di.consistent m' (swap_remove ?p ?cs)"
      "\<And>k'. map_option (\<lambda>e. e\<lparr>eviction_position := 0\<rparr>) (m' k')
        = map_option (\<lambda>e. e\<lparr>eviction_position := 0\<rparr>) ((?m(k := None)) k')" by auto
  have p: "?p < length ?cs" using di.consistent_entry [OF c k] by simp
  let ?idx' = "idx\<lparr>entries_by_key := m', eviction_candidates := swap_remove ?p ?cs\<rparr>"
  have "take_entry k (dm, idx) = Some ((dm\<lparr>entries_gauge := entries_gauge dm - 1,
      payload_bytes := payload_bytes dm - int (unat (entry_payload_len e))\<rparr>, ?idx'), Some e)"
    using rep k p by (auto simp: take_entry_def Let_def di.repair_def split: option.splits)
  then show ?thesis using that [of ?idx'] m' by (simp add: index_ok_def)
qed

subsection \<open>The shard invariant\<close>

definition entry_meta :: "object_key_hash \<Rightarrow> disk_entry \<Rightarrow> entry_metadata" where
  "entry_meta k e = \<lparr>key = k, payload_len = entry_payload_len e, payload_address = entry_payload_address e,
    payload_checksum = entry_payload_checksum e\<rparr>"

definition entry_chunk :: "disk_entry \<Rightarrow> nat" where
  "entry_chunk e = unat (entry_payload_address e) div CHUNK_BYTES"

definition uses :: "(object_key_hash \<rightharpoonup> disk_entry) \<Rightarrow> nat \<Rightarrow> nat" where
  "uses m c = map_total (\<lambda>e. of_bool (entry_chunk e = c)) m"

definition hold_count :: "disk_chunk_allocator \<Rightarrow> nat \<Rightarrow> nat" where
  "hold_count a c = (case payload_chunks a c of None \<Rightarrow> 0 | Some (r, n) \<Rightarrow> n)"

definition payload_end :: "disk_entry \<Rightarrow> nat" where
  "payload_end e =
    (unat (entry_payload_address e) + payload_disk_bytes (unat (entry_payload_len e))) mod u64_limit"

definition inside_hold :: "disk_chunk_allocator \<Rightarrow> disk_entry \<Rightarrow> bool" where
  "inside_hold a e \<longleftrightarrow> (case payload_chunks a (entry_chunk e) of
     None \<Rightarrow> False | Some (r, n) \<Rightarrow> payload_end e \<le> snd (disk_byte_range r))"

definition shard_core :: "nat \<Rightarrow> nat \<Rightarrow> rng multiset \<Rightarrow> (nat \<Rightarrow> nat) \<Rightarrow> entry_metadata_location set
    \<Rightarrow> disk_cache_shard \<Rightarrow> bool" where
  "shard_core lo hi live pend orph sh \<longleftrightarrow>
    alloc_inv lo hi (meta_live (metadata_pages sh) + live) (allocator sh) \<and>
    index_ok (entry_index sh) \<and>
    (\<forall>k e. entries_by_key (entry_index sh) k = Some e \<longrightarrow>
      slot_at (chunks (metadata_pages sh)) (entry_location e) = Some (entry_meta k e)
      \<and> entry_location e \<notin> orph \<and> inside_hold (allocator sh) e) \<and>
    (\<forall>loc em. slot_at (chunks (metadata_pages sh)) loc = Some em \<longrightarrow> loc \<notin> orph \<longrightarrow>
      (\<exists>e. entries_by_key (entry_index sh) (key em) = Some e \<and> entry_location e = loc)) \<and>
    (\<forall>c. hold_count (allocator sh) c = uses (entries_by_key (entry_index sh)) c + pend c)"

definition shard_inv :: "nat \<Rightarrow> nat \<Rightarrow> rng multiset \<Rightarrow> disk_cache_shard \<Rightarrow> bool" where
  "shard_inv lo hi live sh \<longleftrightarrow> shard_core lo hi live (\<lambda>_. 0) {} sh \<and> meta_inv (metadata_pages sh)"

lemma shard_core_D:
  assumes "shard_core lo hi live pend orph sh"
  shows "alloc_inv lo hi (meta_live (metadata_pages sh) + live) (allocator sh)"
    and "index_ok (entry_index sh)"
    and "\<And>k e. entries_by_key (entry_index sh) k = Some e \<Longrightarrow>
      slot_at (chunks (metadata_pages sh)) (entry_location e) = Some (entry_meta k e)"
    and "\<And>k e. entries_by_key (entry_index sh) k = Some e \<Longrightarrow> entry_location e \<notin> orph"
    and "\<And>k e. entries_by_key (entry_index sh) k = Some e \<Longrightarrow> inside_hold (allocator sh) e"
    and "\<And>loc em. slot_at (chunks (metadata_pages sh)) loc = Some em \<Longrightarrow> loc \<notin> orph \<Longrightarrow>
      \<exists>e. entries_by_key (entry_index sh) (key em) = Some e \<and> entry_location e = loc"
    and "\<And>c. hold_count (allocator sh) c = uses (entries_by_key (entry_index sh)) c + pend c"
  using assms by (auto simp: shard_core_def)

text \<open>Positions in the candidate list play no role in any of this.\<close>

lemma entry_meta_position [simp]: "entry_meta k (e\<lparr>eviction_position := i\<rparr>) = entry_meta k e"
  by (simp add: entry_meta_def)

lemma entry_chunk_position [simp]: "entry_chunk (e\<lparr>eviction_position := i\<rparr>) = entry_chunk e"
  by (simp add: entry_chunk_def)

lemma payload_end_position [simp]: "payload_end (e\<lparr>eviction_position := i\<rparr>) = payload_end e"
  by (simp add: payload_end_def)

lemma inside_hold_position [simp]: "inside_hold a (e\<lparr>eviction_position := i\<rparr>) = inside_hold a e"
  by (simp add: inside_hold_def split: option.splits)

definition same_entries :: "(object_key_hash \<rightharpoonup> disk_entry) \<Rightarrow> (object_key_hash \<rightharpoonup> disk_entry) \<Rightarrow> bool" where
  "same_entries m m' \<longleftrightarrow> (\<forall>k. map_option (\<lambda>e. e\<lparr>eviction_position := 0\<rparr>) (m k)
    = map_option (\<lambda>e. e\<lparr>eviction_position := 0\<rparr>) (m' k))"

lemma same_entries_Some:
  assumes "same_entries m m'" and "m k = Some e"
  obtains e' i where "m' k = Some e'" and "e = e'\<lparr>eviction_position := i\<rparr>"
proof -
  have "map_option (\<lambda>e. e\<lparr>eviction_position := 0\<rparr>) (m' k) = Some (e\<lparr>eviction_position := 0\<rparr>)"
    using assms unfolding same_entries_def by (metis option.simps(9))
  then obtain e' where e': "m' k = Some e'" "e'\<lparr>eviction_position := 0\<rparr> = e\<lparr>eviction_position := 0\<rparr>" by auto
  have "e = (e\<lparr>eviction_position := 0\<rparr>)\<lparr>eviction_position := eviction_position e\<rparr>" by simp
  also have "\<dots> = (e'\<lparr>eviction_position := 0\<rparr>)\<lparr>eviction_position := eviction_position e\<rparr>"
    by (simp only: e'(2))
  also have "\<dots> = e'\<lparr>eviction_position := eviction_position e\<rparr>" by simp
  finally show ?thesis using that e'(1) by blast
qed

lemma same_entries_sym: "same_entries m m' \<Longrightarrow> same_entries m' m"
  by (simp add: same_entries_def)

lemma same_entries_dom: "same_entries m m' \<Longrightarrow> dom m = dom m'"
  unfolding same_entries_def dom_def by (metis (mono_tags, lifting) map_option_is_None)

lemma uses_same_entries:
  assumes "same_entries m m'"
  shows "uses m c = uses m' c"
  unfolding uses_def
proof (rule map_total_cong [OF same_entries_dom [OF assms]])
  fix k v v' assume "m k = Some v" "m' k = Some v'"
  with same_entries_Some [OF assms \<open>m k = Some v\<close>] obtain i where "v = v'\<lparr>eviction_position := i\<rparr>"
    by (metis option.inject)
  then show "of_bool (entry_chunk v = c) = (of_bool (entry_chunk v' = c) :: nat)"
    by (metis entry_chunk_position)
qed

lemma uses_insert:
  assumes "finite (dom m)" and "m k = None"
  shows "uses (m(k \<mapsto> e)) c = uses m c + of_bool (entry_chunk e = c)"
  unfolding uses_def by (rule map_total_insert [OF assms])

lemma uses_remove:
  assumes "finite (dom m)" and "m k = Some e"
  shows "uses m c = uses (m(k := None)) c + of_bool (entry_chunk e = c)"
  unfolding uses_def by (rule map_total_remove [OF assms])

lemma index_ok_finite: "index_ok idx \<Longrightarrow> finite (dom (entries_by_key idx))"
  using di.consistent_finite by (simp add: index_ok_def)

text \<open>Releasing a payload takes one use off its hold and frees the chunks with the last one.\<close>

lemma release_payload_holds:
  assumes inv: "alloc_inv lo hi live a" and held: "payload_chunks a (p div CHUNK_BYTES) = Some (r, n)"
  obtains dm' a' where "release_payload p (dm, a) = Some (dm', a')" and "alloc_inv lo hi live a'"
    and "\<And>c. hold_count a' c = hold_count a c - of_bool (p div CHUNK_BYTES = c)"
    and "\<And>c. c \<noteq> p div CHUNK_BYTES \<or> 1 < n \<Longrightarrow>
      map_option fst (payload_chunks a' c) = map_option fst (payload_chunks a c)"
proof -
  obtain dm' a' where rel: "release_payload p (dm, a) = Some (dm', a')"
    using release_payload_held [OF held] by (metis surj_pair)
  have pc: "payload_chunks a' = (if n = 1 then (payload_chunks a)(p div CHUNK_BYTES := None)
      else (payload_chunks a)(p div CHUNK_BYTES \<mapsto> (r, n - 1)))"
    using rel held by (auto simp: release_payload_def drop_reserved_chunks_def release_def Let_def split: if_splits)
  have n: "0 < n" using alloc_inv_D(4) [OF inv held] by simp
  have "hold_count a' c = hold_count a c - of_bool (p div CHUNK_BYTES = c)" for c
    using held n by (auto simp: hold_count_def pc)
  moreover have "map_option fst (payload_chunks a' c) = map_option fst (payload_chunks a c)"
    if "c \<noteq> p div CHUNK_BYTES \<or> 1 < n" for c using that held by (auto simp: pc)
  ultimately show ?thesis using that rel alloc_inv_release_payload [OF inv rel] by blast
qed

lemma inside_hold_fst:
  "map_option fst (payload_chunks a' (entry_chunk e)) = map_option fst (payload_chunks a (entry_chunk e))
    \<Longrightarrow> inside_hold a' e = inside_hold a e"
  by (auto simp: inside_hold_def split: option.splits)

lemma meta_live_set_slot:
  "chunks m' = set_slot loc v (chunks m) \<Longrightarrow> meta_live m' = meta_live m"
  unfolding meta_live_def by (intro arg_cong [of _ _ mset] nth_equalityI) (auto simp: set_slot_fields)

text \<open>An entry other than the removed one keeps its hold: the last use of a hold is the removed one.\<close>

lemma other_user:
  assumes "finite (dom m)" and "m k = Some e" and "m k' = Some e'" and "k' \<noteq> k" and "entry_chunk e' = entry_chunk e"
  shows "2 \<le> uses m (entry_chunk e)"
proof -
  have "uses m (entry_chunk e) = uses (m(k := None)) (entry_chunk e) + 1"
    using uses_remove [OF assms(1,2), of "entry_chunk e"] by simp
  moreover have "uses (m(k := None)) (entry_chunk e)
      = uses ((m(k := None))(k' := None)) (entry_chunk e) + of_bool (entry_chunk e' = entry_chunk e)"
    by (rule uses_remove) (use assms in auto)
  moreover have "of_bool (entry_chunk e' = entry_chunk e) = (1 :: nat)" using assms(5) by simp
  ultimately show ?thesis by linarith
qed

lemma user_pos:
  assumes "finite (dom m)" and "m k = Some e"
  shows "1 \<le> uses m (entry_chunk e)"
  using uses_remove [OF assms, of "entry_chunk e"] by simp

lemma shard_core_remove:
  assumes core: "shard_core lo hi live pend orph sh"
    and k: "entries_by_key (entry_index sh) k = Some e"
    and idx: "index_ok idx'" "same_entries (entries_by_key idx') ((entries_by_key (entry_index sh))(k := None))"
    and held: "payload_chunks (allocator sh) (entry_chunk e) = Some (r, n)"
    and alloc: "alloc_inv lo hi (meta_live (metadata_pages sh) + live) a'"
    and cnt: "\<And>c. hold_count a' c = hold_count (allocator sh) c - of_bool (entry_chunk e = c)"
    and keep: "\<And>c. c \<noteq> entry_chunk e \<or> 1 < n \<Longrightarrow>
        map_option fst (payload_chunks a' c) = map_option fst (payload_chunks (allocator sh) c)"
    and slots: "slot_at (chunks m') = (slot_at (chunks (metadata_pages sh)))(entry_location e := None)"
    and ml: "meta_live m' = meta_live (metadata_pages sh)"
  shows "shard_core lo hi live pend orph (sh\<lparr>entry_index := idx', allocator := a', metadata_pages := m'\<rparr>)"
proof -
  note D = shard_core_D [OF core]
  let ?m = "entries_by_key (entry_index sh)" and ?a = "allocator sh"
  have fin: "finite (dom ?m)" by (rule index_ok_finite [OF D(2)])
  have hold: "hold_count ?a (entry_chunk e) = n" using held by (simp add: hold_count_def)
  have entry: "slot_at (chunks m') (entry_location e') = Some (entry_meta k' e') \<and> entry_location e' \<notin> orph
      \<and> inside_hold a' e'" if e': "entries_by_key idx' k' = Some e'" for k' e'
  proof -
    obtain e0 i where "(?m(k := None)) k' = Some e0" and f: "e' = e0\<lparr>eviction_position := i\<rparr>"
      by (rule same_entries_Some [OF idx(2) e'])
    then have e0: "?m k' = Some e0" "k' \<noteq> k" by (auto split: if_splits)
    have "entry_location e0 \<noteq> entry_location e"
      using D(3) [OF e0(1)] D(3) [OF k] e0(2) by (auto simp: entry_meta_def)
    moreover have "entry_chunk e0 \<noteq> entry_chunk e \<or> 1 < n"
      using other_user [OF fin k e0] D(7) [of "entry_chunk e"] hold by fastforce
    then have "inside_hold a' e0 = inside_hold ?a e0" by (intro inside_hold_fst keep)
    ultimately show ?thesis using D(3,4,5) [OF e0(1)] by (simp add: slots f)
  qed
  have slot: "\<exists>e'. entries_by_key idx' (key em) = Some e' \<and> entry_location e' = loc"
    if l: "slot_at (chunks m') loc = Some em" "loc \<notin> orph" for loc em
  proof -
    have l': "slot_at (chunks (metadata_pages sh)) loc = Some em" "loc \<noteq> entry_location e"
      using l(1) by (auto simp: slots split: if_splits)
    obtain e0 where e0: "?m (key em) = Some e0" "entry_location e0 = loc" using D(6) [OF l'(1) l(2)] by blast
    then have "(?m(k := None)) (key em) = Some e0" using k l'(2) by auto
    then obtain e' i where "entries_by_key idx' (key em) = Some e'" "e0 = e'\<lparr>eviction_position := i\<rparr>"
      by (rule same_entries_Some [OF same_entries_sym [OF idx(2)]])
    then show ?thesis using e0(2) by auto
  qed
  have "hold_count a' c = uses (entries_by_key idx') c + pend c" for c
    using cnt [of c] D(7) [of c] uses_same_entries [OF idx(2), of c] uses_remove [OF fin k, of c] by simp
  then show ?thesis using alloc idx(1) entry slot by (simp add: shard_core_def ml)
qed

lemma remove_entry_present:
  assumes core: "shard_core lo hi live pend orph sh" and meta: "meta_inv (metadata_pages sh)"
    and k: "entries_by_key (entry_index sh) k = Some e"
  obtains dm' sh' where "remove_entry_from_index k (dm, sh) = Some (dm', sh')"
    and "shard_core lo hi live pend orph sh'" and "meta_inv (metadata_pages sh')"
    and "same_entries (entries_by_key (entry_index sh')) ((entries_by_key (entry_index sh))(k := None))"
    and "small_entry_buffer sh' = small_entry_buffer sh"
    and "length (chunks (metadata_pages sh')) = length (chunks (metadata_pages sh))"
    and "length (eviction_candidates (entry_index sh')) = length (eviction_candidates (entry_index sh)) - 1"
proof -
  note D = shard_core_D [OF core]
  let ?p = "unat (entry_payload_address e)"
  define dm1 where "dm1 = dm\<lparr>entries_gauge := entries_gauge dm - 1,
    payload_bytes := payload_bytes dm - int (unat (entry_payload_len e))\<rparr>"
  obtain idx' where take: "take_entry k (dm, entry_index sh) = Some ((dm1, idx'), Some e)"
    and idx': "index_ok idx'" "same_entries (entries_by_key idx') ((entries_by_key (entry_index sh))(k := None))"
      "length (eviction_candidates idx') = length (eviction_candidates (entry_index sh)) - 1"
    using take_entry_present [OF D(2) k, of dm] unfolding same_entries_def dm1_def by metis
  obtain r n where held: "payload_chunks (allocator sh) (entry_chunk e) = Some (r, n)"
    using D(5) [OF k] by (auto simp: inside_hold_def split: option.splits)
  obtain dm' a' where rel: "release_payload ?p (dm1, allocator sh) = Some (dm', a')"
    and a': "alloc_inv lo hi (meta_live (metadata_pages sh) + live) a'"
      "\<And>c. hold_count a' c = hold_count (allocator sh) c - of_bool (entry_chunk e = c)"
      "\<And>c. c \<noteq> entry_chunk e \<or> 1 < n \<Longrightarrow>
        map_option fst (payload_chunks a' c) = map_option fst (payload_chunks (allocator sh) c)"
    using release_payload_holds [OF D(1) held [unfolded entry_chunk_def], of dm1]
    unfolding entry_chunk_def by metis
  obtain m' where free: "free_entry_metadata (entry_location e) (metadata_pages sh) = Some m'"
    and m': "meta_inv m'" "slot_at (chunks m') = (slot_at (chunks (metadata_pages sh)))(entry_location e := None)"
      "chunks m' = set_slot (entry_location e) None (chunks (metadata_pages sh))"
    using free_entry_metadata_ok [OF meta D(3) [OF k]] by metis
  have "remove_entry_from_index k (dm, sh)
      = Some (dm', sh\<lparr>entry_index := idx', allocator := a', metadata_pages := m'\<rparr>)"
    by (simp add: remove_entry_from_index_def take release_entry_def rel free)
  moreover note shard_core_remove [OF core k idx'(1,2) held a' m'(2) meta_live_set_slot [OF m'(3)]]
  ultimately show ?thesis using that idx'(2,3) m'(1,3) by simp
qed

lemma remove_entry_absent:
  "entries_by_key (entry_index sh) k = None \<Longrightarrow> remove_entry_from_index k (dm, sh) = Some (dm, sh)"
  by (simp add: remove_entry_from_index_def take_entry_absent)

subsection \<open>Inserting\<close>

text \<open>An entry claims a slot that has no owner yet and one pending payload hold.\<close>

lemma insert_entry_ok:
  assumes core: "shard_core lo hi live pend orph sh"
    and k: "entries_by_key (entry_index sh) (key em) = None"
    and loc: "loc \<in> orph" "slot_at (chunks (metadata_pages sh)) loc = Some em"
    and hold: "0 < pend (entry_chunk (new_disk_entry em loc))" "inside_hold (allocator sh) (new_disk_entry em loc)"
  obtains sh' where "insert_entry (key em) (new_disk_entry em loc) (dm, sh) = Some (dm, sh')"
    and "shard_core lo hi live (pend(entry_chunk (new_disk_entry em loc) := pend (entry_chunk (new_disk_entry em loc)) - 1))
      (orph - {loc}) sh'"
    and "metadata_pages sh' = metadata_pages sh" and "allocator sh' = allocator sh"
    and "small_entry_buffer sh' = small_entry_buffer sh"
    and "entries_by_key (entry_index sh') = (entries_by_key (entry_index sh))(key em \<mapsto>
      (new_disk_entry em loc)\<lparr>eviction_position := length (eviction_candidates (entry_index sh))\<rparr>)"
proof -
  note D = shard_core_D [OF core]
  let ?idx = "entry_index sh" and ?c = "entry_chunk (new_disk_entry em loc)"
  define e where "e = (new_disk_entry em loc)\<lparr>eviction_position := length (eviction_candidates ?idx)\<rparr>"
  define sh' where "sh' = sh\<lparr>entry_index := ?idx\<lparr>eviction_candidates := eviction_candidates ?idx @ [key em],
    entries_by_key := (entries_by_key ?idx)(key em \<mapsto> e)\<rparr>\<rparr>"
  have ins: "insert_entry (key em) (new_disk_entry em loc) (dm, sh) = Some (dm, sh')"
    by (simp add: insert_entry_def remove_entry_absent [OF k] Let_def sh'_def e_def)
  have e: "entry_meta (key em) e = em" "entry_location e = loc" "entry_chunk e = ?c" "inside_hold (allocator sh) e"
    using hold(2) by (simp_all add: e_def) (simp_all add: entry_meta_def new_disk_entry_def)
  have fresh: "entry_location e' \<noteq> loc" if "entries_by_key ?idx k' = Some e'" for k' e'
    using D(4) [OF that] loc(1) by blast
  have idx: "index_ok (entry_index sh')"
    using di.consistent_push [of "entries_by_key ?idx" _ "key em" "new_disk_entry em loc"] k D(2)
    by (simp add: index_ok_def sh'_def e_def)
  have "hold_count (allocator sh) c = uses ((entries_by_key ?idx)(key em \<mapsto> e)) c + (pend(?c := pend ?c - 1)) c" for c
    using D(7) [of c] uses_insert [OF index_ok_finite [OF D(2)] k, of e c] hold(1) e(3) by auto
  moreover have "\<exists>e'. ((entries_by_key ?idx)(key em \<mapsto> e)) (key em') = Some e' \<and> entry_location e' = loc'"
    if "slot_at (chunks (metadata_pages sh)) loc' = Some em'" "loc' \<notin> orph - {loc}" for loc' em'
    using D(6) [OF that(1)] that loc(2) k e(2) by (cases "loc' = loc") auto
  ultimately have "shard_core lo hi live (pend(?c := pend ?c - 1)) (orph - {loc}) sh'"
    using D(1,3,4,5) idx e loc(2) fresh by (auto simp: shard_core_def sh'_def)
  then show ?thesis using that ins by (simp add: sh'_def e_def)
qed

text \<open>Storing metadata creates an unclaimed slot.\<close>

lemma store_entry_shard:
  assumes core: "shard_core lo hi live pend orph sh" and meta: "meta_inv (metadata_pages sh)"
    and room: "0 < free_slot_count (metadata_pages sh)"
  obtains m' loc where "store_entry_metadata em (metadata_pages sh) = Some (m', loc)" and "meta_inv m'"
    and "shard_core lo hi live pend (insert loc orph) (sh\<lparr>metadata_pages := m'\<rparr>)"
    and "slot_at (chunks m') loc = Some em"
    and "free_slot_count m' = free_slot_count (metadata_pages sh) - 1"
    and "length (chunks m') = length (chunks (metadata_pages sh))"
proof -
  note D = shard_core_D [OF core]
  obtain m' loc where st: "store_entry_metadata em (metadata_pages sh) = Some (m', loc)" "meta_inv m'"
    "slot_at (chunks (metadata_pages sh)) loc = None"
    "slot_at (chunks m') = (slot_at (chunks (metadata_pages sh)))(loc \<mapsto> em)"
    "free_slot_count m' = free_slot_count (metadata_pages sh) - 1"
    "chunks m' = set_slot loc (Some em) (chunks (metadata_pages sh))"
    using store_entry_metadata_ok [OF meta room, of em] by metis
  have ml: "meta_live m' = meta_live (metadata_pages sh)" by (rule meta_live_set_slot [OF st(6)])
  have fresh: "entry_location e \<noteq> loc" if "entries_by_key (entry_index sh) k = Some e" for k e
    using D(3) [OF that] st(3) by auto
  have "shard_core lo hi live pend (insert loc orph) (sh\<lparr>metadata_pages := m'\<rparr>)"
    using D fresh by (auto simp: shard_core_def st(4) ml)
  then show ?thesis using that st by (simp add: st(6))
qed

text \<open>Holding a reservation for a number of payloads makes that many pending holds.\<close>

lemma hold_shard:
  fixes dm :: disk_metrics
  assumes core: "shard_core lo hi (add_mset (chunk_numbers r) live) pend orph sh" and n: "0 < n"
    and p: "pend (fst (chunk_numbers r)) = 0"
  defines "s' \<equiv> hold_chunks_until_payloads_released r n (dm, allocator sh)"
  shows "shard_core lo hi live (pend(fst (chunk_numbers r) := n)) orph (sh\<lparr>allocator := snd s'\<rparr>)"
    and "payload_chunks (snd s') = (payload_chunks (allocator sh))(fst (chunk_numbers r) \<mapsto> (r, n))"
    and "fst s' = dm"
proof -
  note D = shard_core_D [OF core]
  let ?c = "fst (chunk_numbers r)"
  have inv: "alloc_inv lo hi (add_mset (chunk_numbers r) (meta_live (metadata_pages sh) + live)) (allocator sh)"
    using D(1) by simp
  have none: "payload_chunks (allocator sh) ?c = None" using live_not_free(3) [OF inv] by simp
  show pc: "payload_chunks (snd s') = (payload_chunks (allocator sh))(?c \<mapsto> (r, n))" and "fst s' = dm"
    using none by (simp_all add: s'_def hold_chunks_until_payloads_released_def Let_def)
  have alloc: "alloc_inv lo hi (meta_live (metadata_pages sh) + live) (snd s')"
    unfolding s'_def by (rule alloc_inv_hold_until_released [OF inv n])
  have free: "uses (entries_by_key (entry_index sh)) ?c = 0" using D(7) [of ?c] none by (simp add: hold_count_def)
  have "entry_chunk e \<noteq> ?c" if "entries_by_key (entry_index sh) k = Some e" for k e
    using user_pos [OF index_ok_finite [OF D(2)] that] free by auto
  then have "inside_hold (snd s') e" if "entries_by_key (entry_index sh) k = Some e" for k e
    using D(5) [OF that] that by (simp add: inside_hold_def pc)
  moreover have "hold_count (snd s') c = uses (entries_by_key (entry_index sh)) c + (pend(?c := n)) c" for c
    using D(7) [of c] free by (simp add: hold_count_def pc)
  ultimately show "shard_core lo hi live (pend(?c := n)) orph (sh\<lparr>allocator := snd s'\<rparr>)"
    using alloc D(2,3,4,6) by (simp add: shard_core_def)
qed

text \<open>Releasing a pending hold again.\<close>

lemma release_pending_shard:
  assumes core: "shard_core lo hi live pend orph sh" and p: "0 < pend (p div CHUNK_BYTES)"
  obtains dm' a' where "release_payload p (dm, allocator sh) = Some (dm', a')"
    and "shard_core lo hi live (pend(p div CHUNK_BYTES := pend (p div CHUNK_BYTES) - 1)) orph (sh\<lparr>allocator := a'\<rparr>)"
    and "\<And>c. c \<noteq> p div CHUNK_BYTES \<or> 1 < pend (p div CHUNK_BYTES) \<Longrightarrow>
      map_option fst (payload_chunks a' c) = map_option fst (payload_chunks (allocator sh) c)"
proof -
  note D = shard_core_D [OF core]
  let ?c = "p div CHUNK_BYTES"
  have "hold_count (allocator sh) ?c \<noteq> 0" using D(7) [of ?c] p by simp
  then obtain r n where held: "payload_chunks (allocator sh) ?c = Some (r, n)"
    by (auto simp: hold_count_def split: option.splits)
  have n: "n = uses (entries_by_key (entry_index sh)) ?c + pend ?c" using D(7) [of ?c] held by (simp add: hold_count_def)
  obtain dm' a' where rel: "release_payload p (dm, allocator sh) = Some (dm', a')"
    and a': "alloc_inv lo hi (meta_live (metadata_pages sh) + live) a'"
      "\<And>c. hold_count a' c = hold_count (allocator sh) c - of_bool (?c = c)"
      "\<And>c. c \<noteq> ?c \<or> 1 < n \<Longrightarrow> map_option fst (payload_chunks a' c) = map_option fst (payload_chunks (allocator sh) c)"
    using release_payload_holds [OF D(1) held, of dm] by metis
  have "inside_hold a' e" if k: "entries_by_key (entry_index sh) k = Some e" for k e
  proof -
    have "entry_chunk e \<noteq> ?c \<or> 1 < n" using user_pos [OF index_ok_finite [OF D(2)] k] n p by fastforce
    then have "inside_hold a' e = inside_hold (allocator sh) e" by (intro inside_hold_fst a'(3))
    then show ?thesis using D(5) [OF k] by simp
  qed
  moreover have "hold_count a' c = uses (entries_by_key (entry_index sh)) c + (pend(?c := pend ?c - 1)) c" for c
    using a'(2) [of c] D(7) [of c] p by auto
  ultimately have "shard_core lo hi live (pend(?c := pend ?c - 1)) orph (sh\<lparr>allocator := a'\<rparr>)"
    using a'(1) D(2,3,4,6) by (simp add: shard_core_def)
  then show ?thesis using that rel a'(3) n by (metis add_lessD1 less_add_same_cancel1 trans_less_add2)
qed

lemma ensure_free_slots_shard:
  assumes core: "shard_core lo hi live pend orph sh" and meta: "meta_inv (metadata_pages sh)"
    and ens: "ensure_free_slots n (dm, allocator sh) (metadata_pages sh) = Some ((dm', a'), m')"
  shows "shard_core lo hi live pend orph (sh\<lparr>allocator := a', metadata_pages := m'\<rparr>)" and "meta_inv m'"
    and "n \<le> ENTRIES_PER_METADATA_CHUNK \<Longrightarrow> n \<le> free_slot_count m'"
proof -
  note D = shard_core_D [OF core]
  have al: "alloc_inv lo hi (meta_live (metadata_pages sh) + live) (snd (dm, allocator sh))" using D(1) by simp
  note E = ensure_free_slots_ok [OF meta al ens]
  have "inside_hold a' e = inside_hold (allocator sh) e" for e
    by (rule inside_hold_fst) (use E(6) in simp)
  moreover have "hold_count a' c = hold_count (allocator sh) c" for c using E(6) by (simp add: hold_count_def)
  ultimately show "shard_core lo hi live pend orph (sh\<lparr>allocator := a', metadata_pages := m'\<rparr>)"
    using D E(2,3) by (simp add: shard_core_def)
  show "meta_inv m'" by (rule E(1))
  show "n \<le> free_slot_count m'" if "n \<le> ENTRIES_PER_METADATA_CHUNK" by (rule E(5) [OF that])
qed

subsection \<open>Eviction\<close>

definition sampled_keys :: "nat \<Rightarrow> disk_cache_shard \<Rightarrow> object_key_hash list" where
  "sampled_keys n sh = snd (sample_candidates (next_sample_start (entry_index sh)) (eviction_candidates (entry_index sh)) n)"

text \<open>The victim is a sampled entry within the chunk budget, of the lowest score among those.\<close>

definition lowest_score_victim :: "(object_key_hash \<Rightarrow> nat \<Rightarrow> 's::linorder) \<Rightarrow> nat \<Rightarrow> disk_cache_shard
    \<Rightarrow> object_key_hash list \<Rightarrow> object_key_hash \<Rightarrow> disk_entry \<Rightarrow> bool" where
  "lowest_score_victim score budget sh sample k e \<longleftrightarrow>
    k \<in> set sample \<and> entries_by_key (entry_index sh) k = Some e \<and> entry_chunk_count e \<le> budget \<and>
    (\<forall>k' \<in> set sample. \<forall>e'. entries_by_key (entry_index sh) k' = Some e' \<longrightarrow> entry_chunk_count e' \<le> budget \<longrightarrow>
      score k (unat (entry_payload_len e)) \<le> score k' (unat (entry_payload_len e')))"

lemma eviction_choice_ok:
  assumes "set sample \<subseteq> dom m"
  shows "\<exists>r. eviction_choice score budget m sample = Some r \<and>
    (case r of
       None \<Rightarrow> \<forall>k \<in> set sample. \<forall>e. m k = Some e \<longrightarrow> budget < entry_chunk_count e
     | Some (k, n) \<Rightarrow> \<exists>e. k \<in> set sample \<and> m k = Some e \<and> n = entry_chunk_count e \<and> n \<le> budget \<and>
         (\<forall>k' \<in> set sample. \<forall>e'. m k' = Some e' \<longrightarrow> entry_chunk_count e' \<le> budget \<longrightarrow>
           score k (unat (entry_payload_len e)) \<le> score k' (unat (entry_payload_len e'))))"
proof -
  let ?f = "\<lambda>k. let e = the (m k) in (k, score k (unat (entry_payload_len e)), entry_chunk_count e)"
  let ?xs = "filter (\<lambda>(k, s, n). n \<le> budget) (map ?f sample)"
  have all: "list_all (\<lambda>k. m k \<noteq> None) sample" using assms by (auto simp: list_all_iff)
  show ?thesis
  proof (cases "min_first (\<lambda>(k, s, n). s) ?xs")
    case None
    then have "?xs = []" by simp
    then have "\<forall>x \<in> set sample. budget < entry_chunk_count (the (m x))"
      by (auto simp: filter_empty_conv Let_def not_le)
    then show ?thesis using None all by (intro exI [of _ None]) (auto simp: eviction_choice_def)
  next
    case (Some x)
    from min_first_Some [OF this] have x: "x \<in> set ?xs" "\<forall>y \<in> set ?xs. (case x of (k, s, n) \<Rightarrow> s) \<le> (case y of (k, s, n) \<Rightarrow> s)"
      by auto
    from x(1) obtain k where k: "k \<in> set sample" "x = ?f k" "entry_chunk_count (the (m k)) \<le> budget"
      by (auto simp: Let_def)
    obtain e where e: "m k = Some e" using k(1) assms by blast
    have "score k (unat (entry_payload_len e)) \<le> score k' (unat (entry_payload_len e'))"
      if "k' \<in> set sample" "m k' = Some e'" "entry_chunk_count e' \<le> budget" for k' e'
      using x(2) [rule_format, of "?f k'"] that k(2) e by (force simp: Let_def)
    then show ?thesis
      using Some all k e by (intro exI [of _ "Some (k, entry_chunk_count e)"]) (auto simp: eviction_choice_def Let_def)
  qed
qed

lemma shard_core_sample_start:
  "shard_core lo hi live pend orph (sh\<lparr>entry_index := (entry_index sh)\<lparr>next_sample_start := i\<rparr>\<rparr>)
    = shard_core lo hi live pend orph sh"
  by (simp add: shard_core_def index_ok_def)

text \<open>Everything an eviction attempt may do: nothing, when the budget is used up or there are no
  candidates; only advance the sample, when no sampled entry fits the budget; or remove one victim.\<close>

definition eviction_result :: "(object_key_hash \<Rightarrow> nat \<Rightarrow> 's::linorder) \<Rightarrow> nat \<Rightarrow> nat \<times> nat \<Rightarrow> disk_cache_shard
    \<Rightarrow> nat \<times> nat \<Rightarrow> disk_cache_shard \<Rightarrow> bool \<Rightarrow> bool" where
  "eviction_result score sample_size budget sh budget' sh' sampled \<longleftrightarrow>
    (if \<not> sampled
     then budget' = budget \<and> sh' = sh
       \<and> (fst budget = 0 \<or> snd budget = 0 \<or> eviction_candidates (entry_index sh) = [])
     else fst budget = Suc (fst budget') \<and>
       ((entries_by_key (entry_index sh') = entries_by_key (entry_index sh) \<and> snd budget' = snd budget
          \<and> (\<forall>k \<in> set (sampled_keys sample_size sh). \<forall>e. entries_by_key (entry_index sh) k = Some e
               \<longrightarrow> snd budget < entry_chunk_count e))
        \<or> (\<exists>k e. lowest_score_victim score (snd budget) sh (sampled_keys sample_size sh) k e
             \<and> same_entries (entries_by_key (entry_index sh')) ((entries_by_key (entry_index sh))(k := None))
             \<and> snd budget = snd budget' + entry_chunk_count e)))"

lemma sample_and_evict_core:
  assumes core: "shard_core lo hi live pend orph sh" and meta: "meta_inv (metadata_pages sh)"
  obtains budget' dm' sh' sampled where
    "sample_and_evict_entry score n budget (dm, sh) = Some (budget', (dm', sh'), sampled)"
    and "shard_core lo hi live pend orph sh'" and "meta_inv (metadata_pages sh')"
    and "eviction_result score n budget sh budget' sh' sampled"
    and "small_entry_buffer sh' = small_entry_buffer sh"
    and "length (chunks (metadata_pages sh')) = length (chunks (metadata_pages sh))"
proof (cases "fst budget = 0 \<or> snd budget = 0 \<or> eviction_candidates (entry_index sh) = []")
  case True
  then have "sample_and_evict_entry score n budget (dm, sh) = Some (budget, (dm, sh), False)"
    by (cases budget) (auto simp: sample_and_evict_entry_def Let_def)
  then show ?thesis using that [of budget dm sh False] core meta True by (simp add: eviction_result_def)
next
  case False
  let ?idx = "entry_index sh" and ?sample = "sampled_keys n sh"
  define sh1 where "sh1 = sh\<lparr>entry_index := ?idx\<lparr>next_sample_start :=
    fst (sample_candidates (next_sample_start ?idx) (eviction_candidates ?idx) n)\<rparr>\<rparr>"
  have sub: "set ?sample \<subseteq> dom (entries_by_key ?idx)"
    using set_sample [of "next_sample_start ?idx" "eviction_candidates ?idx" n] shard_core_D(2) [OF core]
      di.consistent_dom [of "entries_by_key ?idx" "eviction_candidates ?idx"]
    unfolding sampled_keys_def index_ok_def by auto
  have core1: "shard_core lo hi live pend orph sh1" using core unfolding sh1_def shard_core_sample_start .
  have sh1: "metadata_pages sh1 = metadata_pages sh" "entries_by_key (entry_index sh1) = entries_by_key ?idx"
    "small_entry_buffer sh1 = small_entry_buffer sh" by (simp_all add: sh1_def)
  obtain att rem where b: "budget = (Suc att, rem)" "0 < rem" using False by (cases budget; cases "fst budget") auto
  obtain r where r: "eviction_choice score rem (entries_by_key ?idx) ?sample = Some r"
    and P: "case r of
       None \<Rightarrow> \<forall>k \<in> set ?sample. \<forall>e. entries_by_key ?idx k = Some e \<longrightarrow> rem < entry_chunk_count e
     | Some (k, c) \<Rightarrow> \<exists>e. k \<in> set ?sample \<and> entries_by_key ?idx k = Some e \<and> c = entry_chunk_count e \<and> c \<le> rem \<and>
         (\<forall>k' \<in> set ?sample. \<forall>e'. entries_by_key ?idx k' = Some e' \<longrightarrow> entry_chunk_count e' \<le> rem \<longrightarrow>
           score k (unat (entry_payload_len e)) \<le> score k' (unat (entry_payload_len e')))"
    using eviction_choice_ok [OF sub, of score rem] by blast
  have step: "sample_and_evict_entry score n budget (dm, sh) = (case r of
      None \<Rightarrow> Some ((att, rem), (dm, sh1), True)
    | Some (k, c) \<Rightarrow> (case remove_entry_from_index k (dm, sh1) of
        None \<Rightarrow> None | Some s2 \<Rightarrow> Some ((att, rem - c), s2, True)))"
    using r False b unfolding sample_and_evict_entry_def sampled_keys_def sh1_def
    by (auto simp: Let_def case_prod_beta split: option.splits)
  show ?thesis
  proof (cases r)
    case None
    then show ?thesis using that [of "(att, rem)" dm sh1 True] step P core1 meta b sh1
      by (simp add: eviction_result_def)
  next
    case (Some kc)
    obtain k c where kc: "kc = (k, c)" by (cases kc)
    then obtain e where e: "k \<in> set ?sample" "entries_by_key ?idx k = Some e" "c = entry_chunk_count e" "c \<le> rem"
      "\<forall>k' \<in> set ?sample. \<forall>e'. entries_by_key ?idx k' = Some e' \<longrightarrow> entry_chunk_count e' \<le> rem \<longrightarrow>
           score k (unat (entry_payload_len e)) \<le> score k' (unat (entry_payload_len e'))"
      using P Some by auto
    obtain dm' sh' where rm: "remove_entry_from_index k (dm, sh1) = Some (dm', sh')"
      and sh': "shard_core lo hi live pend orph sh'" "meta_inv (metadata_pages sh')"
        "same_entries (entries_by_key (entry_index sh')) ((entries_by_key ?idx)(k := None))"
        "small_entry_buffer sh' = small_entry_buffer sh"
        "length (chunks (metadata_pages sh')) = length (chunks (metadata_pages sh))"
      using remove_entry_present [OF core1, of k e dm] meta e(2) unfolding sh1 by metis
    have v: "lowest_score_victim score rem sh ?sample k e" using e by (simp add: lowest_score_victim_def)
    have "rem = (rem - c) + entry_chunk_count e" using e(3,4) by simp
    then have "eviction_result score n budget sh (att, rem - c) sh' True"
      using v sh'(3) b(1) unfolding eviction_result_def by (simp only: fst_conv snd_conv not_True_eq_False if_False) blast
    then show ?thesis using that [of "(att, rem - c)" dm' sh' True] step Some kc rm sh' by simp
  qed
qed

text \<open>C24: One eviction attempt never panics and keeps the shard invariant: index, candidate list,
  metadata slots and payload holds stay consistent and no chunk is lost or owned twice. It samples
  unless the budget is used up or there is no candidate, each sampling takes one attempt, and it
  removes at most one entry, one of the lowest score among the sampled entries within the chunk budget,
  paying its chunk count; it removes nothing only when no sampled entry fits the budget.\<close>

theorem eviction_attempt:
  assumes "shard_inv lo hi live sh"
  shows "\<exists>budget' dm' sh' sampled.
    sample_and_evict_entry score n budget (dm, sh) = Some (budget', (dm', sh'), sampled)
    \<and> shard_inv lo hi live sh' \<and> eviction_result score n budget sh budget' sh' sampled"
proof -
  from assms have core: "shard_core lo hi live (\<lambda>_. 0) {} sh" and meta: "meta_inv (metadata_pages sh)"
    by (auto simp: shard_inv_def)
  from sample_and_evict_core [OF this, where score = score and n = n and budget = budget and dm = dm] show ?thesis
    unfolding shard_inv_def by metis
qed

definition example_entry :: entry_metadata where
  "example_entry = \<lparr>key = 7, payload_len = 5000, payload_address = 2097152, payload_checksum = 9\<rparr>"

text \<open>A shard of the chunks 1 and 2: chunk 1 is the metadata chunk and chunk 2 holds one payload.\<close>

definition example_shard0 :: disk_cache_shard where
  "example_shard0 = \<lparr>allocator = \<lparr>free = [], chunk_capacity = 2,
      payload_chunks = [2 \<mapsto> (\<lparr>chunk_numbers = (2, 3), recovered = False\<rparr>, 1)]\<rparr>,
    entry_index = new_disk_entry_index, metadata_pages = example_metadata,
    small_entry_buffer = \<lparr>buffer = [], buffered_entries = []\<rparr>\<rparr>"

lemma example_shard0_core: "shard_core 1 3 {#} ((\<lambda>_. 0)(2 := 1)) {} example_shard0"
proof -
  have live: "meta_live example_metadata = {#(1, 2)#}"
    by (simp add: meta_live_def example_metadata_def example_chunk_def)
  have "alloc_inv 1 3 {#(1, 2)#} (allocator example_shard0)"
    by (auto simp: alloc_inv_def example_shard0_def runs_ok_def owners_def live_count_def held_count_def
        runs_set_def map_total_def)
  moreover have "index_ok new_disk_entry_index"
    by (simp add: index_ok_def new_disk_entry_index_def di.consistent_empty)
  moreover have "slot_at (chunks example_metadata) loc = None" for loc
    by (cases loc) (auto simp: example_metadata_def example_chunk_def slot_at_def valid_loc_def)
  moreover have "hold_count (allocator example_shard0) c
      = uses (entries_by_key (entry_index example_shard0)) c + ((\<lambda>_. 0)(2 := 1)) c" for c
    by (auto simp: hold_count_def uses_def map_total_def example_shard0_def new_disk_entry_index_def)
  ultimately show ?thesis
    unfolding shard_core_def by (simp add: example_shard0_def live new_disk_entry_index_def)
qed

lemma example_entry_chunk: "entry_chunk (new_disk_entry example_entry loc) = 2"
  by (simp add: entry_chunk_def new_disk_entry_def example_entry_def CHUNK_BYTES_def)

lemma example_inside: "inside_hold (allocator example_shard0) (new_disk_entry example_entry loc)"
  by (simp add: inside_hold_def example_entry_chunk)
     (simp add: example_shard0_def payload_end_def new_disk_entry_def example_entry_def disk_byte_range_def
      CHUNK_BYTES_def payload_disk_bytes_def next_multiple_of_def DIRECT_IO_ALIGNMENT_BYTES_def u64_limit_def)

definition example_shard :: disk_cache_shard where
  "example_shard =
    (let (m', loc) = the (store_entry_metadata example_entry (metadata_pages example_shard0))
     in snd (the (insert_entry (key example_entry) (new_disk_entry example_entry loc)
          (new_disk_metrics, example_shard0\<lparr>metadata_pages := m'\<rparr>))))"

lemma example_shard_inv: "shard_inv 1 3 {#} example_shard"
  and example_shard_entries: "\<exists>loc. entries_by_key (entry_index example_shard)
    = [7 \<mapsto> (new_disk_entry example_entry loc)\<lparr>eviction_position := 0\<rparr>]"
  and example_shard_chunks: "\<exists>loc. chunks (metadata_pages example_shard) = set_slot loc (Some example_entry) [example_chunk]"
  and example_shard_allocator: "allocator example_shard = allocator example_shard0"
proof -
  have meta: "meta_inv (metadata_pages example_shard0)" "0 < free_slot_count (metadata_pages example_shard0)"
    using example_metadata_inv example_metadata_room by (simp_all add: example_shard0_def)
  obtain m' loc where st: "store_entry_metadata example_entry (metadata_pages example_shard0) = Some (m', loc)"
    "meta_inv m'" "shard_core 1 3 {#} ((\<lambda>_. 0)(2 := 1)) {loc} (example_shard0\<lparr>metadata_pages := m'\<rparr>)"
    "slot_at (chunks m') loc = Some example_entry"
    using store_entry_shard [OF example_shard0_core meta, of example_entry] by metis
  have cs: "\<exists>loc. chunks m' = set_slot loc (Some example_entry) [example_chunk]"
    using st(1) by (auto simp: store_entry_metadata_def mark_page_dirty_def example_shard0_def example_metadata_def
        split: option.splits)
  let ?sh = "example_shard0\<lparr>metadata_pages := m'\<rparr>"
  have none: "entries_by_key (entry_index ?sh) = Map.empty" "eviction_candidates (entry_index ?sh) = []" "key example_entry = 7"
    by (simp_all add: example_shard0_def new_disk_entry_index_def example_entry_def)
  from insert_entry_ok [OF st(3), of example_entry loc new_disk_metrics] obtain sh' where
    ins: "insert_entry (key example_entry) (new_disk_entry example_entry loc) (new_disk_metrics, ?sh) = Some (new_disk_metrics, sh')"
    and sh': "shard_core 1 3 {#} (\<lambda>_. 0) {} sh'" "metadata_pages sh' = m'" "allocator sh' = allocator example_shard0"
      "entries_by_key (entry_index sh') = [7 \<mapsto> (new_disk_entry example_entry loc)\<lparr>eviction_position := 0\<rparr>]"
    using example_inside st(4) none by (auto simp: example_entry_chunk fun_upd_idem)
  have e: "example_shard = sh'" using st(1) ins by (simp add: example_shard_def)
  show "shard_inv 1 3 {#} example_shard" using sh'(1,2) st(2) by (simp add: e shard_inv_def)
  show "\<exists>loc. entries_by_key (entry_index example_shard) = [7 \<mapsto> (new_disk_entry example_entry loc)\<lparr>eviction_position := 0\<rparr>]"
    using sh'(4) by (auto simp: e)
  show "\<exists>loc. chunks (metadata_pages example_shard) = set_slot loc (Some example_entry) [example_chunk]"
    using cs sh'(2) by (simp add: e)
  show "allocator example_shard = allocator example_shard0" using sh'(3) by (simp add: e)
qed

theorem eviction_attempt_witness:
  "\<exists>budget' dm' sh' sampled.
    sample_and_evict_entry (\<lambda>k n. n) 16 (64, 4096) (new_disk_metrics, example_shard) = Some (budget', (dm', sh'), sampled)
    \<and> shard_inv 1 3 {#} sh' \<and> eviction_result (\<lambda>k n. n) 16 (64, 4096) example_shard budget' sh' sampled"
  by (rule eviction_attempt [OF example_shard_inv])

end
