(* ===== verification/Recovery.thy ===== *)
theory Recovery
  imports Disk_Shard
begin

text \<open>
  Recovery of a shard from its metadata chain, \<open>feuer-storage/src/disk_cache/recovery.rs\<close>: the
  disk range of a shard, the loop that follows the chain, and the scan that accepts or rejects the
  decoded entries. The loop is a \<open>partial_function\<close>: a chain on disk may be cyclic or damaged, and
  that the loop still returns is a theorem. The \<open>n\<close>-th read has the outcome \<open>ocs n\<close>.
\<close>

subsection \<open>The range of a shard\<close>

definition shard_disk_range :: "nat \<Rightarrow> nat \<Rightarrow> nat \<Rightarrow> rng" where
  "shard_disk_range cap num_shards i =
    (let chunks_after_header = cap div CHUNK_BYTES - 1
     in ((1 + chunks_after_header * i div num_shards) * CHUNK_BYTES,
         (1 + chunks_after_header * (i + 1) div num_shards) * CHUNK_BYTES))"

definition shard_index_for_key :: "nat \<Rightarrow> object_key_hash \<Rightarrow> nat" where
  "shard_index_for_key num_shards k = unat k mod num_shards"

subsection \<open>Following the chain\<close>

text \<open>The chunk decoded from its bytes, and the link it holds when its link page is valid.\<close>

definition decode_metadata_chunk ::
  "(byte list \<Rightarrow> u64) \<Rightarrow> reserved_chunks \<Rightarrow> byte list \<Rightarrow> metadata_chunk \<times> u64 option" where
  "decode_metadata_chunk xxh r bytes =
    (let split = ENTRY_METADATA_PAGES_PER_CHUNK * METADATA_PAGE_BYTES;
         entry_pages = take split bytes;
         link_page = drop split bytes;
         slots = concat (map (decode_entry_page xxh) (chunks_exact METADATA_PAGE_BYTES entry_pages));
         next_address = map_option (\<lambda>contents. read_u64 contents 0) (validate_page xxh link_page NEXT_CHUNK_PAGE_TAG)
     in (\<lparr>reserved_chunk = r, entries = slots,
          next_chunk_address = (case next_address of Some a \<Rightarrow> a | None \<Rightarrow> NO_CHUNK), needs_full_write = False\<rparr>,
         next_address))"

partial_function (option) load_metadata_chunks ::
  "(byte list \<Rightarrow> u64) \<Rightarrow> (nat \<Rightarrow> io_outcome) \<Rightarrow> u64 \<Rightarrow> alloc_state \<Rightarrow> data_file \<Rightarrow> metadata_chunk list
    \<Rightarrow> (u64 \<times> alloc_state \<times> data_file \<times> metadata_chunk list) option" where
  "load_metadata_chunks xxh ocs address s f cs =
    (if address \<noteq> NO_CHUNK \<and> CHUNK_BYTES dvd unat address then
       (case reserve_chunks_at (unat address div CHUNK_BYTES) 1 s of
          None \<Rightarrow> Some (address, s, f, cs)
        | Some (s1, r) \<Rightarrow>
            (case read_at (ocs 0) (unat address) CHUNK_BYTES f of
               (f1, Inl _) \<Rightarrow> Some (address, drop_reserved_chunks r s1, f1, cs)
             | (f1, Inr bytes) \<Rightarrow>
                 if list_all (\<lambda>b. b = 0) bytes then Some (address, drop_reserved_chunks r s1, f1, cs)
                 else
                   let (dm2, r2) = mark_recovered (fst s1) r;
                       (chunk, next_address) = decode_metadata_chunk xxh r2 bytes
                   in (case next_address of
                         Some a \<Rightarrow> load_metadata_chunks xxh (\<lambda>n. ocs (Suc n)) a (dm2, snd s1) f1 (cs @ [chunk])
                       | None \<Rightarrow> Some (address, (dm2, snd s1), f1, cs @ [chunk]))))
     else Some (address, s, f, cs))"

definition load_metadata_chain ::
  "(byte list \<Rightarrow> u64) \<Rightarrow> (nat \<Rightarrow> io_outcome) \<Rightarrow> u64 \<Rightarrow> alloc_state \<Rightarrow> data_file
    \<Rightarrow> (alloc_state \<times> data_file \<times> metadata_chunks) option" where
  "load_metadata_chain xxh ocs address s f =
    (case load_metadata_chunks xxh ocs address s f [] of
       None \<Rightarrow> None
     | Some (address', s', f', cs) \<Rightarrow>
         let m = default_metadata_chunks\<lparr>chunks := cs\<rparr>
         in Some (s', f', if address' \<noteq> NO_CHUNK then set_last_chunk_link NO_CHUNK m else m))"

subsection \<open>Accepting entries\<close>

text \<open>The payload range of an entry. The addition wraps in a release build.\<close>

definition recovered_payload :: "entry_metadata \<Rightarrow> rng" where
  "recovered_payload em = (unat (payload_address em),
    (unat (payload_address em) + payload_disk_bytes (unat (payload_len em))) mod u64_limit)"

text \<open>One iteration of the scan, with the numbers of entries and payload bytes recovered so far.\<close>

definition recover_slot ::
  "nat \<Rightarrow> nat \<Rightarrow> entry_metadata_location \<Rightarrow> shard_state \<times> nat \<times> nat \<Rightarrow> (shard_state \<times> nat \<times> nat) option" where
  "recover_slot num_shards shard_index loc acc =
    (let ((dm, sh), recovered_entries, recovered_payload_bytes) = acc in
     case slot_at (chunks (metadata_pages sh)) loc of
       None \<Rightarrow> Some acc
     | Some em \<Rightarrow>
         let reject = sh\<lparr>metadata_pages := (metadata_pages sh)\<lparr>chunks := set_slot loc None (chunks (metadata_pages sh))\<rparr>\<rparr> in
         if shard_index_for_key num_shards (key em) \<noteq> shard_index
            \<or> entries_by_key (entry_index sh) (key em) \<noteq> None
         then Some ((dm, reject), recovered_entries, recovered_payload_bytes)
         else (case hold_chunks_for_recovered_payload (recovered_payload em) (dm, allocator sh) of
             None \<Rightarrow> Some ((dm, reject), recovered_entries, recovered_payload_bytes)
           | Some (dm1, a1) \<Rightarrow>
               (case insert_entry (key em) (new_disk_entry em loc) (dm1, sh\<lparr>allocator := a1\<rparr>) of
                  None \<Rightarrow> None
                | Some s2 \<Rightarrow> Some (s2, recovered_entries + 1, recovered_payload_bytes + unat (payload_len em)))))"

fun recover_slots ::
  "nat \<Rightarrow> nat \<Rightarrow> entry_metadata_location list \<Rightarrow> shard_state \<times> nat \<times> nat \<Rightarrow> (shard_state \<times> nat \<times> nat) option" where
  "recover_slots num_shards shard_index [] acc = Some acc"
| "recover_slots num_shards shard_index (loc # locs) acc =
    (case recover_slot num_shards shard_index loc acc of
       None \<Rightarrow> None | Some acc1 \<Rightarrow> recover_slots num_shards shard_index locs acc1)"

definition slot_locations :: "nat \<Rightarrow> entry_metadata_location list" where
  "slot_locations n = concat (map (\<lambda>c. map (EntryMetadataLocation c) [0..<ENTRIES_PER_METADATA_CHUNK]) [0..<n])"

definition recover_shard ::
  "(byte list \<Rightarrow> u64) \<Rightarrow> (nat \<Rightarrow> io_outcome) \<Rightarrow> nat \<Rightarrow> nat \<Rightarrow> data_file \<times> shard_state
    \<Rightarrow> (data_file \<times> shard_state) option" where
  "recover_shard xxh ocs num_shards shard_index fs =
    (let (f, dm, sh) = fs;
         start = fst (shard_disk_range (capacity f) num_shards shard_index)
     in case load_metadata_chain xxh ocs (of_nat start) (dm, allocator sh) f of
          None \<Rightarrow> None
        | Some ((dm1, a1), f1, m1) \<Rightarrow>
            (case recover_slots num_shards shard_index (slot_locations (length (chunks m1)))
                    ((dm1, sh\<lparr>allocator := a1, metadata_pages := m1\<rparr>), 0, 0) of
               None \<Rightarrow> None
             | Some ((dm2, sh2), n, bytes) \<Rightarrow>
                 let dm3 = (if n \<noteq> 0 then dm2\<lparr>entries_gauge := entries_gauge dm2 + int n,
                               payload_bytes := payload_bytes dm2 + int bytes\<rparr> else dm2)
                 in Some (f1, dm3, sh2\<lparr>metadata_pages := reset_free_slots (metadata_pages sh2)\<rparr>)))"

text \<open>A shard as \<open>DiskCache::open\<close> creates it.\<close>

definition new_small_entry_buffer :: small_entry_buffer where
  "new_small_entry_buffer = \<lparr>buffer = replicate CHUNK_BYTES 0, buffered_entries = []\<rparr>"

definition new_disk_cache_shard :: "rng \<Rightarrow> disk_metrics \<Rightarrow> shard_state" where
  "new_disk_cache_shard disk_range dm =
    (let (dm1, a) = with_metrics disk_range dm
     in (dm1, \<lparr>allocator = a, entry_index = new_disk_entry_index, metadata_pages = default_metadata_chunks,
          small_entry_buffer = new_small_entry_buffer\<rparr>))"

subsection \<open>Shards partition the file\<close>

lemma shard_range_step: "snd (shard_disk_range cap n i) = fst (shard_disk_range cap n (i + 1))"
  by (simp add: shard_disk_range_def Let_def)

lemma shard_range_mono:
  assumes "i \<le> j"
  shows "fst (shard_disk_range cap n i) \<le> fst (shard_disk_range cap n j)"
  using assms by (simp add: shard_disk_range_def Let_def div_le_mono)

lemma shard_range_nonempty:
  assumes "0 < n" and "n \<le> cap div CHUNK_BYTES - 1"
  shows "fst (shard_disk_range cap n i) + CHUNK_BYTES \<le> snd (shard_disk_range cap n i)"
proof -
  let ?c = "cap div CHUNK_BYTES - 1"
  have "?c * i div n + 1 = (?c * i + n) div n" using assms(1) by simp
  also have "\<dots> \<le> ?c * (i + 1) div n" using assms(2) by (intro div_le_mono) simp
  finally have "(1 + ?c * i div n + 1) * CHUNK_BYTES \<le> (1 + ?c * (i + 1) div n) * CHUNK_BYTES"
    by (intro mult_le_mono1) linarith
  then show ?thesis by (simp add: shard_disk_range_def Let_def)
qed

lemma shard_range_bounds:
  assumes "0 < n" and "2 * CHUNK_BYTES \<le> cap" and "i < n"
  shows "CHUNK_BYTES \<le> fst (shard_disk_range cap n i)" and "snd (shard_disk_range cap n i) \<le> cap"
    and "CHUNK_BYTES dvd fst (shard_disk_range cap n i)" and "CHUNK_BYTES dvd snd (shard_disk_range cap n i)"
proof -
  let ?c = "cap div CHUNK_BYTES - 1"
  show "CHUNK_BYTES \<le> fst (shard_disk_range cap n i)" by (simp add: shard_disk_range_def Let_def)
  have "?c * (i + 1) div n \<le> ?c * n div n" using assms(3) by (intro div_le_mono mult_le_mono2) simp
  also have "\<dots> = ?c" using assms(1) by simp
  finally have le: "?c * (i + 1) div n \<le> ?c" .
  have "2 \<le> cap div CHUNK_BYTES" using div_le_mono [OF assms(2), of CHUNK_BYTES] by (simp add: CHUNK_BYTES_def)
  with le have "1 + ?c * (i + 1) div n \<le> cap div CHUNK_BYTES" by linarith
  then have "(1 + ?c * (i + 1) div n) * CHUNK_BYTES \<le> cap div CHUNK_BYTES * CHUNK_BYTES" by (rule mult_le_mono1)
  also have "\<dots> \<le> cap" by simp
  finally show "snd (shard_disk_range cap n i) \<le> cap" by (simp add: shard_disk_range_def Let_def)
  show "CHUNK_BYTES dvd fst (shard_disk_range cap n i)" and "CHUNK_BYTES dvd snd (shard_disk_range cap n i)"
    by (simp_all add: shard_disk_range_def Let_def)
qed

text \<open>C35: The shards partition the file behind its header chunk: with at most one shard per chunk,
  every whole chunk after the first belongs to exactly one shard, and every shard has at least one.\<close>

theorem shards_partition_file:
  assumes "0 < n" and "n \<le> cap div CHUNK_BYTES - 1" and "CHUNK_BYTES \<le> p" and "p < cap div CHUNK_BYTES * CHUNK_BYTES"
  shows "(\<exists>!i. i < n \<and> p \<in> rng_set (shard_disk_range cap n i))
    \<and> (\<forall>i < n. fst (shard_disk_range cap n i) + CHUNK_BYTES \<le> snd (shard_disk_range cap n i))"
proof -
  let ?s = "\<lambda>i. fst (shard_disk_range cap n i)"
  have step: "snd (shard_disk_range cap n i) = ?s (Suc i)" for i using shard_range_step [of cap n i] by simp
  have first: "?s 0 \<le> p" using assms(3) by (simp add: shard_disk_range_def)
  have "?s n = cap div CHUNK_BYTES * CHUNK_BYTES"
  proof -
    have "1 + (cap div CHUNK_BYTES - 1) * n div n = cap div CHUNK_BYTES" using assms(1,2) by simp
    then show ?thesis by (simp only: shard_disk_range_def Let_def fst_conv)
  qed
  then have last: "p < ?s n" using assms(4) by simp
  have "\<exists>i < k. ?s i \<le> p \<and> p < ?s (Suc i)" if "p < ?s k" for k
    using that
  proof (induction k)
    case 0
    then show ?case using first by simp
  next
    case (Suc k)
    then show ?case by (cases "p < ?s k") (auto simp: less_Suc_eq not_less)
  qed
  from this [OF last] obtain i where i: "i < n" "?s i \<le> p" "p < ?s (Suc i)" by blast
  have uniq: "j = i" if "?s j \<le> p" "p < ?s (Suc j)" for j
  proof (rule ccontr)
    assume "j \<noteq> i"
    then have "Suc j \<le> i \<or> Suc i \<le> j" by linarith
    then have "?s (Suc j) \<le> ?s i \<or> ?s (Suc i) \<le> ?s j" using shard_range_mono by blast
    then show False using that i by linarith
  qed
  have mem: "p \<in> rng_set (shard_disk_range cap n j) \<longleftrightarrow> ?s j \<le> p \<and> p < ?s (Suc j)" for j
    by (simp only: step atLeastLessThan_iff)
  have "\<exists>!i. i < n \<and> p \<in> rng_set (shard_disk_range cap n i)"
    unfolding mem by (rule ex1I [of _ i]) (use i uniq in blast)+
  then show ?thesis using shard_range_nonempty [OF assms(1,2)] by blast
qed

theorem shards_partition_file_witness:
  "(\<exists>!i. i < 3 \<and> 5000000 \<in> rng_set (shard_disk_range 11534336 3 i))
    \<and> fst (shard_disk_range 11534336 3 1) + CHUNK_BYTES \<le> snd (shard_disk_range 11534336 3 1)"
  using shards_partition_file [of 3 11534336 5000000] by (simp add: CHUNK_BYTES_def)

subsection \<open>Following the chain returns\<close>

lemma length_decode_entry_page:
  assumes "length page = METADATA_PAGE_BYTES"
  shows "length (decode_entry_page xxh page) = ENTRIES_PER_METADATA_PAGE"
proof (cases "validate_page xxh page ENTRY_METADATA_PAGE_TAG")
  case None
  then show ?thesis by (simp add: decode_entry_page_def UNUSED_ENTRY_METADATA_def)
next
  case (Some contents)
  then have "length contents = 4064"
    using assms by (auto simp: validate_page_def page_consts split: if_splits)
  then show ?thesis using Some by (simp add: decode_entry_page_def page_consts)
qed

lemma length_decoded_slots:
  assumes "length bytes = CHUNK_BYTES"
  shows "length (entries (fst (decode_metadata_chunk xxh r bytes))) = ENTRIES_PER_METADATA_CHUNK"
proof -
  let ?pages = "chunks_exact METADATA_PAGE_BYTES (take (ENTRY_METADATA_PAGES_PER_CHUNK * METADATA_PAGE_BYTES) bytes)"
  have n: "length ?pages = ENTRY_METADATA_PAGES_PER_CHUNK" using assms by (simp add: page_consts)
  have "length page = METADATA_PAGE_BYTES" if "page \<in> set ?pages" for page
    using that by (rule length_chunk [rotated]) (simp add: page_consts)
  then have "\<forall>slots \<in> set (map (decode_entry_page xxh) ?pages). length slots = ENTRIES_PER_METADATA_PAGE"
    by (auto intro: length_decode_entry_page)
  from length_concat_uniform [OF this] show ?thesis
    by (simp only: decode_metadata_chunk_def Let_def fst_conv metadata_chunk.simps length_map n ENTRIES_PER_METADATA_CHUNK_def)
qed

lemma decode_metadata_chunk_link:
  "decode_metadata_chunk xxh r bytes = (c, Some a) \<Longrightarrow> next_chunk_address c = a"
  by (auto simp: decode_metadata_chunk_def Let_def)

lemma decode_metadata_chunk_fields [simp]:
  "reserved_chunk (fst (decode_metadata_chunk xxh r bytes)) = r"
  "\<not> needs_full_write (fst (decode_metadata_chunk xxh r bytes))"
  by (simp_all add: decode_metadata_chunk_def Let_def)

lemma chunk_disk_bytes: "payload_disk_bytes CHUNK_BYTES = CHUNK_BYTES"
  by (simp add: payload_disk_bytes_def next_multiple_of_def CHUNK_BYTES_def DIRECT_IO_ALIGNMENT_BYTES_def u64_limit_def)

lemma read_chunk:
  assumes "CHUNK_BYTES dvd p" and "read_at oc p CHUNK_BYTES f = (f', r)"
  shows "image f' = image f" and "capacity f' = capacity f" and "data_path f' = data_path f"
    and "r = Inr bytes \<Longrightarrow> bytes = disk_read p CHUNK_BYTES (image f)"
proof -
  show "image f' = image f" and "capacity f' = capacity f" and "data_path f' = data_path f"
    using assms(2) by (auto simp: read_at_def measure_io_def)
  have al: "p mod DIRECT_IO_ALIGNMENT_BYTES = 0"
    using assms(1) by (auto simp: DIRECT_IO_ALIGNMENT_BYTES_def CHUNK_BYTES_def)
  have u: "CHUNK_BYTES mod u64_limit = CHUNK_BYTES" by (simp add: CHUNK_BYTES_def u64_limit_def)
  have len: "length (disk_read p CHUNK_BYTES im) = CHUNK_BYTES" for im by (simp add: disk_read_def)
  show "bytes = disk_read p CHUNK_BYTES (image f)" if "r = Inr bytes"
    using assms(2) that al u chunk_disk_bytes len
    by (auto simp: read_at_def measure_io_def read_slice_def queue_read_def slice_def Let_def
        split: sum.splits io_outcome.splits if_splits)
qed

text \<open>The state of the loop: chunks loaded so far, each linked to the next and the last to the address
  to load. \<open>linked_chunks\<close> is what remains of it when the loop stops at a bad address or link.\<close>

definition linked_chunks :: "metadata_chunk list \<Rightarrow> bool" where
  "linked_chunks cs \<longleftrightarrow> (\<forall>c \<in> set cs. chunk_ok c) \<and>
    (\<forall>i. Suc i < length cs \<longrightarrow>
      next_chunk_address (cs ! i) = of_nat (fst (disk_byte_range (reserved_chunk (cs ! Suc i)))))"

definition last_link :: "metadata_chunk list \<Rightarrow> u64 \<Rightarrow> bool" where
  "last_link cs a \<longleftrightarrow> cs = [] \<or> next_chunk_address (last cs) = a"

abbreviation chunk_live :: "metadata_chunk list \<Rightarrow> rng multiset" where
  "chunk_live cs \<equiv> mset (map (\<lambda>c. chunk_numbers (reserved_chunk c)) cs)"

lemma linked_snoc:
  assumes "linked_chunks cs" and "last_link cs a" and "chunk_ok c"
    and "of_nat (fst (disk_byte_range (reserved_chunk c))) = a"
  shows "linked_chunks (cs @ [c])"
proof -
  have "last cs = cs ! i" if "Suc i = length cs" for i
    using that by (metis diff_Suc_1 last_conv_nth length_0_conv nat.distinct(1))
  then show ?thesis using assms by (auto simp: linked_chunks_def last_link_def nth_append less_Suc_eq Suc_lessI)
qed

lemma reserve_metadata_chunk:
  assumes "alloc_inv lo hi live a" and "CHUNK_BYTES dvd unat (address :: u64)"
    and "reserve_chunks_at (unat address div CHUNK_BYTES) 1 (dm, a) = Some ((dm', a'), r)"
  shows "alloc_inv lo hi (add_mset (chunk_numbers r) live) a'" and "chunk_count r = 1"
    and "of_nat (fst (disk_byte_range r)) = address" and "payload_chunks a' = payload_chunks a"
    and "runs_set (free a') \<subset> runs_set (free a)" and "\<not> recovered r"
proof -
  note R = alloc_inv_reserve_at [OF assms(1,3)]
  show "alloc_inv lo hi (add_mset (chunk_numbers r) live) a'" "payload_chunks a' = payload_chunks a" "\<not> recovered r"
    by (rule R)+
  show "chunk_count r = 1" using R(2) by (simp add: chunk_count_def)
  show "of_nat (fst (disk_byte_range r)) = address" using R(2) assms(2) by (simp add: disk_byte_range_def)
  obtain c where c: "reserve_runs c (free a) = Some (free a')" "c = (unat address div CHUNK_BYTES, unat address div CHUNK_BYTES + 1)"
    using assms(3) by (auto simp: reserve_chunks_at_def checked_add_def reserve_chunk_numbers_def Let_def
        split: option.splits if_splits)
  have ok: "runs_ok (free a)" by (rule alloc_inv_D(1) [OF assms(1)])
  show "runs_set (free a') \<subset> runs_set (free a)"
    using fs.reserve_free [OF ok c(1)] fs.reserve_iff [OF ok, of c] c by auto
qed

lemma load_metadata_chunks_returns:
  assumes "alloc_inv lo hi (chunk_live cs + live) (snd s)" and "linked_chunks cs" and "last_link cs address"
  shows "\<exists>address' s' f' cs'. load_metadata_chunks xxh ocs address s f cs = Some (address', s', f', cs') \<and>
    alloc_inv lo hi (chunk_live cs' + live) (snd s') \<and> linked_chunks cs' \<and>
    (address' = NO_CHUNK \<longrightarrow> last_link cs' NO_CHUNK) \<and>
    payload_chunks (snd s') = payload_chunks (snd s) \<and> image f' = image f \<and> capacity f' = capacity f"
  using assms
proof (induction "card (runs_set (free (snd s)))" arbitrary: ocs address s f cs rule: less_induct)
  case less
  obtain dm a where s: "s = (dm, a)" by (cases s)
  note unfold = load_metadata_chunks.simps [of xxh ocs address s f cs]
  show ?case
  proof (cases "address \<noteq> NO_CHUNK \<and> CHUNK_BYTES dvd unat address")
    case False
    then show ?thesis using less.prems s by (subst unfold) auto
  next
    case True
    show ?thesis
    proof (cases "reserve_chunks_at (unat address div CHUNK_BYTES) 1 s")
      case None
      then show ?thesis using True less.prems s by (subst unfold) auto
    next
      case (Some res)
      then obtain dm1 a1 r where res: "reserve_chunks_at (unat address div CHUNK_BYTES) 1 s = Some ((dm1, a1), r)"
        by (metis surj_pair)
      note R = reserve_metadata_chunk [OF less.prems(1) [unfolded s snd_conv] conjunct2 [OF True] res [unfolded s]]
      have inv1: "alloc_inv lo hi (add_mset (chunk_numbers r) (chunk_live cs + live)) a1" by (rule R(1))
      obtain f1 rd where rd: "read_at (ocs 0) (unat address) CHUNK_BYTES f = (f1, rd)" by fastforce
      note F = read_chunk [OF conjunct2 [OF True] rd]
      have stop: ?thesis if "load_metadata_chunks xxh ocs address s f cs
          = Some (address, drop_reserved_chunks r (dm1, a1), f1, cs)"
        using that alloc_inv_drop [OF inv1] less.prems(2) True F(1,2) R(4) s
        by (auto simp: drop_reserved_chunks_def release_def Let_def)
      show ?thesis
      proof (cases "\<exists>bytes. rd = Inr bytes \<and> \<not> list_all (\<lambda>b. b = 0) bytes")
        case False
        then have "load_metadata_chunks xxh ocs address s f cs
            = Some (address, drop_reserved_chunks r (dm1, a1), f1, cs)"
          using True res rd by (subst unfold) (auto split: sum.splits)
        then show ?thesis by (rule stop)
      next
        case nonzero: True
        then obtain bytes where bytes: "rd = Inr bytes" "\<not> list_all (\<lambda>b. b = 0) bytes" by blast
        define dm2 where "dm2 = fst (mark_recovered dm1 r)"
        define r2 where "r2 = snd (mark_recovered dm1 r)"
        obtain c nxt where c: "decode_metadata_chunk xxh r2 bytes = (c, nxt)" by fastforce
        have r2: "chunk_numbers r2 = chunk_numbers r" by (simp add: r2_def mark_recovered_def)
        have "length bytes = CHUNK_BYTES" using F(4) [OF bytes(1)] by (simp add: disk_read_def)
        then have c_ok: "chunk_ok c" "reserved_chunk c = r2"
          using length_decoded_slots [of bytes xxh r2] R(2) c decode_metadata_chunk_fields(1) [of xxh r2 bytes]
          by (auto simp: chunk_ok_def chunk_count_def r2)
        have linked: "linked_chunks (cs @ [c])"
          using linked_snoc [OF less.prems(2,3) c_ok(1)] R(3) c_ok(2) by (simp add: disk_byte_range_def r2)
        have inv2: "alloc_inv lo hi (chunk_live (cs @ [c]) + live) a1" using inv1 c_ok(2) by (simp add: r2)
        have step: "load_metadata_chunks xxh ocs address s f cs = (case nxt of
            Some a \<Rightarrow> load_metadata_chunks xxh (\<lambda>n. ocs (Suc n)) a (dm2, a1) f1 (cs @ [c])
          | None \<Rightarrow> Some (address, (dm2, a1), f1, cs @ [c]))"
        proof -
          have "mark_recovered dm1 r = (dm2, r2)" by (simp add: dm2_def r2_def)
          then show ?thesis using True bytes res rd c by (subst unfold) simp
        qed
        show ?thesis
        proof (cases nxt)
          case None
          then show ?thesis using step inv2 linked True F(1,2) R(4) s by auto
        next
          case (Some next_address)
          have "last_link (cs @ [c]) next_address"
            using decode_metadata_chunk_link [of xxh r2 bytes c next_address] c Some by (simp add: last_link_def)
          moreover have "card (runs_set (free (snd (dm2, a1)))) < card (runs_set (free (snd s)))"
            using R(5) s by (simp add: psubset_card_mono runs_set_finite)
          ultimately obtain address' s' f' cs' where
            "load_metadata_chunks xxh (\<lambda>n. ocs (Suc n)) next_address (dm2, a1) f1 (cs @ [c]) = Some (address', s', f', cs')"
            "alloc_inv lo hi (chunk_live cs' + live) (snd s')" "linked_chunks cs'"
            "address' = NO_CHUNK \<longrightarrow> last_link cs' NO_CHUNK" "payload_chunks (snd s') = payload_chunks a1"
            "image f' = image f1" "capacity f' = capacity f1"
            using less.hyps [of "(dm2, a1)" "cs @ [c]" next_address "\<lambda>n. ocs (Suc n)" f1] inv2 linked by auto
          then show ?thesis using step Some F(1,2) R(4) s by auto
        qed
      qed
    qed
  qed
qed

definition chain_struct :: "metadata_chunks \<Rightarrow> bool" where
  "chain_struct m \<longleftrightarrow> (\<forall>c \<in> set (chunks m). chunk_ok c) \<and> chain_ok (chunks m) \<and> finite (dirty_pages m) \<and>
    (\<forall>p \<in> dirty_pages m. page_chunk_index p < length (chunks m) \<and> page_index p \<le> ENTRY_METADATA_PAGES_PER_CHUNK)"

lemma chain_struct_reset: "chain_struct m \<Longrightarrow> meta_inv (reset_free_slots m)"
  by (rule reset_free_slots_inv) (auto simp: chain_struct_def)

lemma chain_struct_clear:
  assumes "chain_struct m"
  shows "chain_struct (m\<lparr>chunks := set_slot loc v (chunks m)\<rparr>)"
  using assms chain_ok_set_slot [of "chunks m" loc v] chunk_ok_set_slot [of "chunks m" loc v]
  by (auto simp: chain_struct_def)

text \<open>Cutting the link of the last chunk makes any loaded chain a well-formed one.\<close>

lemma chain_struct_loaded:
  assumes "linked_chunks cs" and "a = NO_CHUNK \<longrightarrow> last_link cs NO_CHUNK"
  defines "m \<equiv> default_metadata_chunks\<lparr>chunks := cs\<rparr>"
  defines "m' \<equiv> if a \<noteq> NO_CHUNK then set_last_chunk_link NO_CHUNK m else m"
  shows "chain_struct m'" and "map entries (chunks m') = map entries cs" and "meta_live m' = chunk_live cs"
    and "map reserved_chunk (chunks m') = map reserved_chunk cs"
proof -
  have m: "chunks m = cs" "dirty_pages m = {}" by (simp_all add: m_def default_metadata_chunks_def)
  show "map entries (chunks m') = map entries cs" and res: "map reserved_chunk (chunks m') = map reserved_chunk cs"
    using map_set_last_chunk_link [of entries NO_CHUNK m] map_set_last_chunk_link [of reserved_chunk NO_CHUNK m]
    by (simp_all add: m'_def m)
  have "map chunk_numbers (map reserved_chunk (chunks m')) = map chunk_numbers (map reserved_chunk cs)" by (simp only: res)
  then show "meta_live m' = chunk_live cs" by (simp add: meta_live_def comp_def)
  have len: "length (chunks m') = length cs" by (simp add: m'_def m)
  have nth: "chunks m' ! i = (if a \<noteq> NO_CHUNK \<and> Suc i = length cs then (cs ! i)\<lparr>next_chunk_address := NO_CHUNK\<rparr> else cs ! i)"
    if "i < length cs" for i
    using set_last_chunk_link_nth [of i m NO_CHUNK] that by (simp add: m'_def m)
  have "chunk_ok (chunks m' ! i)" if "i < length cs" for i
    using assms(1) that by (auto simp: linked_chunks_def nth chunk_ok_def)
  moreover have "chain_ok (chunks m')"
    unfolding chain_ok_def
  proof (intro allI impI)
    fix i assume "i < length (chunks m')"
    then have i: "i < length cs" by (simp add: len)
    have "last cs = cs ! i" if "Suc i = length cs" using that by (metis diff_Suc_1 last_conv_nth length_0_conv nat.distinct(1))
    then show "next_chunk_address (chunks m' ! i) = (if Suc i < length (chunks m')
        then of_nat (fst (disk_byte_range (reserved_chunk (chunks m' ! Suc i)))) else NO_CHUNK)"
      using assms(1,2) i by (auto simp: len nth linked_chunks_def last_link_def)
  qed
  moreover have "dirty_pages m' \<subseteq> {link_page (length cs - 1)} \<and> (cs = [] \<longrightarrow> dirty_pages m' = {})"
    using set_last_chunk_link_dirty [of NO_CHUNK m] by (simp add: m'_def m)
  ultimately show "chain_struct m'"
    unfolding chain_struct_def by (auto simp: len link_page_def in_set_conv_nth intro: finite_subset)
qed

lemma load_metadata_chain_ok:
  assumes "alloc_inv lo hi live (snd s)"
  shows "\<exists>s' f' m'. load_metadata_chain xxh ocs address s f = Some (s', f', m') \<and>
    alloc_inv lo hi (meta_live m' + live) (snd s') \<and> chain_struct m' \<and>
    payload_chunks (snd s') = payload_chunks (snd s) \<and> image f' = image f \<and> capacity f' = capacity f"
proof -
  have "linked_chunks []" "last_link [] address" by (simp_all add: linked_chunks_def last_link_def)
  with load_metadata_chunks_returns [of lo hi "[]" live s address xxh ocs f] assms
  obtain address' s' f' cs' where ld: "load_metadata_chunks xxh ocs address s f [] = Some (address', s', f', cs')"
    and P: "alloc_inv lo hi (chunk_live cs' + live) (snd s')" "linked_chunks cs'"
      "address' = NO_CHUNK \<longrightarrow> last_link cs' NO_CHUNK" "payload_chunks (snd s') = payload_chunks (snd s)"
      "image f' = image f" "capacity f' = capacity f" by auto
  note L = chain_struct_loaded [OF P(2,3)]
  show ?thesis unfolding load_metadata_chain_def ld using P(1,4-6) L(1) L(3) by (auto simp: Let_def)
qed

subsection \<open>The scan keeps the shard consistent\<close>

lemma recovered_payload_entry:
  "recovered_payload em = (unat (entry_payload_address (new_disk_entry em loc)), payload_end (new_disk_entry em loc))"
  "entry_chunk (new_disk_entry em loc) = fst (recovered_payload em) div CHUNK_BYTES"
  by (simp_all add: recovered_payload_def payload_end_def entry_chunk_def new_disk_entry_def)

text \<open>A hold for a recovered payload reaches to the end of that payload: where the unchecked
  subtraction wraps, the reservation overflows and fails.\<close>

lemma recovered_hold_reaches:
  assumes "reserve_chunks_at c (wrapping_sub (div_ceil e CHUNK_BYTES) c) s = Some (s', r)" and "c < u64_limit" and "e < u64_limit"
    and "chunk_numbers r = (c, c + wrapping_sub (div_ceil e CHUNK_BYTES) c)"
  shows "chunk_numbers r = (c, div_ceil e CHUNK_BYTES)" and "e \<le> snd (disk_byte_range r)"
proof -
  let ?d = "div_ceil e CHUNK_BYTES"
  have pos: "0 < CHUNK_BYTES" by (simp add: CHUNK_BYTES_def)
  have "?d \<le> u64_limit div CHUNK_BYTES"
    using assms(3) by (subst div_ceil_le_iff [OF pos]) (simp add: u64_limit_def CHUNK_BYTES_def)
  then have d: "?d < u64_limit" by (simp add: u64_limit_def CHUNK_BYTES_def)
  have fits: "c + wrapping_sub ?d c < u64_limit"
    using assms(1) by (auto simp: reserve_chunks_at_def checked_add_def split: if_splits)
  have le: "c \<le> ?d"
  proof (rule ccontr)
    assume "\<not> c \<le> ?d"
    then have "?d + (u64_limit - c) < u64_limit" using assms(2) by linarith
    then have "wrapping_sub ?d c = ?d + (u64_limit - c)" by (simp add: wrapping_sub_def)
    then show False using fits assms(2) by linarith
  qed
  show "chunk_numbers r = (c, ?d)" using assms(4) wrapping_sub_le [OF le d] le by simp
  then show "e \<le> snd (disk_byte_range r)" using div_ceil_mult [OF pos, of e] by (simp add: disk_byte_range_def)
qed

lemma hold_recovered_effect:
  assumes "alloc_inv lo hi live a" and "hold_chunks_for_recovered_payload d (dm, a) = Some (dm', a')"
    and "fst d < u64_limit" and "snd d < u64_limit"
  defines "c \<equiv> fst d div CHUNK_BYTES"
  obtains r n where "payload_chunks a' = (payload_chunks a)(c \<mapsto> (r, n))" and "snd d \<le> snd (disk_byte_range r)"
    and "payload_chunks a c = None \<and> n = 1 \<and> chunk_numbers r = (c, div_ceil (snd d) CHUNK_BYTES)
      \<or> (\<exists>k. payload_chunks a c = Some (r, k) \<and> n = k + 1)"
proof (cases "payload_chunks a c")
  case None
  then obtain dm1 a1 r where
    res: "reserve_chunks_at c (wrapping_sub (div_ceil (snd d) CHUNK_BYTES) c) (dm, a) = Some ((dm1, a1), r)"
    and a': "payload_chunks a' = (payload_chunks a1)(c \<mapsto> (r\<lparr>recovered := True\<rparr>, 1))"
    using assms(2) by (auto simp: hold_chunks_for_recovered_payload_def mark_recovered_def Let_def c_def
        split: option.splits)
  note R = alloc_inv_reserve_at [OF assms(1) res]
  have "c < u64_limit" using assms(3) div_le_dividend [of "fst d" CHUNK_BYTES] unfolding c_def by linarith
  note H = recovered_hold_reaches [OF res this assms(4) R(2)]
  show ?thesis
    by (rule that [of "r\<lparr>recovered := True\<rparr>" 1]) (use a' R(3) H None in \<open>auto simp: disk_byte_range_def\<close>)
next
  case (Some h)
  obtain r n where h: "h = (r, n)" by fastforce
  have "payload_chunks a' = (payload_chunks a)(c \<mapsto> (r, n + 1)) \<and> snd d \<le> snd (disk_byte_range r)"
    using assms(2) Some h by (auto simp: hold_chunks_for_recovered_payload_def Let_def c_def split: if_splits)
  then show ?thesis using that [of r "n + 1"] Some h by auto
qed

lemma hold_recovered_shard:
  fixes em :: entry_metadata and loc :: entry_metadata_location
  assumes core: "shard_core lo hi live pend orph sh"
    and hold: "hold_chunks_for_recovered_payload (recovered_payload em) (dm, allocator sh) = Some (dm', a')"
  defines "c \<equiv> entry_chunk (new_disk_entry em loc)"
  shows "shard_core lo hi live (pend(c := pend c + 1)) orph (sh\<lparr>allocator := a'\<rparr>)"
    and "inside_hold a' (new_disk_entry em loc)"
proof -
  note D = shard_core_D [OF core]
  let ?a = "allocator sh"
  have c: "c = fst (recovered_payload em) div CHUNK_BYTES" unfolding c_def by (rule recovered_payload_entry(2))
  have lim: "fst (recovered_payload em) < u64_limit" "snd (recovered_payload em) < u64_limit"
    using unat_bound [of "payload_address em"] by (simp_all add: recovered_payload_def u64_limit_def)
  from hold_recovered_effect [OF D(1) hold lim] obtain r n where
    pc: "payload_chunks a' = (payload_chunks ?a)(c \<mapsto> (r, n))" and reach: "snd (recovered_payload em) \<le> snd (disk_byte_range r)"
    and kind: "payload_chunks ?a c = None \<and> n = 1 \<or> (\<exists>k. payload_chunks ?a c = Some (r, k) \<and> n = k + 1)"
    unfolding c by blast
  show "inside_hold a' (new_disk_entry em loc)"
    using pc reach by (simp add: inside_hold_def c_def [symmetric] recovered_payload_entry(1) [of em loc])
  have "inside_hold a' e" if k: "entries_by_key (entry_index sh) k = Some e" for k e
    using D(5) [OF k] kind by (cases "entry_chunk e = c") (auto simp: inside_hold_def pc split: option.splits)
  moreover have "hold_count a' x = uses (entries_by_key (entry_index sh)) x + (pend(c := pend c + 1)) x" for x
    using D(7) [of x] kind by (cases "x = c") (auto simp: hold_count_def pc)
  ultimately show "shard_core lo hi live (pend(c := pend c + 1)) orph (sh\<lparr>allocator := a'\<rparr>)"
    using D(2,3,4,6) alloc_inv_hold_recovered [OF D(1) hold] by (simp add: shard_core_def)
qed

lemma shard_core_unused_slot:
  assumes "shard_core lo hi live pend orph sh" and "slot_at (chunks (metadata_pages sh)) loc = None"
  shows "shard_core lo hi live pend (orph - {loc}) sh"
proof -
  note D = shard_core_D [OF assms(1)]
  have "\<exists>e. entries_by_key (entry_index sh) (key em) = Some e \<and> entry_location e = loc'"
    if "slot_at (chunks (metadata_pages sh)) loc' = Some em" "loc' \<notin> orph - {loc}" for loc' em
    using that assms(2) by (intro D(6)) auto
  then show ?thesis using D(1-5,7) unfolding shard_core_def by simp
qed

lemma reject_slot_shard:
  assumes core: "shard_core lo hi live pend orph sh" and loc: "loc \<in> orph" "valid_loc (chunks (metadata_pages sh)) loc"
  defines "m' \<equiv> (metadata_pages sh)\<lparr>chunks := set_slot loc None (chunks (metadata_pages sh))\<rparr>"
  shows "shard_core lo hi live pend (orph - {loc}) (sh\<lparr>metadata_pages := m'\<rparr>)"
proof -
  note D = shard_core_D [OF core]
  have slots: "slot_at (chunks m') = (slot_at (chunks (metadata_pages sh)))(loc := None)"
    using slot_at_set_slot [OF loc(2), of None] by (simp add: m'_def)
  have live: "meta_live m' = meta_live (metadata_pages sh)"
    by (rule meta_live_set_slot [of _ loc None]) (simp add: m'_def)
  have "entry_location e \<noteq> loc" if "entries_by_key (entry_index sh) k = Some e" for k e
    using D(4) [OF that] loc(1) by blast
  then show ?thesis using D by (auto simp: shard_core_def slots live split: if_splits)
qed

definition index_bytes :: "(object_key_hash \<rightharpoonup> disk_entry) \<Rightarrow> nat" where
  "index_bytes m = map_total (\<lambda>e. unat (entry_payload_len e)) m"

lemma hold_recovered_gauges:
  "hold_chunks_for_recovered_payload d (dm, a) = Some (dm', a') \<Longrightarrow>
    entries_gauge dm' = entries_gauge dm \<and> payload_bytes dm' = payload_bytes dm"
  by (auto simp: hold_chunks_for_recovered_payload_def mark_recovered_def reserve_chunks_at_def
      reserve_chunk_numbers_def Let_def split: option.splits if_splits)

text \<open>What holds between two iterations: the slots of the locations still to visit have no owner, slots
  have only been cleared since the chain was loaded, and the counters describe the index.\<close>

definition scan_inv :: "nat \<Rightarrow> nat \<Rightarrow> rng multiset \<Rightarrow> nat \<Rightarrow> nat \<Rightarrow> metadata_chunks \<Rightarrow> disk_metrics
    \<Rightarrow> entry_metadata_location set \<Rightarrow> shard_state \<times> nat \<times> nat \<Rightarrow> bool" where
  "scan_inv lo hi live num_shards idx m0 dm0 todo acc \<longleftrightarrow>
    (let ((dm, sh), n, bytes) = acc; m = metadata_pages sh; ents = entries_by_key (entry_index sh) in
     shard_core lo hi live (\<lambda>_. 0) todo sh \<and> chain_struct m \<and> valid_loc (chunks m) = valid_loc (chunks m0) \<and>
     (\<forall>loc. slot_at (chunks m) loc = None \<or> slot_at (chunks m) loc = slot_at (chunks m0) loc) \<and>
     (\<forall>k \<in> dom ents. shard_index_for_key num_shards k = idx) \<and>
     n = card (dom ents) \<and> bytes = index_bytes ents \<and>
     entries_gauge dm = entries_gauge dm0 \<and> payload_bytes dm = payload_bytes dm0)"

lemma recover_slot_ok:
  assumes inv: "scan_inv lo hi live num_shards idx m0 dm0 (insert loc todo) acc" and fresh: "loc \<notin> todo"
    and valid: "valid_loc (chunks m0) loc"
  shows "\<exists>acc'. recover_slot num_shards idx loc acc = Some acc' \<and> scan_inv lo hi live num_shards idx m0 dm0 todo acc'"
proof -
  obtain dm sh n bytes where acc: "acc = ((dm, sh), n, bytes)" by (cases acc) auto
  let ?m = "metadata_pages sh" and ?ents = "entries_by_key (entry_index sh)"
  have core: "shard_core lo hi live (\<lambda>_. 0) (insert loc todo) sh" and struct: "chain_struct ?m"
    and vl: "valid_loc (chunks ?m) = valid_loc (chunks m0)"
    and slots: "\<And>l. slot_at (chunks ?m) l = None \<or> slot_at (chunks ?m) l = slot_at (chunks m0) l"
    and keys: "\<forall>k \<in> dom ?ents. shard_index_for_key num_shards k = idx"
    and cnt: "n = card (dom ?ents)" "bytes = index_bytes ?ents"
    and gauges: "entries_gauge dm = entries_gauge dm0" "payload_bytes dm = payload_bytes dm0"
    using inv by (auto simp: scan_inv_def acc Let_def)
  note D = shard_core_D [OF core]
  have todo: "insert loc todo - {loc} = todo" using fresh by auto
  have fin: "finite (dom ?ents)" by (rule index_ok_finite [OF D(2)])
  show ?thesis
  proof (cases "slot_at (chunks ?m) loc")
    case None
    then show ?thesis using shard_core_unused_slot [OF core None] inv
      by (auto simp: recover_slot_def acc scan_inv_def Let_def todo)
  next
    case (Some em)
    let ?reject = "sh\<lparr>metadata_pages := ?m\<lparr>chunks := set_slot loc None (chunks ?m)\<rparr>\<rparr>"
    have rej: "scan_inv lo hi live num_shards idx m0 dm0 todo ((dm, ?reject), n, bytes)"
      using reject_slot_shard [OF core insertI1 valid [folded vl], unfolded todo] chain_struct_clear [OF struct, of loc None] slots keys cnt gauges valid
      by (auto simp: scan_inv_def Let_def todo vl slot_at_set_slot fun_eq_iff)
    show ?thesis
    proof (cases "shard_index_for_key num_shards (key em) \<noteq> idx \<or> ?ents (key em) \<noteq> None
        \<or> hold_chunks_for_recovered_payload (recovered_payload em) (dm, allocator sh) = None")
      case True
      then have "recover_slot num_shards idx loc acc = Some ((dm, ?reject), n, bytes)"
        using Some by (auto simp: recover_slot_def acc Let_def)
      then show ?thesis using rej by blast
    next
      case False
      then obtain dm1 a1 where hold: "hold_chunks_for_recovered_payload (recovered_payload em) (dm, allocator sh) = Some (dm1, a1)"
        and k: "?ents (key em) = None" "shard_index_for_key num_shards (key em) = idx" by fastforce
      let ?e = "new_disk_entry em loc" and ?sh1 = "sh\<lparr>allocator := a1\<rparr>"
      note H = hold_recovered_shard [OF core hold, of loc]
      have "entries_by_key (entry_index ?sh1) (key em) = None" "slot_at (chunks (metadata_pages ?sh1)) loc = Some em"
        "inside_hold (allocator ?sh1) ?e"
        using k Some H(2) by simp_all
      from insert_entry_ok [OF H(1) this(1) _ this(2) _ this(3), of dm1] obtain sh2 where
        ins: "insert_entry (key em) ?e (dm1, ?sh1) = Some (dm1, sh2)"
        and sh2: "shard_core lo hi live (\<lambda>_. 0) todo sh2" "metadata_pages sh2 = ?m"
          "entries_by_key (entry_index sh2) = ?ents(key em \<mapsto> ?e\<lparr>eviction_position := length (eviction_candidates (entry_index sh))\<rparr>)"
        by (auto simp: todo fun_upd_idem)
      have step: "recover_slot num_shards idx loc acc = Some ((dm1, sh2), n + 1, bytes + unat (payload_len em))"
        using Some k hold ins by (simp add: recover_slot_def acc)
      have "index_bytes (entries_by_key (entry_index sh2)) = bytes + unat (payload_len em)"
        unfolding sh2(3) index_bytes_def map_total_insert [OF fin k(1)]
        by (simp add: cnt(2) index_bytes_def new_disk_entry_def)
      moreover have "card (dom (entries_by_key (entry_index sh2))) = n + 1"
        unfolding sh2(3) dom_fun_upd using fin k(1) by (simp add: cnt(1) card_insert_if domIff)
      ultimately have "scan_inv lo hi live num_shards idx m0 dm0 todo ((dm1, sh2), n + 1, bytes + unat (payload_len em))"
        using sh2 struct vl slots keys k(2) gauges hold_recovered_gauges [OF hold] by (auto simp: scan_inv_def Let_def)
      then show ?thesis using step by blast
    qed
  qed
qed

lemma recover_slots_ok:
  assumes "scan_inv lo hi live num_shards idx m0 dm0 (set locs) acc" and "distinct locs"
    and "\<forall>loc \<in> set locs. valid_loc (chunks m0) loc"
  shows "\<exists>acc'. recover_slots num_shards idx locs acc = Some acc' \<and> scan_inv lo hi live num_shards idx m0 dm0 {} acc'"
  using assms
proof (induction locs arbitrary: acc)
  case (Cons loc locs)
  from Cons.prems recover_slot_ok [of lo hi live num_shards idx m0 dm0 loc "set locs" acc]
  obtain acc1 where "recover_slot num_shards idx loc acc = Some acc1" "scan_inv lo hi live num_shards idx m0 dm0 (set locs) acc1"
    by auto
  then show ?case using Cons by simp
qed simp

lemma slot_locations_set:
  assumes "\<And>c. c \<in> set cs \<Longrightarrow> length (entries c) = ENTRIES_PER_METADATA_CHUNK"
  shows "set (slot_locations (length cs)) = {loc. valid_loc cs loc}"
proof -
  have "loc \<in> set (slot_locations (length cs)) \<longleftrightarrow> valid_loc cs loc" for loc
    using assms [OF nth_mem] by (cases loc) (auto simp: slot_locations_def valid_loc_def intro!: bexI)
  then show ?thesis by blast
qed

lemma slot_locations_distinct: "distinct (slot_locations n)"
proof -
  have "distinct (concat (map (\<lambda>c. map (EntryMetadataLocation c) [0..<k]) [0..<n]))" for k
    by (induction n) (auto simp: distinct_map inj_on_def)
  then show ?thesis by (simp add: slot_locations_def)
qed

text \<open>Every payload ends in the last chunk of its hold. Recovery makes such holds from entries that were
  written by this code.\<close>

definition holds_exact :: "disk_cache_shard \<Rightarrow> bool" where
  "holds_exact sh \<longleftrightarrow> (\<forall>k e r n. entries_by_key (entry_index sh) k = Some e \<longrightarrow>
    payload_chunks (allocator sh) (entry_chunk e) = Some (r, n) \<longrightarrow>
    div_ceil (payload_end e) CHUNK_BYTES = snd (chunk_numbers r))"

lemma held_exclusive:
  assumes inv: "alloc_inv lo hi live a" and c: "payload_chunks a c = Some (r, n)" "x \<in> rng_set (chunk_numbers r)"
  shows "live_count x live = 0" and "lo \<le> x \<and> x < hi"
    and "\<And>k r' n'. payload_chunks a k = Some (r', n') \<Longrightarrow> x \<in> rng_set (chunk_numbers r') \<Longrightarrow> k = c"
proof -
  note D = alloc_inv_D [OF inv]
  have one: "1 \<le> held_count x (payload_chunks a)" by (rule held_count_ge [OF D(2) c])
  have all: "live_count x live = 0 \<and> (lo \<le> x \<and> x < hi) \<and> held_count x (payload_chunks a) \<le> 1"
    using D(6) [of x] one unfolding owners_def
    by (cases "lo \<le> x \<and> x < hi"; cases "x \<in> runs_set (free a)") simp_all
  then show "live_count x live = 0" and "lo \<le> x \<and> x < hi" by blast+
  have le: "held_count x (payload_chunks a) \<le> 1" using all by blast
  fix k r' n' assume k: "payload_chunks a k = Some (r', n')" "x \<in> rng_set (chunk_numbers r')"
  show "k = c"
  proof (rule ccontr)
    assume "k \<noteq> c"
    then have "1 \<le> held_count x ((payload_chunks a)(c := None))"
      using held_count_ge [of "(payload_chunks a)(c := None)" k r' n' x] k D(2) by simp
    moreover have "held_count x (payload_chunks a) = held_count x ((payload_chunks a)(c := None)) + 1"
      using map_total_remove [OF D(2) c(1), of "\<lambda>h. of_bool (x \<in> rng_set (chunk_numbers (fst h)))"] c(2)
      by (simp add: held_count_def)
    ultimately show False using le by linarith
  qed
qed


text \<open>A shard before recovery: an empty index, no metadata chunks, no payload holds.\<close>

definition unrecovered :: "nat \<Rightarrow> nat \<Rightarrow> rng multiset \<Rightarrow> disk_cache_shard \<Rightarrow> bool" where
  "unrecovered lo hi live sh \<longleftrightarrow> alloc_inv lo hi live (allocator sh) \<and> payload_chunks (allocator sh) = Map.empty \<and>
    entry_index sh = new_disk_entry_index \<and> metadata_pages sh = default_metadata_chunks"

lemma scan_starts:
  assumes "unrecovered lo hi live sh" and "alloc_inv lo hi (meta_live m + live) a" and "payload_chunks a = Map.empty"
    and "chain_struct m"
  shows "scan_inv lo hi live num_shards idx m dm {loc. valid_loc (chunks m) loc} ((dm, sh\<lparr>allocator := a, metadata_pages := m\<rparr>), 0, 0)"
proof -
  have idx: "entry_index sh = new_disk_entry_index" using assms(1) by (simp add: unrecovered_def)
  have none: "entries_by_key new_disk_entry_index = Map.empty" by (simp add: new_disk_entry_index_def)
  have "index_ok new_disk_entry_index" by (simp add: index_ok_def new_disk_entry_index_def di.consistent_empty)
  moreover have "valid_loc (chunks m) loc" if "slot_at (chunks m) loc = Some em" for loc em
    using that by (simp add: slot_at_def split: if_splits)
  ultimately show ?thesis using assms(2-4)
    by (auto simp: scan_inv_def Let_def shard_core_def idx none uses_def hold_count_def index_bytes_def)
qed

lemma scan_ends:
  assumes "scan_inv lo hi live num_shards idx m0 dm0 {} ((dm, sh), n, bytes)"
  defines "sh' \<equiv> sh\<lparr>metadata_pages := reset_free_slots (metadata_pages sh)\<rparr>"
  shows "shard_inv lo hi live sh'"
    and "entries_by_key (entry_index sh') k = Some e \<Longrightarrow>
      shard_index_for_key num_shards k = idx \<and> slot_at (chunks m0) (entry_location e) = Some (entry_meta k e)"
proof -
  have core: "shard_core lo hi live (\<lambda>_. 0) {} sh" and struct: "chain_struct (metadata_pages sh)"
    and slots: "\<And>l. slot_at (chunks (metadata_pages sh)) l = None \<or> slot_at (chunks (metadata_pages sh)) l = slot_at (chunks m0) l"
    and keys: "\<forall>k \<in> dom (entries_by_key (entry_index sh)). shard_index_for_key num_shards k = idx"
    using assms(1) by (auto simp: scan_inv_def Let_def)
  have "chunks (reset_free_slots (metadata_pages sh)) = chunks (metadata_pages sh)" by (simp add: reset_free_slots_def)
  then have "meta_live (reset_free_slots (metadata_pages sh)) = meta_live (metadata_pages sh)" by (simp add: meta_live_def)
  then show "shard_inv lo hi live sh'"
    using core chain_struct_reset [OF struct] by (simp add: shard_inv_def shard_core_def sh'_def reset_free_slots_def)
  assume k: "entries_by_key (entry_index sh') k = Some e"
  then have "slot_at (chunks (metadata_pages sh)) (entry_location e) = Some (entry_meta k e)"
    using shard_core_D(3) [OF core, of k e] by (simp add: sh'_def)
  then show "shard_index_for_key num_shards k = idx \<and> slot_at (chunks m0) (entry_location e) = Some (entry_meta k e)"
    using slots [of "entry_location e"] keys k by (auto simp: sh'_def)
qed

lemma recover_shard_ok:
  assumes "unrecovered lo hi live sh"
  shows "\<exists>f' dm' sh'. recover_shard xxh ocs num_shards idx (f, dm, sh) = Some (f', dm', sh') \<and>
    shard_inv lo hi live sh' \<and> image f' = image f \<and>
    (\<forall>k \<in> dom (entries_by_key (entry_index sh')). shard_index_for_key num_shards k = idx) \<and>
    (\<exists>s m. load_metadata_chain xxh ocs (of_nat (fst (shard_disk_range (capacity f) num_shards idx))) (dm, allocator sh) f
        = Some (s, f', m) \<and>
      (\<forall>k e. entries_by_key (entry_index sh') k = Some e \<longrightarrow>
        slot_at (chunks m) (entry_location e) = Some (entry_meta k e)) \<and>
      entries_gauge dm' = entries_gauge (fst s) + int (card (dom (entries_by_key (entry_index sh')))) \<and>
      payload_bytes dm' = payload_bytes (fst s) + int (index_bytes (entries_by_key (entry_index sh'))))"
proof -
  let ?addr = "of_nat (fst (shard_disk_range (capacity f) num_shards idx)) :: u64"
  have al: "alloc_inv lo hi live (snd (dm, allocator sh))" "payload_chunks (allocator sh) = Map.empty"
    using assms by (simp_all add: unrecovered_def)
  from load_metadata_chain_ok [OF al(1), of xxh ocs ?addr f] al(2) obtain dm1 a1 f1 m1 where
    ld: "load_metadata_chain xxh ocs ?addr (dm, allocator sh) f = Some ((dm1, a1), f1, m1)"
    and L: "alloc_inv lo hi (meta_live m1 + live) a1" "chain_struct m1" "payload_chunks a1 = Map.empty" "image f1 = image f"
    by auto
  let ?sh1 = "sh\<lparr>allocator := a1, metadata_pages := m1\<rparr>"
  have locs: "set (slot_locations (length (chunks m1))) = {loc. valid_loc (chunks m1) loc}"
    using L(2) by (intro slot_locations_set) (auto simp: chain_struct_def chunk_ok_def)
  from recover_slots_ok [OF _ slot_locations_distinct, of lo hi live num_shards idx m1 dm1 "length (chunks m1)" "((dm1, ?sh1), 0, 0)"]
    scan_starts [OF assms L(1,3,2)] obtain dm2 sh2 n bytes where
    rs: "recover_slots num_shards idx (slot_locations (length (chunks m1))) ((dm1, ?sh1), 0, 0) = Some ((dm2, sh2), n, bytes)"
    and inv: "scan_inv lo hi live num_shards idx m1 dm1 {} ((dm2, sh2), n, bytes)"
    unfolding locs by auto
  define sh' where "sh' = sh2\<lparr>metadata_pages := reset_free_slots (metadata_pages sh2)\<rparr>"
  define dm' where "dm' = (if n \<noteq> 0 then dm2\<lparr>entries_gauge := entries_gauge dm2 + int n,
    payload_bytes := payload_bytes dm2 + int bytes\<rparr> else dm2)"
  have rec: "recover_shard xxh ocs num_shards idx (f, dm, sh) = Some (f1, dm', sh')"
    by (simp add: recover_shard_def ld rs Let_def sh'_def dm'_def)
  note E = scan_ends [OF inv, folded sh'_def]
  have cnt: "n = card (dom (entries_by_key (entry_index sh')))" "bytes = index_bytes (entries_by_key (entry_index sh'))"
    and g: "entries_gauge dm2 = entries_gauge dm1" "payload_bytes dm2 = payload_bytes dm1"
    and fin: "finite (dom (entries_by_key (entry_index sh')))"
    using inv by (auto simp: scan_inv_def Let_def sh'_def shard_core_def intro: index_ok_finite)
  have "bytes = 0" if "n = 0" using that cnt fin by (simp add: index_bytes_def)
  then have "entries_gauge dm' = entries_gauge dm1 + int n" "payload_bytes dm' = payload_bytes dm1 + int bytes"
    by (auto simp: dm'_def g)
  then show ?thesis using rec E ld L(4) cnt by (intro exI [of _ f1] exI [of _ dm'] exI [of _ sh']) force
qed

text \<open>C2: Recovery is total and safe on every disk content and every sequence of read results. It
  terminates, also on cyclic and damaged chains, never panics, does not change the file, and leaves a
  consistent shard: every chunk has one owner, every indexed entry is the decoded entry of its own
  metadata slot, belongs to this shard and lies inside a payload hold, and every other slot is free.
  The gauges grow by the number of recovered entries and their payload bytes.\<close>

theorem recovery_sound:
  assumes "unrecovered lo hi live sh"
  shows "\<exists>f' dm' sh'. recover_shard xxh ocs num_shards idx (f, dm, sh) = Some (f', dm', sh') \<and>
    shard_inv lo hi live sh' \<and> image f' = image f \<and>
    (\<forall>k \<in> dom (entries_by_key (entry_index sh')). shard_index_for_key num_shards k = idx) \<and>
    (\<exists>s m. load_metadata_chain xxh ocs (of_nat (fst (shard_disk_range (capacity f) num_shards idx))) (dm, allocator sh) f
        = Some (s, f', m) \<and>
      (\<forall>k e. entries_by_key (entry_index sh') k = Some e \<longrightarrow>
        slot_at (chunks m) (entry_location e) = Some (entry_meta k e)) \<and>
      entries_gauge dm' = entries_gauge (fst s) + int (card (dom (entries_by_key (entry_index sh')))) \<and>
      payload_bytes dm' = payload_bytes (fst s) + int (index_bytes (entries_by_key (entry_index sh'))))"
  by (rule recover_shard_ok [OF assms])

lemma new_shard_unrecovered:
  assumes "CHUNK_BYTES dvd fst d" and "CHUNK_BYTES dvd snd d" and "fst d < snd d"
  shows "unrecovered (fst d div CHUNK_BYTES) (snd d div CHUNK_BYTES) {#} (snd (new_disk_cache_shard d dm))"
  using alloc_inv_with_metrics [OF assms, of dm]
  by (simp add: unrecovered_def new_disk_cache_shard_def with_metrics_def Let_def)

lemma example_new_shard: "unrecovered 1 3 {#} (snd (new_disk_cache_shard (1048576, 3145728) new_disk_metrics))"
  using new_shard_unrecovered [of "(1048576, 3145728)" new_disk_metrics] by (simp add: CHUNK_BYTES_def)

theorem recovery_sound_witness:
  "\<exists>f' dm' sh'. recover_shard (\<lambda>_. 0) (\<lambda>_. IoOk 0) 1 0
      (zero_file 3145728, new_disk_metrics, snd (new_disk_cache_shard (1048576, 3145728) new_disk_metrics)) = Some (f', dm', sh')
    \<and> shard_inv 1 3 {#} sh' \<and> image f' = image (zero_file 3145728)"
  using recovery_sound [OF example_new_shard, of "\<lambda>_. 0" "\<lambda>_. IoOk 0" 1 0 "zero_file 3145728" new_disk_metrics] by blast

end
