(* ===== verification/Restart.thy ===== *)
theory Restart
  imports Recovery
begin

text \<open>
  A clean restart: recovery of a shard whose metadata chain has been written out completely finds
  every entry again. The first part reads the chain back, the second follows the scan over its slots.
\<close>

subsection \<open>Reading the chain back\<close>

definition chain_on_disk :: "(byte list \<Rightarrow> u64) \<Rightarrow> image \<Rightarrow> metadata_chunk list \<Rightarrow> bool" where
  "chain_on_disk xxh im cs \<longleftrightarrow> (\<forall>c \<in> set cs. \<forall>i < 256. page_on_disk xxh im c i)"

definition reloaded :: "metadata_chunk \<Rightarrow> metadata_chunk" where
  "reloaded c = \<lparr>reserved_chunk = \<lparr>chunk_numbers = chunk_numbers (reserved_chunk c), recovered = True\<rparr>,
    entries = entries c, next_chunk_address = next_chunk_address c, needs_full_write = False\<rparr>"

lemma read_chunk_pages:
  assumes "\<forall>i < 256. page_on_disk xxh im c i"
  defines "bytes \<equiv> disk_read (fst (disk_byte_range (reserved_chunk c))) CHUNK_BYTES im"
  shows "chunks_exact METADATA_PAGE_BYTES (take (ENTRY_METADATA_PAGES_PER_CHUNK * METADATA_PAGE_BYTES) bytes)
      = map (page_bytes xxh c) [0..<ENTRY_METADATA_PAGES_PER_CHUNK]"
    and "drop (ENTRY_METADATA_PAGES_PER_CHUNK * METADATA_PAGE_BYTES) bytes = page_bytes xxh c ENTRY_METADATA_PAGES_PER_CHUNK"
proof -
  let ?p = "fst (disk_byte_range (reserved_chunk c))"
  have page: "disk_read (?p + i * 4096) 4096 im = page_bytes xxh c i" if "i < 256" for i
    using assms(1) that by (simp add: page_on_disk_def page_addr_def page_consts)
  have len: "length bytes = 1048576" by (simp add: bytes_def disk_read_def page_consts)
  show "chunks_exact METADATA_PAGE_BYTES (take (ENTRY_METADATA_PAGES_PER_CHUNK * METADATA_PAGE_BYTES) bytes)
      = map (page_bytes xxh c) [0..<ENTRY_METADATA_PAGES_PER_CHUNK]"
  proof (rule nth_equalityI)
    show "length (chunks_exact METADATA_PAGE_BYTES (take (ENTRY_METADATA_PAGES_PER_CHUNK * METADATA_PAGE_BYTES) bytes))
      = length (map (page_bytes xxh c) [0..<ENTRY_METADATA_PAGES_PER_CHUNK])"
      by (simp add: len page_consts)
    fix i assume "i < length (chunks_exact METADATA_PAGE_BYTES (take (ENTRY_METADATA_PAGES_PER_CHUNK * METADATA_PAGE_BYTES) bytes))"
    then have i: "i < 255" by (simp add: len page_consts)
    then have b: "i * 4096 + 4096 \<le> 1044480" by simp
    have "chunks_exact 4096 (take 1044480 bytes) ! i = slice (i * 4096) (i * 4096 + 4096) (take 1044480 bytes)"
      using i by (intro nth_chunks_exact) (simp add: len)
    also have "\<dots> = slice (i * 4096) (i * 4096 + 4096) bytes"
      using b by (simp add: slice_def min_absorb1 take_drop)
    also have "\<dots> = disk_read (?p + i * 4096) 4096 im"
      unfolding bytes_def page_consts by (rule slice_disk_read) (use b in simp)
    finally show "chunks_exact METADATA_PAGE_BYTES (take (ENTRY_METADATA_PAGES_PER_CHUNK * METADATA_PAGE_BYTES) bytes) ! i
        = map (page_bytes xxh c) [0..<ENTRY_METADATA_PAGES_PER_CHUNK] ! i"
      using page [of i] i by (simp add: page_consts del: nth_chunks_exact)
  qed
  have "drop 1044480 bytes = slice 1044480 (1044480 + 4096) bytes" by (simp add: slice_def len)
  also have "\<dots> = disk_read (?p + 255 * 4096) 4096 im"
    unfolding bytes_def page_consts by (subst slice_disk_read) simp_all
  finally show "drop (ENTRY_METADATA_PAGES_PER_CHUNK * METADATA_PAGE_BYTES) bytes
      = page_bytes xxh c ENTRY_METADATA_PAGES_PER_CHUNK"
    using page [of 255] by (simp add: page_consts)
qed

lemma decode_reloaded:
  assumes "\<forall>i < 256. page_on_disk xxh im c i" and "chunk_ok c"
    and "\<forall>slot \<in> set (entries c). slot_ok slot" and "chunk_numbers r = chunk_numbers (reserved_chunk c)" and "recovered r"
  shows "decode_metadata_chunk xxh r (disk_read (fst (disk_byte_range (reserved_chunk c))) CHUNK_BYTES im)
    = (reloaded c, Some (next_chunk_address c))"
proof -
  note P = read_chunk_pages [OF assms(1)]
  have dec: "map (decode_entry_page xxh) (map (page_bytes xxh c) [0..<ENTRY_METADATA_PAGES_PER_CHUNK])
      = map (page_slots c) [0..<ENTRY_METADATA_PAGES_PER_CHUNK]"
    using decode_entry_page_bytes [OF assms(2), of _ xxh] assms(3) by simp
  have slots: "concat (map (decode_entry_page xxh) (map (page_bytes xxh c) [0..<ENTRY_METADATA_PAGES_PER_CHUNK])) = entries c"
    unfolding dec by (rule concat_page_slots [OF assms(2)])
  have r: "r = \<lparr>chunk_numbers = chunk_numbers (reserved_chunk c), recovered = True\<rparr>" using assms(4,5) by simp
  show ?thesis unfolding decode_metadata_chunk_def Let_def P slots decode_link_page_bytes [OF assms(2)]
    by (simp only: reloaded_def option.case) (simp only: r)
qed

lemma written_chunk_nonzero:
  assumes "\<forall>i < 256. page_on_disk xxh im c i" and "chunk_ok c"
  shows "\<not> list_all (\<lambda>b. b = 0) (disk_read (fst (disk_byte_range (reserved_chunk c))) CHUNK_BYTES im)"
proof -
  let ?bytes = "disk_read (fst (disk_byte_range (reserved_chunk c))) CHUNK_BYTES im"
  obtain b where "b \<in> set (page_bytes xxh c ENTRY_METADATA_PAGES_PER_CHUNK)" "b \<noteq> 0"
    using page_bytes_nonzero [OF assms(2) order_refl] by blast
  then have "b \<in> set ?bytes" using read_chunk_pages(2) [OF assms(1)] by (metis in_set_dropD)
  then show ?thesis using \<open>b \<noteq> 0\<close> by (auto simp: list_all_iff)
qed

definition chunk_address :: "metadata_chunk \<Rightarrow> nat" where
  "chunk_address c = fst (disk_byte_range (reserved_chunk c))"

text \<open>The link that leads to a list of chunks.\<close>

definition link_to :: "metadata_chunk list \<Rightarrow> u64" where
  "link_to cs = (case cs of [] \<Rightarrow> NO_CHUNK | c # _ \<Rightarrow> of_nat (chunk_address c))"

lemma chain_ok_Cons: "chain_ok (c # cs) \<Longrightarrow> next_chunk_address c = link_to cs \<and> chain_ok cs"
proof -
  assume ch: "chain_ok (c # cs)"
  have "next_chunk_address c = link_to cs"
    using ch by (cases cs) (auto simp: chain_ok_def link_to_def chunk_address_def dest: spec [of _ 0])
  moreover have "chain_ok cs"
    unfolding chain_ok_def
  proof (intro allI impI)
    fix i assume "i < length cs"
    then show "next_chunk_address (cs ! i) = (if Suc i < length cs
        then of_nat (fst (disk_byte_range (reserved_chunk (cs ! Suc i)))) else NO_CHUNK)"
      using ch unfolding chain_ok_def by (auto dest: spec [of _ "Suc i"])
  qed
  ultimately show ?thesis by simp
qed

lemma read_chunk_ok:
  assumes "CHUNK_BYTES dvd p" and "p + CHUNK_BYTES \<le> capacity f" and "capacity f \<le> i64_max"
  obtains f' where "read_at (IoOk t) p CHUNK_BYTES f = (f', Inr (disk_read p CHUNK_BYTES (image f)))"
    and "image f' = image f" and "capacity f' = capacity f"
proof -
  have lt: "p + CHUNK_BYTES < u64_limit" using assms(2,3) by (simp add: i64_max_def u64_limit_def)
  have al: "p mod DIRECT_IO_ALIGNMENT_BYTES = 0"
    using assms(1) by (auto simp: DIRECT_IO_ALIGNMENT_BYTES_def CHUNK_BYTES_def)
  have u: "CHUNK_BYTES mod u64_limit = CHUNK_BYTES" "CHUNK_BYTES \<noteq> 0" by (simp_all add: CHUNK_BYTES_def u64_limit_def)
  have "length (disk_read p CHUNK_BYTES (image f)) = CHUNK_BYTES" by (simp add: disk_read_def)
  then have "snd (read_at (IoOk t) p CHUNK_BYTES f) = Inr (disk_read p CHUNK_BYTES (image f))"
    using assms(2) lt al u chunk_disk_bytes
    by (simp add: read_at_def measure_io_def check_range_fits_file_def checked_add_def read_slice_def queue_read_def
        slice_def Let_def)
  moreover obtain f' r where rd: "read_at (IoOk t) p CHUNK_BYTES f = (f', r)" by fastforce
  ultimately show ?thesis using that read_chunk(1,2) [OF assms(1) rd] by auto
qed

lemma chunk_range_one: "chunk_ok c \<Longrightarrow> chunk_numbers (reserved_chunk c)
    = (chunk_address c div CHUNK_BYTES, chunk_address c div CHUNK_BYTES + 1)"
  by (cases "chunk_numbers (reserved_chunk c)")
     (auto simp: chunk_ok_def chunk_count_def chunk_address_def disk_byte_range_def CHUNK_BYTES_def)

lemma chunk_address_dvd: "CHUNK_BYTES dvd chunk_address c"
  by (simp add: chunk_address_def disk_byte_range_def)

text \<open>A chunk of the chain can be loaded when its chunk is free and it is on disk.\<close>

definition loadable :: "(byte list \<Rightarrow> u64) \<Rightarrow> data_file \<Rightarrow> metadata_chunk \<Rightarrow> bool" where
  "loadable xxh f c \<longleftrightarrow> chunk_ok c \<and> (\<forall>slot \<in> set (entries c). slot_ok slot) \<and>
    (\<forall>i < 256. page_on_disk xxh (image f) c i) \<and> chunk_address c + CHUNK_BYTES \<le> capacity f"

lemma reserve_at_free:
  assumes "runs_ok (free a)" and "{c..<c + n} \<subseteq> runs_set (free a)" and "0 < n" and "c + n < u64_limit"
  obtains dm' a' where "reserve_chunks_at c n (dm, a) = Some ((dm', a'), \<lparr>chunk_numbers = (c, c + n), recovered = False\<rparr>)"
    and "runs_ok (free a')" and "runs_set (free a') = runs_set (free a) - {c..<c + n}"
    and "payload_chunks a' = payload_chunks a"
proof -
  have "reserve_runs (c, c + n) (free a) \<noteq> None" using fs.reserve_iff [OF assms(1), of "(c, c + n)"] assms(2,3) by simp
  then obtain runs where runs: "reserve_runs (c, c + n) (free a) = Some runs" by blast
  let ?dm = "dm\<lparr>free_chunks := free_chunks dm - int n, allocated_chunks := allocated_chunks dm + int n\<rparr>"
  have "reserve_chunks_at c n (dm, a) = Some ((?dm, a\<lparr>free := runs\<rparr>), \<lparr>chunk_numbers = (c, c + n), recovered = False\<rparr>)"
    using runs assms(4) by (simp add: reserve_chunks_at_def checked_add_def reserve_chunk_numbers_def Let_def)
  from that [OF this] show ?thesis
    using fs.reserve_ok [OF assms(1) runs] fs.reserve_free [OF assms(1) runs] by simp
qed

lemma load_chain_back:
  assumes "chain_ok ds" and "\<And>c. c \<in> set ds \<Longrightarrow> loadable xxh f c" and "chunks_apart ds"
    and "runs_ok (free (snd s))" and "\<And>c. c \<in> set ds \<Longrightarrow> chunk_address c div CHUNK_BYTES \<in> runs_set (free (snd s))"
    and "\<And>n. \<exists>t. ocs n = IoOk t" and "capacity f \<le> i64_max"
  shows "\<exists>s' f'. load_metadata_chunks xxh ocs (link_to ds) s f cs = Some (NO_CHUNK, s', f', cs @ map reloaded ds)"
  using assms
proof (induction ds arbitrary: ocs s f cs)
  case Nil
  then show ?case by (subst load_metadata_chunks.simps) (simp add: link_to_def)
next
  case (Cons c ds)
  obtain dm a where s: "s = (dm, a)" by (cases s)
  let ?n = "chunk_address c div CHUNK_BYTES"
  have c: "loadable xxh f c" by (rule Cons.prems(2)) simp
  have ok: "chunk_ok c" and pages: "\<forall>i < 256. page_on_disk xxh (image f) c i"
    and slots: "\<forall>slot \<in> set (entries c). slot_ok slot" and fits: "chunk_address c + CHUNK_BYTES \<le> capacity f"
    using c by (auto simp: loadable_def)
  have lt: "chunk_address c + CHUNK_BYTES \<le> i64_max" using fits Cons.prems(7) by simp
  have addr: "unat (of_nat (chunk_address c) :: u64) = chunk_address c" "(of_nat (chunk_address c) :: u64) \<noteq> NO_CHUNK"
  proof -
    show u: "unat (of_nat (chunk_address c) :: u64) = chunk_address c"
      using lt by (simp add: unat_of_nat i64_max_def)
    have "unat NO_CHUNK = 2 ^ 64 - 1" by (simp add: NO_CHUNK_def unsigned_minus_1_eq_mask mask_eq_exp_minus_1)
    then show "(of_nat (chunk_address c) :: u64) \<noteq> NO_CHUNK" using u lt by (auto simp: i64_max_def)
  qed
  have sub: "{?n..<?n + 1} \<subseteq> runs_set (free a)" using Cons.prems(5) [of c] s by auto
  have n: "?n + 1 < u64_limit"
    using lt div_le_dividend [of "chunk_address c" CHUNK_BYTES] by (simp add: i64_max_def u64_limit_def CHUNK_BYTES_def)
  obtain dm1 a1 where res: "reserve_chunks_at ?n 1 (dm, a) = Some ((dm1, a1), \<lparr>chunk_numbers = (?n, ?n + 1), recovered = False\<rparr>)"
    and a1: "runs_ok (free a1)" "runs_set (free a1) = runs_set (free a) - {?n..<?n + 1}"
    using reserve_at_free [OF Cons.prems(4) [unfolded s snd_conv] sub zero_less_one n] by metis
  obtain t where t: "ocs 0 = IoOk t" using Cons.prems(6) by blast
  obtain f1 where rd: "read_at (ocs 0) (chunk_address c) CHUNK_BYTES f
      = (f1, Inr (disk_read (chunk_address c) CHUNK_BYTES (image f)))" and f1: "image f1 = image f" "capacity f1 = capacity f"
    unfolding t by (rule read_chunk_ok [OF chunk_address_dvd fits Cons.prems(7)]) blast
  let ?r = "\<lparr>chunk_numbers = (?n, ?n + 1), recovered = True\<rparr>"
  have dec: "decode_metadata_chunk xxh ?r (disk_read (chunk_address c) CHUNK_BYTES (image f)) = (reloaded c, Some (next_chunk_address c))"
    unfolding chunk_address_def by (rule decode_reloaded [OF pages ok slots]) (simp_all add: chunk_range_one [OF ok] chunk_address_def)
  have nz: "\<not> list_all (\<lambda>b. b = 0) (disk_read (chunk_address c) CHUNK_BYTES (image f))"
    unfolding chunk_address_def by (rule written_chunk_nonzero [OF pages ok])
  have ch: "next_chunk_address c = link_to ds" "chain_ok ds" using chain_ok_Cons [OF Cons.prems(1)] by simp_all
  have apart: "chunk_address d div CHUNK_BYTES \<noteq> ?n" if "d \<in> set ds" for d
    using Cons.prems(3) that by (auto simp: chunks_apart_def chunk_address_def disk_byte_range_def CHUNK_BYTES_def image_iff)
  have "load_metadata_chunks xxh ocs (link_to (c # ds)) s f cs
      = load_metadata_chunks xxh (\<lambda>n. ocs (Suc n)) (link_to ds) (fst (mark_recovered dm1 \<lparr>chunk_numbers = (?n, ?n + 1), recovered = False\<rparr>), a1) f1 (cs @ [reloaded c])"
    using res rd nz addr chunk_address_dvd [of c] dec ch(1)
    by (subst load_metadata_chunks.simps) (simp add: link_to_def s mark_recovered_def)
  moreover have "\<exists>s' f'. load_metadata_chunks xxh (\<lambda>n. ocs (Suc n)) (link_to ds)
      (fst (mark_recovered dm1 \<lparr>chunk_numbers = (?n, ?n + 1), recovered = False\<rparr>), a1) f1 (cs @ [reloaded c])
      = Some (NO_CHUNK, s', f', (cs @ [reloaded c]) @ map reloaded ds)"
  proof (rule Cons.IH)
    show "chain_ok ds" by (rule ch(2))
    show "loadable xxh f1 d" if "d \<in> set ds" for d using Cons.prems(2) [of d] that f1 by (simp add: loadable_def)
    show "chunks_apart ds" using Cons.prems(3) by (simp add: chunks_apart_def)
    show "chunk_address d div CHUNK_BYTES \<in> runs_set (free (snd (fst (mark_recovered dm1 \<lparr>chunk_numbers = (?n, ?n + 1), recovered = False\<rparr>), a1)))"
      if "d \<in> set ds" for d
      using Cons.prems(5) [of d] apart [OF that] that a1(2) s by auto
  qed (use a1 f1 Cons.prems(6,7) in auto)
  ultimately show ?case by simp
qed

subsection \<open>Holding the payloads again\<close>

text \<open>Holds of one allocator that another one also has, with the same chunks.\<close>

definition holds_within :: "disk_chunk_allocator \<Rightarrow> disk_chunk_allocator \<Rightarrow> bool" where
  "holds_within a a0 \<longleftrightarrow> (\<forall>c r n. payload_chunks a c = Some (r, n) \<longrightarrow>
    (\<exists>r0 n0. payload_chunks a0 c = Some (r0, n0) \<and> chunk_numbers r0 = chunk_numbers r))"

lemma live_count_plus [simp]: "live_count c (live + live') = live_count c live + live_count c live'"
  by (simp add: live_count_def)

lemma hold_again:
  assumes inv0: "alloc_inv lo hi (live + extra) a0" and inv: "alloc_inv lo hi live a" and sub: "holds_within a a0"
    and c: "payload_chunks a0 (fst d div CHUNK_BYTES) = Some (r0, n0)" "div_ceil (snd d) CHUNK_BYTES = snd (chunk_numbers r0)"
    and hi: "hi < u64_limit"
  obtains dm' a' where "hold_chunks_for_recovered_payload d (dm, a) = Some (dm', a')" and "holds_within a' a0"
proof -
  let ?c = "fst d div CHUNK_BYTES"
  have pos: "0 < CHUNK_BYTES" by (simp add: CHUNK_BYTES_def)
  have r0: "fst (chunk_numbers r0) = ?c" "?c < snd (chunk_numbers r0)" using alloc_inv_D(4) [OF inv0 c(1)] by auto
  have nums: "chunk_numbers r0 = (?c, snd (chunk_numbers r0))" using r0(1) by (metis prod.collapse)
  show ?thesis
  proof (cases "payload_chunks a ?c")
    case (Some h)
    obtain r n where h: "h = (r, n)" by fastforce
    have "chunk_numbers r = chunk_numbers r0" using sub Some h c(1) unfolding holds_within_def by fastforce
    then have "snd d \<le> snd (disk_byte_range r)" using div_ceil_mult [OF pos, of "snd d"] c(2) by (simp add: disk_byte_range_def)
    then have "hold_chunks_for_recovered_payload d (dm, a)
        = Some (dm, a\<lparr>payload_chunks := (payload_chunks a)(?c \<mapsto> (r, n + 1))\<rparr>)"
      using Some h by (simp add: hold_chunks_for_recovered_payload_def Let_def)
    moreover have "holds_within (a\<lparr>payload_chunks := (payload_chunks a)(?c \<mapsto> (r, n + 1))\<rparr>) a0"
      using sub Some h by (auto simp: holds_within_def)
    ultimately show ?thesis by (rule that)
  next
    case None
    let ?e = "snd (chunk_numbers r0)"
    have free: "{?c..<?e} \<subseteq> runs_set (free a)"
    proof
      fix x assume "x \<in> {?c..<?e}"
      then have x: "x \<in> rng_set (chunk_numbers r0)" by (subst nums) simp
      note E = held_exclusive [OF inv0 c(1) x]
      have "x \<notin> rng_set (chunk_numbers r)" if k: "payload_chunks a k = Some (r, n)" for k r n
      proof
        assume xr: "x \<in> rng_set (chunk_numbers r)"
        obtain r1 n1 where "payload_chunks a0 k = Some (r1, n1)" "chunk_numbers r1 = chunk_numbers r"
          using sub k unfolding holds_within_def by blast
        then have "k = ?c" using E(3) [of k r1 n1] xr by simp
        then show False using None k by simp
      qed
      then have "held_count x (payload_chunks a) = 0"
        unfolding held_count_def map_total_def by (intro sum.neutral) fastforce
      then show "x \<in> runs_set (free a)"
        using alloc_inv_D(6) [OF inv, of x] E(1,2) unfolding owners_def by (cases "x \<in> runs_set (free a)") simp_all
    qed
    have "?e - 1 \<in> rng_set (chunk_numbers r0)" unfolding atLeastLessThan_iff r0(1) using r0(2) by linarith
    then have "?e - 1 \<in> {lo..<hi}" by (rule subsetD [OF held_not_free(2) [OF inv0 c(1)]])
    then have "?e \<le> hi" unfolding atLeastLessThan_iff by linarith
    then have lim: "?c + (?e - ?c) < u64_limit" using hi r0(2) by linarith
    have e: "?c + (?e - ?c) = ?e" using r0(2) by simp
    have avail: "{?c..<?c + (?e - ?c)} \<subseteq> runs_set (free a)" "0 < ?e - ?c" using free r0(2) by simp_all
    obtain dm1 a1 where
      res: "reserve_chunks_at ?c (?e - ?c) (dm, a) = Some ((dm1, a1), \<lparr>chunk_numbers = (?c, ?e), recovered = False\<rparr>)"
      and a1: "payload_chunks a1 = payload_chunks a"
      using reserve_at_free [OF alloc_inv_D(1) [OF inv] avail lim, of dm] unfolding e by metis
    have w: "wrapping_sub ?e ?c = ?e - ?c" using wrapping_sub_le [of ?c ?e] r0(2) lim by simp
    obtain dm2 r2 where mk: "mark_recovered dm1 \<lparr>chunk_numbers = (?c, ?e), recovered = False\<rparr> = (dm2, r2)"
      "chunk_numbers r2 = (?c, ?e)" by (simp add: mark_recovered_def)
    let ?a' = "a1\<lparr>payload_chunks := (payload_chunks a1)(?c \<mapsto> (r2, 1))\<rparr>"
    have "hold_chunks_for_recovered_payload d (dm, a) = Some (dm2, ?a')"
      using None res w mk(1) c(2) by (simp add: hold_chunks_for_recovered_payload_def Let_def)
    moreover have "holds_within ?a' a0"
      using sub c(1) nums mk(2) by (auto simp: holds_within_def a1)
    ultimately show ?thesis by (rule that)
  qed
qed

subsection \<open>The scan accepts every entry\<close>

definition entry_view :: "disk_cache_shard \<Rightarrow> object_key_hash \<Rightarrow> (entry_metadata \<times> entry_metadata_location) option" where
  "entry_view sh k = map_option (\<lambda>e. (entry_meta k e, entry_location e)) (entries_by_key (entry_index sh) k)"

text \<open>The scan has rebuilt exactly the entries whose locations it has visited.\<close>

definition back_inv :: "disk_cache_shard \<Rightarrow> entry_metadata_location set \<Rightarrow> disk_cache_shard \<Rightarrow> bool" where
  "back_inv sh0 todo sh \<longleftrightarrow>
    slot_at (chunks (metadata_pages sh)) = slot_at (chunks (metadata_pages sh0)) \<and>
    meta_live (metadata_pages sh) = meta_live (metadata_pages sh0) \<and> holds_within (allocator sh) (allocator sh0) \<and>
    (\<forall>k. entry_view sh k = (case entry_view sh0 k of
       None \<Rightarrow> None | Some (em, loc) \<Rightarrow> if loc \<in> todo then None else Some (em, loc)))"

lemma recover_slot_back:
  assumes old: "shard_inv lo hi extra sh0" "holds_exact sh0"
    and shard: "\<forall>k \<in> dom (entries_by_key (entry_index sh0)). shard_index_for_key num_shards k = idx"
    and hi: "hi < u64_limit" and fresh: "loc \<notin> todo"
    and core: "shard_core lo hi {#} (\<lambda>_. 0) (insert loc todo) sh" and bk: "back_inv sh0 (insert loc todo) sh"
  shows "\<exists>dm' sh' n' bytes'. recover_slot num_shards idx loc ((dm, sh), n, bytes) = Some ((dm', sh'), n', bytes')
    \<and> back_inv sh0 todo sh'"
proof -
  have core0: "shard_core lo hi extra (\<lambda>_. 0) {} sh0" using old(1) by (simp add: shard_inv_def)
  note D0 = shard_core_D [OF core0] and D = shard_core_D [OF core]
  have slots: "slot_at (chunks (metadata_pages sh)) = slot_at (chunks (metadata_pages sh0))"
    and live: "meta_live (metadata_pages sh) = meta_live (metadata_pages sh0)"
    and within: "holds_within (allocator sh) (allocator sh0)"
    and view: "\<And>k. entry_view sh k = (case entry_view sh0 k of
       None \<Rightarrow> None | Some (em, l) \<Rightarrow> if l \<in> insert loc todo then None else Some (em, l))"
    using bk by (auto simp: back_inv_def)
  show ?thesis
  proof (cases "slot_at (chunks (metadata_pages sh0)) loc")
    case None
    have "l \<noteq> loc" if "entry_view sh0 k = Some (em, l)" for k em l
      using that D0(3) [of k] None by (auto simp: entry_view_def)
    then have "back_inv sh0 todo sh" using slots live within view by (auto simp: back_inv_def split: option.splits)
    then show ?thesis using None slots by (auto simp: recover_slot_def)
  next
    case (Some em)
    obtain e0 where e0: "entries_by_key (entry_index sh0) (key em) = Some e0" "entry_location e0 = loc"
      using D0(6) [OF Some] by auto
    have em: "em = entry_meta (key em) e0" using D0(3) [OF e0(1)] Some e0(2) by simp
    have absent: "entries_by_key (entry_index sh) (key em) = None"
      using view [of "key em"] e0 by (simp add: entry_view_def)
    have e: "entry_chunk (new_disk_entry em loc) = entry_chunk e0" "payload_end (new_disk_entry em loc) = payload_end e0"
      by (subst em, simp add: entry_chunk_def payload_end_def new_disk_entry_def entry_meta_def)+
    obtain r0 n0 where h0: "payload_chunks (allocator sh0) (entry_chunk e0) = Some (r0, n0)"
      using D0(5) [OF e0(1)] by (auto simp: inside_hold_def split: option.splits)
    have h: "payload_chunks (allocator sh0) (fst (recovered_payload em) div CHUNK_BYTES) = Some (r0, n0)"
      "div_ceil (snd (recovered_payload em)) CHUNK_BYTES = snd (chunk_numbers r0)"
      using h0 old(2) e0(1) e recovered_payload_entry [of em loc] by (auto simp: holds_exact_def)
    have inv0: "alloc_inv lo hi (meta_live (metadata_pages sh0) + extra) (allocator sh0)" by (rule D0(1))
    have inv: "alloc_inv lo hi (meta_live (metadata_pages sh0)) (allocator sh)" using D(1) live by simp
    obtain dm1 a1 where hold: "hold_chunks_for_recovered_payload (recovered_payload em) (dm, allocator sh) = Some (dm1, a1)"
      and w1: "holds_within a1 (allocator sh0)"
      by (rule hold_again [OF inv0 inv within h hi])
    let ?e = "(new_disk_entry em loc)\<lparr>eviction_position := length (eviction_candidates (entry_index sh))\<rparr>"
    let ?sh' = "sh\<lparr>allocator := a1, entry_index := (entry_index sh)\<lparr>
      eviction_candidates := eviction_candidates (entry_index sh) @ [key em],
      entries_by_key := (entries_by_key (entry_index sh))(key em \<mapsto> ?e)\<rparr>\<rparr>"
    have "insert_entry (key em) (new_disk_entry em loc) (dm1, sh\<lparr>allocator := a1\<rparr>) = Some (dm1, ?sh')"
      using remove_entry_absent [of "sh\<lparr>allocator := a1\<rparr>" "key em" dm1] absent by (simp add: insert_entry_def Let_def)
    then have "recover_slot num_shards idx loc ((dm, sh), n, bytes) = Some ((dm1, ?sh'), n + 1, bytes + unat (payload_len em))"
      using Some slots absent hold bspec [OF shard, of "key em"] e0(1) by (simp add: recover_slot_def domI)
    moreover have "entry_view ?sh' k = (case entry_view sh0 k of None \<Rightarrow> None
        | Some (em, l) \<Rightarrow> if l \<in> todo then None else Some (em, l))" for k
    proof (cases "k = key em")
      case True
      have "entry_meta (key em) (new_disk_entry em loc) = em" by (simp add: entry_meta_def new_disk_entry_def)
      moreover have "entry_location (new_disk_entry em loc) = loc" by (simp add: new_disk_entry_def)
      ultimately show ?thesis using True e0 em fresh by (simp add: entry_view_def)
    next
      case False
      have "l \<noteq> loc" if "entry_view sh0 k = Some (em', l)" for em' l
        using that D0(3) [of k] Some False by (auto simp: entry_view_def entry_meta_def)
      moreover have "entry_view ?sh' k = entry_view sh k" using False by (simp add: entry_view_def)
      ultimately show ?thesis using view [of k] by (auto split: option.splits)
    qed
    then have "back_inv sh0 todo ?sh'" using slots live w1 by (simp add: back_inv_def)
    ultimately show ?thesis by blast
  qed
qed

lemma recover_slots_back:
  assumes old: "shard_inv lo hi extra sh0" "holds_exact sh0"
    and shard: "\<forall>k \<in> dom (entries_by_key (entry_index sh0)). shard_index_for_key num_shards k = idx"
    and hi: "hi < u64_limit" and locs: "distinct locs" "\<forall>loc \<in> set locs. valid_loc (chunks m) loc"
    and inv: "scan_inv lo hi {#} num_shards idx m dm0 (set locs) ((dm, sh), n, bytes)" and bk: "back_inv sh0 (set locs) sh"
  shows "\<exists>dm' sh' n' bytes'. recover_slots num_shards idx locs ((dm, sh), n, bytes) = Some ((dm', sh'), n', bytes')
    \<and> back_inv sh0 {} sh'"
  using locs inv bk
proof (induction locs arbitrary: dm sh n bytes)
  case (Cons loc locs)
  let ?acc = "((dm, sh), n, bytes)"
  have core: "shard_core lo hi {#} (\<lambda>_. 0) (insert loc (set locs)) sh" using Cons.prems(3) by (simp add: scan_inv_def Let_def)
  obtain dm1 sh1 n1 b1 where st: "recover_slot num_shards idx loc ?acc = Some ((dm1, sh1), n1, b1)" "back_inv sh0 (set locs) sh1"
    using recover_slot_back [OF old shard hi _ core, of dm n bytes] Cons.prems(1,4) by auto
  have "scan_inv lo hi {#} num_shards idx m dm0 (set locs) ((dm1, sh1), n1, b1)"
    using recover_slot_ok [of lo hi "{#}" num_shards idx m dm0 loc "set locs" ?acc] Cons.prems(1-3) st(1) by auto
  then show ?case using Cons.IH [of dm1 sh1 n1 b1] Cons.prems(1,2) st by simp
qed simp

subsection \<open>A clean restart\<close>

text \<open>Metadata chunks have different owners, so they lie apart.\<close>

lemma chunk_live_apart:
  assumes "alloc_inv lo hi (chunk_live cs + live) a"
  shows "chunks_apart cs"
  using assms unfolding chunks_apart_def
proof (induction cs arbitrary: live)
  case (Cons c cs)
  let ?r = "\<lambda>c. chunk_numbers (reserved_chunk c)"
  have inv: "alloc_inv lo hi (chunk_live cs + add_mset (?r c) live) a" using Cons.prems by simp
  have "fst (?r d) \<noteq> fst (?r c)" if d: "d \<in> set cs" for d
  proof
    assume eq: "fst (?r d) = fst (?r c)"
    have ne: "fst (?r d) < snd (?r d)" "fst (?r c) < snd (?r c)"
      using alloc_inv_D(5) [OF inv, of "?r d"] alloc_inv_D(5) [OF inv, of "?r c"] d by auto
    have "1 \<le> live_count (fst (?r c)) (chunk_live cs)"
      using d eq ne by (intro live_count_ge [of "?r d"]) auto
    moreover have "1 \<le> live_count (fst (?r c)) (add_mset (?r c) live)" using ne(2) by simp
    ultimately have "2 \<le> owners (chunk_live cs + add_mset (?r c) live) a (fst (?r c))"
      unfolding owners_def live_count_plus by linarith
    moreover have "owners (chunk_live cs + add_mset (?r c) live) a (fst (?r c)) \<le> 1"
      unfolding alloc_inv_D(6) [OF inv] by simp
    ultimately show False by linarith
  qed
  then have "fst (?r c) \<notin> fst ` ?r ` set cs" by (metis (no_types, lifting) imageE)
  then show ?case using Cons.IH [OF inv] by (simp add: image_image)
qed simp

lemma reloaded_fields [simp]:
  "entries (reloaded c) = entries c" "chunk_numbers (reserved_chunk (reloaded c)) = chunk_numbers (reserved_chunk c)"
  by (simp_all add: reloaded_def)

text \<open>All payloads of a shard lie behind the header chunk, so no stored entry encodes as unused.\<close>

lemma stored_slots_ok:
  assumes "shard_inv lo hi live sh" and "0 < lo" and "c \<in> set (chunks (metadata_pages sh))" and "slot \<in> set (entries c)"
  shows "slot_ok slot"
proof (cases slot)
  case (Some em)
  have core: "shard_core lo hi live (\<lambda>_. 0) {} sh" using assms(1) by (simp add: shard_inv_def)
  note D = shard_core_D [OF core]
  obtain i j where "i < length (chunks (metadata_pages sh))" "j < length (entries (chunks (metadata_pages sh) ! i))"
    "entries (chunks (metadata_pages sh) ! i) ! j = Some em"
    using assms(3,4) Some by (metis in_set_conv_nth)
  then have "slot_at (chunks (metadata_pages sh)) (EntryMetadataLocation i j) = Some em"
    by (simp add: slot_at_def valid_loc_def)
  from D(6) [OF this] obtain e where e: "entries_by_key (entry_index sh) (key em) = Some e"
    "entry_location e = EntryMetadataLocation i j" by auto
  then have em: "em = entry_meta (key em) e"
    using D(3) [OF e(1)] \<open>slot_at (chunks (metadata_pages sh)) (EntryMetadataLocation i j) = Some em\<close> by simp
  obtain r n where h: "payload_chunks (allocator sh) (entry_chunk e) = Some (r, n)"
    using D(5) [OF e(1)] by (auto simp: inside_hold_def split: option.splits)
  have "entry_chunk e \<in> {lo..<hi}"
    using held_not_free(2) [OF D(1) h] alloc_inv_D(4) [OF D(1) h] by auto
  then have "unat (entry_payload_address e) \<noteq> 0" using assms(2) by (intro notI) (simp add: entry_chunk_def)
  then have "payload_address em \<noteq> 0" by (subst em) (auto simp: entry_meta_def)
  then show ?thesis using Some by (simp add: slot_ok_def)
qed (simp add: slot_ok_def)

lemma load_chain_restart:
  assumes old: "shard_inv lo hi extra sh0" "0 < lo" and cs: "chunks (metadata_pages sh0) = c # cs"
    and disk: "chain_on_disk xxh (image f) (c # cs)" and cap: "hi * CHUNK_BYTES \<le> capacity f" "capacity f \<le> i64_max"
    and new: "alloc_inv lo hi {#} a" "payload_chunks a = Map.empty" and ocs: "\<forall>n. \<exists>t. ocs n = IoOk t"
  shows "\<exists>s' f'. load_metadata_chain xxh ocs (of_nat (chunk_address c)) (dm, a) f
    = Some (s', f', default_metadata_chunks\<lparr>chunks := map reloaded (c # cs)\<rparr>)"
proof -
  have core0: "shard_core lo hi extra (\<lambda>_. 0) {} sh0" and meta: "meta_inv (metadata_pages sh0)"
    using old(1) by (simp_all add: shard_inv_def)
  have inv0: "alloc_inv lo hi (chunk_live (c # cs) + extra) (allocator sh0)"
    using shard_core_D(1) [OF core0] unfolding meta_live_def cs .
  have range: "chunk_address d div CHUNK_BYTES \<in> {lo..<hi}" "chunk_address d + CHUNK_BYTES \<le> capacity f"
    if d: "d \<in> set (c # cs)" for d
  proof -
    have nums: "chunk_numbers (reserved_chunk d) = (chunk_address d div CHUNK_BYTES, chunk_address d div CHUNK_BYTES + 1)"
      by (rule chunk_range_one [OF meta_inv_D(1) [OF meta]]) (use d cs in simp)
    have "chunk_numbers (reserved_chunk d) \<in># chunk_live (c # cs) + extra" using d by auto
    from live_not_free(2) [OF inv0 this] show r: "chunk_address d div CHUNK_BYTES \<in> {lo..<hi}" unfolding nums by simp
    then have "(chunk_address d div CHUNK_BYTES + 1) * CHUNK_BYTES \<le> hi * CHUNK_BYTES" by (intro mult_le_mono1) simp
    then show "chunk_address d + CHUNK_BYTES \<le> capacity f"
      using cap(1) chunk_address_dvd [of d] by simp
  qed
  have "owners {#} a x = of_bool (x \<in> runs_set (free a))" for x
    by (simp add: owners_def held_count_def new(2))
  then have free: "x \<in> runs_set (free a)" if "x \<in> {lo..<hi}" for x
    using alloc_inv_D(6) [OF new(1), of x] that by (cases "x \<in> runs_set (free a)") simp_all
  have "\<exists>s' f'. load_metadata_chunks xxh ocs (link_to (c # cs)) (dm, a) f [] = Some (NO_CHUNK, s', f', [] @ map reloaded (c # cs))"
  proof (rule load_chain_back)
    show "chain_ok (c # cs)" using meta_inv_D(2) [OF meta] cs by simp
    show "loadable xxh f d" if d: "d \<in> set (c # cs)" for d
      using meta_inv_D(1) [OF meta, of d] stored_slots_ok [OF old, of d] disk range(2) [OF d] d cs
      by (auto simp: loadable_def chain_on_disk_def)
    show "chunks_apart (c # cs)" by (rule chunk_live_apart [OF inv0])
    show "runs_ok (free (snd (dm, a)))" using alloc_inv_D(1) [OF new(1)] by simp
    show "chunk_address d div CHUNK_BYTES \<in> runs_set (free (snd (dm, a)))" if "d \<in> set (c # cs)" for d
      using free [OF range(1) [OF that]] by simp
  qed (use ocs cap(2) in auto)
  then show ?thesis by (auto simp: load_metadata_chain_def link_to_def Let_def)
qed


text \<open>A file that holds one chain, for the example.\<close>

definition chain_file :: "(byte list \<Rightarrow> u64) \<Rightarrow> metadata_chunk \<Rightarrow> nat \<Rightarrow> data_file" where
  "chain_file xxh c n = (zero_file n)\<lparr>image :=
    disk_write (chunk_address c) (concat (map (page_bytes xxh c) [0..<256])) (\<lambda>_. 0)\<rparr>"

lemma chain_file_on_disk:
  assumes "chunk_ok c"
  shows "chain_on_disk xxh (image (chain_file xxh c n)) [c]"
proof -
  let ?pages = "map (page_bytes xxh c) [0..<256]"
  have len: "\<forall>p \<in> set ?pages. length p = 4096"
    using length_page_bytes [OF assms, of _ xxh] by (auto simp: page_consts)
  have l: "length (concat ?pages) = 256 * 4096" using length_concat_uniform [OF len] by (simp only: length_map length_upt diff_zero)
  have "page_on_disk xxh (image (chain_file xxh c n)) c i" if i: "i < 256" for i
  proof -
    have "disk_read (chunk_address c + i * 4096) 4096 (disk_write (chunk_address c) (concat ?pages) (\<lambda>_. 0))
        = slice (i * 4096) (i * 4096 + 4096) (concat ?pages)"
      using img.rd_wr_inside [of "chunk_address c" "chunk_address c + i * 4096" 4096 "concat ?pages" "\<lambda>_. 0"] i
      unfolding l by simp
    also have "\<dots> = page_bytes xxh c i"
      using slice_concat_uniform [OF len, of i] i by (simp only: length_map length_upt diff_zero nth_map nth_upt add_0)
    finally show ?thesis
      by (simp add: page_on_disk_def page_addr_def chain_file_def chunk_address_def page_consts)
  qed
  then show ?thesis by (simp add: chain_on_disk_def)
qed


end
