(* ===== verification/Writer.thy ===== *)
theory Writer
  imports Recovery
begin

text \<open>
  Writing payloads, \<open>feuer-storage/src/disk_cache/writer.rs\<close>. A write reserves chunks, evicting sampled
  entries within one budget while there is no room, writes the payload without holding a lock, and
  publishes its entries. \<open>try_reserve\<close>, \<open>sample_and_evict_entry\<close> and \<open>publish\<close> are the parts that run
  under the locks of the shard; \<open>write_payload\<close> is their composition for a writer that is not
  interleaved with others, and the lemmas on the parts cover the interleaved case, because the chunks of
  other writers are the \<open>live\<close> reservations of the shard invariant.
\<close>

datatype disk_cache_error = InvalidCapacity | DataFileError data_file_error | WriteTaskFailed

definition MAX_EVICTION_ATTEMPTS :: nat where
  "MAX_EVICTION_ATTEMPTS = 64"

definition MAX_EVICTION_CHUNKS :: nat where
  "MAX_EVICTION_CHUNKS = 4096"

subsection \<open>Reserving\<close>

definition try_reserve :: "nat \<Rightarrow> nat \<Rightarrow> shard_state \<Rightarrow> shard_state \<times> reserved_chunks option" where
  "try_reserve required_chunks entry_count s =
    (let (dm, sh) = s in
     case ensure_free_slots entry_count (dm, allocator sh) (metadata_pages sh) of
       None \<Rightarrow> (s, None)
     | Some ((dm1, a1), m1) \<Rightarrow>
         (case reserve_chunks required_chunks (dm1, a1) of
            None \<Rightarrow> ((dm1, sh\<lparr>allocator := a1, metadata_pages := m1\<rparr>), None)
          | Some ((dm2, a2), r) \<Rightarrow> ((dm2, sh\<lparr>allocator := a2, metadata_pages := m1\<rparr>), Some r)))"

lemma sampling_takes_attempt:
  "sample_and_evict_entry score n budget s = Some (budget', s', True) \<Longrightarrow> fst budget' < fst budget"
  by (auto simp: sample_and_evict_entry_def Let_def split: prod.splits if_splits option.splits)

text \<open>The loop until chunks are reserved, the payload cannot fit at all, or the budget is used up. The
  flag is what the loop last assigned to \<open>evicted\<close>: whether it has evicted an entry.\<close>

function reserve_for_write ::
  "(object_key_hash \<Rightarrow> nat \<Rightarrow> 's::linorder) \<Rightarrow> nat \<Rightarrow> nat \<Rightarrow> nat \<Rightarrow> nat \<times> nat \<Rightarrow> bool option \<Rightarrow> shard_state
    \<Rightarrow> (shard_state \<times> reserved_chunks option \<times> bool option) option" where
  "reserve_for_write score sample_size required_chunks entry_count budget ev s =
    (case try_reserve required_chunks entry_count s of
       (s1, Some r) \<Rightarrow> Some (s1, Some r, ev)
     | (s1, None) \<Rightarrow>
         let payload_chunk_capacity =
               wrapping_sub (chunk_capacity (allocator (snd s1))) (length (chunks (metadata_pages (snd s1))))
         in if required_chunks > payload_chunk_capacity then Some (s1, None, ev)
            else (case sample_and_evict_entry score sample_size budget s1 of
                None \<Rightarrow> None
              | Some (budget', s2, sampled) \<Rightarrow>
                  if sampled
                  then reserve_for_write score sample_size required_chunks entry_count budget'
                    (Some (snd budget' \<noteq> MAX_EVICTION_CHUNKS)) s2
                  else Some (s2, None, ev)))"
  by pat_completeness auto
termination
  by (relation "measure (\<lambda>(score, sample_size, required_chunks, entry_count, budget, ev, s). fst budget)")
     (auto intro: sampling_takes_attempt)

declare reserve_for_write.simps [simp del]

subsection \<open>Publishing\<close>

definition write_metadata :: "nat \<Rightarrow> write_entry \<Rightarrow> entry_metadata" where
  "write_metadata range_start e = \<lparr>key = write_key e, payload_len = of_nat (write_payload_len e),
    payload_address = of_nat (range_start + buffer_offset e), payload_checksum = write_payload_checksum e\<rparr>"

definition finish_entry :: "disk_write_outcome \<Rightarrow> write_entry \<Rightarrow> disk_metrics \<Rightarrow> disk_metrics" where
  "finish_entry out e dm = drop_write_entry (e\<lparr>attempt := (attempt e)\<lparr>outcome := out\<rparr>\<rparr>) dm"

text \<open>One iteration of the publication loop; the entry is dropped at its end. The counters are the
  published entries and their payload bytes.\<close>

definition publish_entry ::
  "nat \<Rightarrow> write_entry \<Rightarrow> shard_state \<times> nat \<times> nat \<Rightarrow> (shard_state \<times> nat \<times> nat) option" where
  "publish_entry range_start e acc =
    (let ((dm, sh), published, published_payload_bytes) = acc in
     if entries_by_key (entry_index sh) (write_key e) \<noteq> None then
       (case release_payload range_start (dm, allocator sh) of
          None \<Rightarrow> None
        | Some (dm1, a1) \<Rightarrow>
            Some ((finish_entry AlreadyCovered e dm1, sh\<lparr>allocator := a1\<rparr>), published, published_payload_bytes))
     else
       (case store_entry_metadata (write_metadata range_start e) (metadata_pages sh) of
          None \<Rightarrow> None
        | Some (m1, loc) \<Rightarrow>
            (case insert_entry (write_key e) (new_disk_entry (write_metadata range_start e) loc)
                    (dm, sh\<lparr>metadata_pages := m1\<rparr>) of
               None \<Rightarrow> None
             | Some (dm2, sh2) \<Rightarrow>
                 Some ((finish_entry Published e dm2, sh2), published + 1,
                   published_payload_bytes + write_payload_len e))))"

fun publish_entries ::
  "nat \<Rightarrow> write_entry list \<Rightarrow> shard_state \<times> nat \<times> nat \<Rightarrow> (shard_state \<times> nat \<times> nat) option" where
  "publish_entries range_start [] acc = Some acc"
| "publish_entries range_start (e # es) acc =
    (case publish_entry range_start e acc of
       None \<Rightarrow> None | Some acc1 \<Rightarrow> publish_entries range_start es acc1)"

definition finish_entries :: "disk_write_outcome \<Rightarrow> write_entry list \<Rightarrow> disk_metrics \<Rightarrow> disk_metrics" where
  "finish_entries out es dm = fold (finish_entry out) es dm"

definition drop_reservation :: "reserved_chunks \<Rightarrow> shard_state \<Rightarrow> shard_state" where
  "drop_reservation r s =
    (let (dm, sh) = s; (dm1, a1) = drop_reserved_chunks r (dm, allocator sh) in (dm1, sh\<lparr>allocator := a1\<rparr>))"

text \<open>The part after a successful payload write.\<close>

definition publish ::
  "reserved_chunks \<Rightarrow> write_entry list \<Rightarrow> shard_state \<Rightarrow> (shard_state \<times> nat) option" where
  "publish r es s =
    (let (dm, sh) = s;
         dm1 = dm\<lparr>written_entries := written_entries dm + length es,
           packed_payload_bytes := packed_payload_bytes dm + sum_list (map write_payload_len es),
           packed_chunk_bytes := packed_chunk_bytes dm + chunk_count r * CHUNK_BYTES\<rparr>
     in case ensure_free_slots (length es) (dm1, allocator sh) (metadata_pages sh) of
          None \<Rightarrow> (let (dm2, sh2) = drop_reservation r (dm1, sh)
                    in Some ((finish_entries NoCapacity es dm2, sh2), 0))
        | Some (s2, m2) \<Rightarrow>
            (let (dm3, a3) = hold_chunks_until_payloads_released r (length es) s2
             in case publish_entries (fst (disk_byte_range r)) (rev es)
                       ((dm3, sh\<lparr>allocator := a3, metadata_pages := m2\<rparr>), 0, 0) of
                  None \<Rightarrow> None
                | Some ((dm4, sh4), published, published_payload_bytes) \<Rightarrow>
                    let dm5 = (if published \<noteq> 0
                      then dm4\<lparr>entries_gauge := entries_gauge dm4 + int published,
                        payload_bytes := payload_bytes dm4 + int published_payload_bytes\<rparr> else dm4)
                    in Some ((dm5, sh4), published)))"

text \<open>What the loop has assigned to \<open>entries[0].attempt.evicted\<close>, if anything.\<close>

definition mark_evicted :: "bool option \<Rightarrow> write_entry list \<Rightarrow> write_entry list" where
  "mark_evicted ev es = (case (ev, es) of
     (Some b, e # es') \<Rightarrow> e\<lparr>attempt := (attempt e)\<lparr>evicted := b\<rparr>\<rparr> # es' | _ \<Rightarrow> es)"

text \<open>What follows the reservation: the payload write and the publication. \<open>es\<close> is not empty.\<close>

definition write_reserved :: "io_outcome \<Rightarrow> byte list \<Rightarrow> write_entry list \<Rightarrow> reserved_chunks
    \<Rightarrow> data_file \<times> shard_state \<Rightarrow> (data_file \<times> shard_state \<times> (disk_cache_error + nat)) option" where
  "write_reserved oc bytes es r fs =
    (let (f, s) = fs; disk_range = disk_byte_range r in
     case write_padded oc (fst disk_range) (snd disk_range - fst disk_range) bytes f of
       (f1, Inl e) \<Rightarrow>
         (let (dm2, sh2) = drop_reservation r s
          in Some (f1, (finish_entries WriteFailed es dm2, sh2), Inl (DataFileError e)))
     | (f1, Inr _) \<Rightarrow>
         (case publish r es s of
            None \<Rightarrow> None
          | Some (s2, published) \<Rightarrow> Some (f1, s2, Inr published)))"

definition write_payload ::
  "(object_key_hash \<Rightarrow> nat \<Rightarrow> 's::linorder) \<Rightarrow> nat \<Rightarrow> io_outcome \<Rightarrow> byte list \<Rightarrow> write_entry list
    \<Rightarrow> data_file \<times> shard_state \<Rightarrow> (data_file \<times> shard_state \<times> (disk_cache_error + nat)) option" where
  "write_payload score sample_size oc bytes es fs =
    (let (f, s) = fs; required_chunks = div_ceil (length bytes) CHUNK_BYTES in
     case reserve_for_write score sample_size required_chunks (length es)
            (MAX_EVICTION_ATTEMPTS, MAX_EVICTION_CHUNKS) None s of
       None \<Rightarrow> None
     | Some ((dm1, sh1), None, ev) \<Rightarrow>
         Some (f, (finish_entries NoCapacity (mark_evicted ev es) dm1, sh1), Inr 0)
     | Some (s1, Some r, ev) \<Rightarrow> write_reserved oc bytes (mark_evicted ev es) r (f, s1))"

subsection \<open>Reserving keeps the shard consistent\<close>

lemma try_reserve_ok:
  assumes core: "shard_core lo hi live pend orph sh" and meta: "meta_inv (metadata_pages sh)"
    and res: "try_reserve n k (dm, sh) = ((dm', sh'), ro)"
  shows "shard_core lo hi (case ro of None \<Rightarrow> live | Some r \<Rightarrow> add_mset (chunk_numbers r) live) pend orph sh'"
    and "meta_inv (metadata_pages sh')" and "entry_index sh' = entry_index sh"
    and "small_entry_buffer sh' = small_entry_buffer sh" and "ro = Some r \<Longrightarrow> chunk_count r = n"
proof -
  have "shard_core lo hi (case ro of None \<Rightarrow> live | Some r \<Rightarrow> add_mset (chunk_numbers r) live) pend orph sh' \<and>
    meta_inv (metadata_pages sh') \<and> entry_index sh' = entry_index sh \<and>
    small_entry_buffer sh' = small_entry_buffer sh \<and> (\<forall>r. ro = Some r \<longrightarrow> chunk_count r = n)"
  proof (cases "ensure_free_slots k (dm, allocator sh) (metadata_pages sh)")
    case None
    then show ?thesis using res core meta by (auto simp: try_reserve_def)
  next
    case (Some x)
    obtain dm1 a1 m1 where x: "x = ((dm1, a1), m1)" by (cases x) auto
    note E = ensure_free_slots_shard [OF core meta Some [unfolded x]]
    let ?sh1 = "sh\<lparr>allocator := a1, metadata_pages := m1\<rparr>"
    show ?thesis
    proof (cases "reserve_chunks n (dm1, a1)")
      case None
      then show ?thesis using res Some x E(1,2) by (auto simp: try_reserve_def)
    next
      case (Some y)
      obtain dm2 a2 r where y: "y = ((dm2, a2), r)" by (cases y) auto
      note D = shard_core_D [OF E(1)]
      have a1: "alloc_inv lo hi (meta_live m1 + live) a1" using D(1) by simp
      note R = alloc_inv_reserve_chunks [OF a1 Some [unfolded y]]
      have "hold_count a2 c = hold_count a1 c" "inside_hold a2 e = inside_hold a1 e" for c e
        using R(3) by (simp_all add: hold_count_def inside_hold_def)
      then have "shard_core lo hi (add_mset (chunk_numbers r) live) pend orph (sh\<lparr>allocator := a2, metadata_pages := m1\<rparr>)"
        using D R(1) by (simp add: shard_core_def)
      moreover have "try_reserve n k (dm, sh) = ((dm2, sh\<lparr>allocator := a2, metadata_pages := m1\<rparr>), Some r)"
        using \<open>ensure_free_slots k (dm, allocator sh) (metadata_pages sh) = Some x\<close> x Some y by (simp add: try_reserve_def)
      ultimately show ?thesis using res E(2) R(2) by auto
    qed
  qed
  then show "shard_core lo hi (case ro of None \<Rightarrow> live | Some r \<Rightarrow> add_mset (chunk_numbers r) live) pend orph sh'"
    and "meta_inv (metadata_pages sh')" and "entry_index sh' = entry_index sh"
    and "small_entry_buffer sh' = small_entry_buffer sh" and "ro = Some r \<Longrightarrow> chunk_count r = n" by blast+
qed

text \<open>The keys that remain keep their entries.\<close>

definition entry_metas :: "disk_cache_shard \<Rightarrow> object_key_hash \<rightharpoonup> entry_metadata" where
  "entry_metas sh k = map_option (entry_meta k) (entries_by_key (entry_index sh) k)"

lemma entry_metas_same:
  assumes "same_entries (entries_by_key (entry_index sh')) m"
  shows "entry_metas sh' k = map_option (entry_meta k) (m k)"
proof (cases "entries_by_key (entry_index sh') k")
  case None
  then show ?thesis using same_entries_dom [OF assms] by (metis domIff entry_metas_def option.map_disc_iff)
next
  case (Some e)
  from same_entries_Some [OF assms Some] obtain e' i where "m k = Some e'" "e = e'\<lparr>eviction_position := i\<rparr>" by blast
  then show ?thesis using Some by (simp add: entry_metas_def)
qed

lemma eviction_shrinks:
  assumes "eviction_result score n b sh b' sh' sampled"
  shows "entry_metas sh' \<subseteq>\<^sub>m entry_metas sh"
proof (cases "\<exists>k. same_entries (entries_by_key (entry_index sh')) ((entries_by_key (entry_index sh))(k := None))")
  case True
  then obtain k where k: "same_entries (entries_by_key (entry_index sh')) ((entries_by_key (entry_index sh))(k := None))" by blast
  show ?thesis unfolding map_le_def using entry_metas_same [OF k] by (auto simp: entry_metas_def split: if_splits)
next
  case False
  then have "entries_by_key (entry_index sh') = entries_by_key (entry_index sh)"
    using assms by (auto simp: eviction_result_def split: if_splits)
  then show ?thesis by (simp add: entry_metas_def [abs_def])
qed

lemma release_payload_gauges:
  "release_payload p (dm, a) = Some (dm', a') \<Longrightarrow> entries_gauge dm' = entries_gauge dm \<and> payload_bytes dm' = payload_bytes dm
    \<and> finished_attempts dm' = finished_attempts dm"
  by (auto simp: release_payload_def drop_reserved_chunks_def release_def finished_attempts_def Let_def
      split: option.splits if_splits)

lemma map_reserved_set_slot: "map reserved_chunk (set_slot loc v cs) = map reserved_chunk cs"
  by (intro nth_equalityI) (auto simp: set_slot_fields)

lemma release_payload_holds_sub:
  "release_payload p (dm, a) = Some (dm', a') \<Longrightarrow> payload_chunks a' c = Some (r, n) \<Longrightarrow> \<exists>m. payload_chunks a c = Some (r, m)"
  by (auto simp: release_payload_def drop_reserved_chunks_def release_def Let_def split: option.splits if_splits)

subsection \<open>What an eviction leaves alone\<close>

text \<open>The gauges of the index, relative to the index of this shard: the metrics are shared by all shards.\<close>

definition gauge_gap :: "disk_metrics \<Rightarrow> disk_cache_shard \<Rightarrow> int \<times> int" where
  "gauge_gap dm sh = (entries_gauge dm - int (card (dom (entries_by_key (entry_index sh)))),
    payload_bytes dm - int (index_bytes (entries_by_key (entry_index sh))))"

definition holds_shrink :: "disk_chunk_allocator \<Rightarrow> disk_chunk_allocator \<Rightarrow> bool" where
  "holds_shrink a a' \<longleftrightarrow> (\<forall>c r n. payload_chunks a' c = Some (r, n) \<longrightarrow> (\<exists>m. payload_chunks a c = Some (r, m)))"

lemma holds_shrink_refl [simp]: "holds_shrink a a"
  by (simp add: holds_shrink_def)

lemma holds_shrink_trans: "holds_shrink a b \<Longrightarrow> holds_shrink b c \<Longrightarrow> holds_shrink a c"
  unfolding holds_shrink_def by blast

lemma removal_frame:
  assumes "remove_entry_from_index k (dm, sh) = Some (dm', sh')"
  shows "finished_attempts dm' = finished_attempts dm" and "holds_shrink (allocator sh) (allocator sh')"
    and "map reserved_chunk (chunks (metadata_pages sh')) = map reserved_chunk (chunks (metadata_pages sh))"
    and "small_entry_buffer sh' = small_entry_buffer sh"
proof -
  have fin: "finished_attempts dm1 = finished_attempts dm" if "take_entry k (dm, idx) = Some ((dm1, idx1), eo)" for idx idx1 dm1 eo
    using that by (auto simp: take_entry_def Let_def finished_attempts_def split: option.splits if_splits)
  have meta: "map reserved_chunk (chunks m1) = map reserved_chunk (chunks m)" if "free_entry_metadata loc m = Some m1" for loc m m1
    using that by (auto simp: free_entry_metadata_def mark_page_dirty_def map_reserved_set_slot Let_def split: option.splits if_splits)
  have rel: "holds_shrink a a1 \<and> finished_attempts dm2 = finished_attempts dm1"
    if "release_payload p (dm1, a) = Some (dm2, a1)" for p dm1 dm2 a a1
    using release_payload_holds_sub [OF that] release_payload_gauges [OF that] by (auto simp: holds_shrink_def)
  show "finished_attempts dm' = finished_attempts dm" and "holds_shrink (allocator sh) (allocator sh')"
    and "map reserved_chunk (chunks (metadata_pages sh')) = map reserved_chunk (chunks (metadata_pages sh))"
    and "small_entry_buffer sh' = small_entry_buffer sh"
    using assms by (auto simp: remove_entry_from_index_def release_entry_def split: option.splits dest!: fin rel meta)
qed

lemma removal_gap:
  assumes "index_ok (entry_index sh)" and "remove_entry_from_index k (dm, sh) = Some (dm', sh')"
  shows "gauge_gap dm' sh' = gauge_gap dm sh"
proof (cases "entries_by_key (entry_index sh) k")
  case None
  then show ?thesis using assms(2) by (simp add: remove_entry_from_index_def take_entry_absent)
next
  case (Some e)
  let ?m = "entries_by_key (entry_index sh)"
  from take_entry_present [OF assms(1) Some, of dm] obtain idx' where
    t: "take_entry k (dm, entry_index sh) = Some ((dm\<lparr>entries_gauge := entries_gauge dm - 1,
        payload_bytes := payload_bytes dm - int (unat (entry_payload_len e))\<rparr>, idx'), Some e)"
    and same: "same_entries (entries_by_key idx') (?m(k := None))" unfolding same_entries_def by metis
  have fin: "finite (dom ?m)" by (rule index_ok_finite [OF assms(1)])
  have "index_bytes (entries_by_key idx') = index_bytes (?m(k := None))"
    unfolding index_bytes_def
  proof (rule map_total_cong [OF same_entries_dom [OF same]])
    fix k' v v' assume "entries_by_key idx' k' = Some v" "(?m(k := None)) k' = Some v'"
    then show "unat (entry_payload_len v) = unat (entry_payload_len v')" using same_entries_Some [OF same] by fastforce
  qed
  then have bytes: "index_bytes ?m = index_bytes (entries_by_key idx') + unat (entry_payload_len e)"
    using map_total_remove [OF fin Some] by (simp add: index_bytes_def)
  have "dom ?m = insert k (dom (entries_by_key idx'))" "k \<notin> dom (entries_by_key idx')"
    using same_entries_dom [OF same] Some by auto
  then have card: "card (dom ?m) = Suc (card (dom (entries_by_key idx')))" using fin by (simp add: card_insert_disjoint)
  have "entry_index sh' = idx'" "entries_gauge dm' = entries_gauge dm - 1" "payload_bytes dm' = payload_bytes dm - int (unat (entry_payload_len e))"
    using assms(2) t by (auto simp: remove_entry_from_index_def release_entry_def split: option.splits dest!: release_payload_gauges)
  then show ?thesis using card bytes by (simp add: gauge_gap_def)
qed

lemma eviction_frame:
  assumes ok: "index_ok (entry_index sh)" and ev: "sample_and_evict_entry score n b (dm, sh) = Some (b', (dm', sh'), sampled)"
  shows "finished_attempts dm' = finished_attempts dm" and "holds_shrink (allocator sh) (allocator sh')"
    and "map reserved_chunk (chunks (metadata_pages sh')) = map reserved_chunk (chunks (metadata_pages sh))"
    and "gauge_gap dm' sh' = gauge_gap dm sh"
proof -
  consider "dm' = dm" "sh' = sh" | i where "dm' = dm" "sh' = sh\<lparr>entry_index := entry_index sh\<lparr>next_sample_start := i\<rparr>\<rparr>"
    | i k where "remove_entry_from_index k (dm, sh\<lparr>entry_index := entry_index sh\<lparr>next_sample_start := i\<rparr>\<rparr>) = Some (dm', sh')"
    using ev by (auto simp: sample_and_evict_entry_def Let_def split: prod.splits if_splits option.splits)
  then have "finished_attempts dm' = finished_attempts dm \<and> holds_shrink (allocator sh) (allocator sh') \<and>
    map reserved_chunk (chunks (metadata_pages sh')) = map reserved_chunk (chunks (metadata_pages sh)) \<and>
    gauge_gap dm' sh' = gauge_gap dm sh"
  proof cases
    case 3
    have "index_ok (entry_index (sh\<lparr>entry_index := entry_index sh\<lparr>next_sample_start := i\<rparr>\<rparr>))" using ok by (simp add: index_ok_def)
    then show ?thesis using removal_frame [OF 3] removal_gap [OF _ 3] by (simp add: gauge_gap_def)
  qed (simp_all add: gauge_gap_def)
  then show "finished_attempts dm' = finished_attempts dm" and "holds_shrink (allocator sh) (allocator sh')"
    and "map reserved_chunk (chunks (metadata_pages sh')) = map reserved_chunk (chunks (metadata_pages sh))"
    and "gauge_gap dm' sh' = gauge_gap dm sh" by blast+
qed

text \<open>The chain of a shard starts with its first chunk, because metadata space is ensured before any
  payload chunk is reserved.\<close>

definition head_ok :: "nat \<Rightarrow> rng multiset \<Rightarrow> disk_cache_shard \<Rightarrow> bool" where
  "head_ok lo live sh \<longleftrightarrow> (case map reserved_chunk (chunks (metadata_pages sh)) of
     [] \<Rightarrow> live = {#} \<and> payload_chunks (allocator sh) = Map.empty
   | r # _ \<Rightarrow> fst (chunk_numbers r) = lo)"

definition shard_ok :: "bool \<Rightarrow> nat \<Rightarrow> nat \<Rightarrow> rng multiset \<Rightarrow> disk_cache_shard \<Rightarrow> bool" where
  "shard_ok ex lo hi live sh \<longleftrightarrow> shard_inv lo hi live sh \<and> (ex \<longrightarrow> holds_exact sh) \<and> head_ok lo live sh"

lemma ensure_head:
  assumes inv: "meta_inv m" and alloc: "alloc_inv lo hi (meta_live m + live) a" and lo: "lo < hi"
    and head: "head_ok lo live sh" "metadata_pages sh = m" "allocator sh = a"
    and ens: "ensure_free_slots n (dm, a) m = Some ((dm', a'), m')" and n: "0 < n"
  shows "\<exists>r rs. map reserved_chunk (chunks m') = r # rs \<and> fst (chunk_numbers r) = lo"
proof (cases "chunks m")
  case (Cons c cs)
  then have c: "fst (chunk_numbers (reserved_chunk c)) = lo" using head by (simp add: head_ok_def)
  have "map reserved_chunk (chunks (set_last_chunk_link x m)) = map reserved_chunk (chunks m)" for x
    by (rule map_set_last_chunk_link) simp
  then have "map reserved_chunk (take (length (chunks m)) (chunks m')) = map reserved_chunk (chunks m)"
    using ens by (auto simp: ensure_free_slots_def mark_link_page_dirty_def Let_def take_map split: if_splits option.splits)
  then have "map reserved_chunk (chunks m) = take (length (chunks m)) (map reserved_chunk (chunks m'))" by (simp add: take_map)
  then show ?thesis using Cons c by (cases "map reserved_chunk (chunks m')") auto
next
  case Nil
  then have e: "live = {#}" "payload_chunks a = Map.empty" using head by (simp_all add: head_ok_def)
  have "free_slot_count m = 0" using meta_inv_D(3) [OF inv] Nil by (simp add: free_slots_def)
  then obtain s1 r where res: "reserve_chunks 1 (dm, a) = Some (s1, r)" and cs: "chunks m' = [\<lparr>reserved_chunk = r,
      entries = replicate ENTRIES_PER_METADATA_CHUNK None, next_chunk_address = NO_CHUNK, needs_full_write = True\<rparr>]"
    using ens n Nil by (auto simp: ensure_free_slots_def set_last_chunk_link_def mark_link_page_dirty_def Let_def split: option.splits)
  have own: "owners {#} a x = of_bool (x \<in> runs_set (free a))" for x by (simp add: owners_def held_count_def e(2))
  have free: "x \<in> runs_set (free a) \<longleftrightarrow> lo \<le> x \<and> x < hi" for x
    using alloc_inv_D(6) [OF alloc, of x] own [of x] e(1) Nil by (cases "x \<in> runs_set (free a)"; cases "lo \<le> x \<and> x < hi") (simp_all add: meta_live_def)
  obtain start len where f: "bt_find (\<lambda>len. len \<ge> 1) (free a) = Some (start, len)" and r: "chunk_numbers r = (start, start + 1)"
    using res by (auto simp: reserve_chunks_def reserve_chunk_numbers_def Let_def split: option.splits)
  note F = find_run_Some [OF alloc_inv_D(1) [OF alloc] zero_less_one f]
  have "{lo..<lo + 1} \<subseteq> runs_set (free a)" using free lo by auto
  then have "start \<le> lo" by (rule F(2))
  moreover have "start \<in> runs_set (free a)" using F(1) by auto
  then have "lo \<le> start" using free by blast
  ultimately show ?thesis using cs r by simp
qed

lemma shard_ok_D:
  assumes "shard_ok ex lo hi live sh"
  shows "shard_core lo hi live (\<lambda>_. 0) {} sh" and "meta_inv (metadata_pages sh)" and "ex \<Longrightarrow> holds_exact sh" and "head_ok lo live sh"
    and "index_ok (entry_index sh)"
  using assms shard_core_D(2) [of lo hi live "\<lambda>_. 0" "{}" sh] by (simp_all add: shard_ok_def shard_inv_def)

lemma try_reserve_shard_ok:
  assumes ok: "shard_ok ex lo hi live sh" and lo: "lo < hi" and k: "0 < k" and res: "try_reserve n k (dm, sh) = ((dm', sh'), ro)"
  shows "shard_ok ex lo hi (case ro of None \<Rightarrow> live | Some r \<Rightarrow> add_mset (chunk_numbers r) live) sh'"
    and "finished_attempts dm' = finished_attempts dm" and "gauge_gap dm' sh' = gauge_gap dm sh"
proof -
  note D = shard_ok_D [OF ok]
  note T = try_reserve_ok [OF D(1,2) res]
  have reserve: "finished_attempts dm2 = finished_attempts dm1 \<and> entries_gauge dm2 = entries_gauge dm1
      \<and> payload_bytes dm2 = payload_bytes dm1 \<and> payload_chunks a2 = payload_chunks a1"
    if "reserve_chunks n (dm1, a1) = Some ((dm2, a2), r)" for dm1 dm2 a1 a2 r n
    using that by (auto simp: reserve_chunks_def reserve_chunk_numbers_def finished_attempts_def Let_def split: option.splits)
  have ensure: "finished_attempts dm1 = finished_attempts dm \<and> entries_gauge dm1 = entries_gauge dm
      \<and> payload_bytes dm1 = payload_bytes dm \<and> payload_chunks a1 = payload_chunks (allocator sh)"
    if "ensure_free_slots k (dm, allocator sh) (metadata_pages sh) = Some ((dm1, a1), m1)" for dm1 a1 m1
    using that by (auto simp: ensure_free_slots_def Let_def split: if_splits option.splits dest!: reserve)
  have all: "finished_attempts dm' = finished_attempts dm \<and> entries_gauge dm' = entries_gauge dm \<and> payload_bytes dm' = payload_bytes dm
      \<and> payload_chunks (allocator sh') = payload_chunks (allocator sh)"
    using res by (auto simp: try_reserve_def split: option.splits dest!: reserve ensure)
  then show "finished_attempts dm' = finished_attempts dm" "gauge_gap dm' sh' = gauge_gap dm sh"
    using T(3) by (simp_all add: gauge_gap_def)
  have "head_ok lo (case ro of None \<Rightarrow> live | Some r \<Rightarrow> add_mset (chunk_numbers r) live) sh'"
  proof (cases "ensure_free_slots k (dm, allocator sh) (metadata_pages sh)")
    case None
    then show ?thesis using res D(4) by (auto simp: try_reserve_def)
  next
    case (Some x)
    obtain dm1 a1 m1 where x: "x = ((dm1, a1), m1)" by (cases x) auto
    have "alloc_inv lo hi (meta_live (metadata_pages sh) + live) (allocator sh)" using shard_core_D(1) [OF D(1)] by simp
    then obtain r rs where "map reserved_chunk (chunks m1) = r # rs" "fst (chunk_numbers r) = lo"
      using ensure_head [OF D(2) _ lo D(4) refl refl Some [unfolded x] k] by metis
    moreover have "metadata_pages sh' = m1" using res Some x by (auto simp: try_reserve_def split: option.splits)
    ultimately show ?thesis by (simp add: head_ok_def)
  qed
  then show "shard_ok ex lo hi (case ro of None \<Rightarrow> live | Some r \<Rightarrow> add_mset (chunk_numbers r) live) sh'"
    using T(1-3) D(3) all by (simp add: shard_ok_def shard_inv_def holds_exact_def)
qed

lemma eviction_shard_ok:
  assumes ok: "shard_ok ex lo hi live sh" and ev: "sample_and_evict_entry score n b (dm, sh) = Some (b', (dm', sh'), sampled)"
    and core: "shard_core lo hi live (\<lambda>_. 0) {} sh'" "meta_inv (metadata_pages sh')" and res: "eviction_result score n b sh b' sh' sampled"
  shows "shard_ok ex lo hi live sh'"
proof -
  note D = shard_ok_D [OF ok]
  note F = eviction_frame [OF D(5) ev]
  have "holds_exact sh'" if ex: ex
    unfolding holds_exact_def
  proof (intro allI impI)
    fix k e r m assume e: "entries_by_key (entry_index sh') k = Some e" "payload_chunks (allocator sh') (entry_chunk e) = Some (r, m)"
    then have "entry_metas sh' k = Some (entry_meta k e)" by (simp add: entry_metas_def)
    then have "entry_metas sh k = Some (entry_meta k e)" using eviction_shrinks [OF res] by (metis domI map_le_def)
    then obtain e' where e': "entries_by_key (entry_index sh) k = Some e'" "entry_meta k e' = entry_meta k e" by (auto simp: entry_metas_def)
    then have "entry_chunk e' = entry_chunk e" "payload_end e' = payload_end e" by (simp_all add: entry_meta_def entry_chunk_def payload_end_def)
    moreover obtain m' where "payload_chunks (allocator sh) (entry_chunk e) = Some (r, m')" using F(2) e(2) by (auto simp: holds_shrink_def)
    ultimately show "div_ceil (payload_end e) CHUNK_BYTES = snd (chunk_numbers r)" using D(3) [OF ex] e'(1) unfolding holds_exact_def by metis
  qed
  moreover have "payload_chunks (allocator sh') = Map.empty" if "payload_chunks (allocator sh) = Map.empty"
    using F(2) that by (auto simp: holds_shrink_def intro!: ext) (metis not_None_eq surj_pair)
  then have "head_ok lo live sh'" using D(4) F(3) by (auto simp: head_ok_def split: list.splits)
  ultimately show ?thesis using core by (simp add: shard_ok_def shard_inv_def)
qed

lemma reserve_for_write_ok:
  assumes "shard_ok ex lo hi live sh" and lo: "lo < hi" and k: "0 < k"
  shows "\<exists>dm' sh' ro ev'. reserve_for_write score n required k budget ev (dm, sh) = Some ((dm', sh'), ro, ev') \<and>
    shard_ok ex lo hi (case ro of None \<Rightarrow> live | Some r \<Rightarrow> add_mset (chunk_numbers r) live) sh' \<and>
    small_entry_buffer sh' = small_entry_buffer sh \<and> finished_attempts dm' = finished_attempts dm \<and> gauge_gap dm' sh' = gauge_gap dm sh \<and>
    (\<forall>r. ro = Some r \<longrightarrow> chunk_count r = required) \<and> entry_metas sh' \<subseteq>\<^sub>m entry_metas sh"
  using assms(1)
proof (induction "fst budget" arbitrary: budget ev dm sh rule: less_induct)
  case less
  obtain dm1 sh1 ro where tr: "try_reserve required k (dm, sh) = ((dm1, sh1), ro)" by (metis surj_pair)
  note T = try_reserve_ok [OF shard_ok_D(1,2) [OF less.prems] tr]
  note T' = try_reserve_shard_ok [OF less.prems lo k tr]
  have same: "entry_metas sh1 = entry_metas sh" using T(3) by (simp add: entry_metas_def [abs_def])
  note unfold = reserve_for_write.simps [of score n required k budget ev "(dm, sh)"]
  show ?case
  proof (cases "ro \<noteq> None \<or> required > wrapping_sub (chunk_capacity (allocator sh1)) (length (chunks (metadata_pages sh1)))")
    case True
    then have "reserve_for_write score n required k budget ev (dm, sh) = Some ((dm1, sh1), ro, ev)"
      using tr by (subst unfold) (auto split: option.splits)
    then show ?thesis using T(4,5) T' same by auto
  next
    case False
    then have ok1: "shard_ok ex lo hi live sh1" using T'(1) by simp
    note D = shard_ok_D [OF ok1]
    obtain b' dm2 sh2 sampled where ev: "sample_and_evict_entry score n budget (dm1, sh1) = Some (b', (dm2, sh2), sampled)"
      and S: "shard_core lo hi live (\<lambda>_. 0) {} sh2" "meta_inv (metadata_pages sh2)" "eviction_result score n budget sh1 b' sh2 sampled"
        "small_entry_buffer sh2 = small_entry_buffer sh1"
      using sample_and_evict_core [OF D(1,2), of score n budget dm1] by metis
    note ok2 = eviction_shard_ok [OF ok1 ev S(1-3)]
    note F = eviction_frame [OF D(5) ev]
    have step: "reserve_for_write score n required k budget ev (dm, sh) = (if sampled
        then reserve_for_write score n required k b' (Some (snd b' \<noteq> MAX_EVICTION_CHUNKS)) (dm2, sh2) else Some ((dm2, sh2), None, ev))"
      using False tr ev by (subst unfold) simp
    have shrink: "entry_metas sh2 \<subseteq>\<^sub>m entry_metas sh" using eviction_shrinks [OF S(3)] same by simp
    have acc: "finished_attempts dm2 = finished_attempts dm" "gauge_gap dm2 sh2 = gauge_gap dm sh"
      "small_entry_buffer sh2 = small_entry_buffer sh" using F(1,4) T'(2,3) S(4) T(4) by simp_all
    show ?thesis
    proof (cases sampled)
      case True
      then have lt: "fst b' < fst budget" using sampling_takes_attempt [of score n budget "(dm1, sh1)" b' "(dm2, sh2)"] ev by simp
      from less.hyps [OF lt ok2, of "Some (snd b' \<noteq> MAX_EVICTION_CHUNKS)" dm2] obtain dm' sh' ro' ev' where
        "reserve_for_write score n required k b' (Some (snd b' \<noteq> MAX_EVICTION_CHUNKS)) (dm2, sh2) = Some ((dm', sh'), ro', ev')"
        "shard_ok ex lo hi (case ro' of None \<Rightarrow> live | Some r \<Rightarrow> add_mset (chunk_numbers r) live) sh'"
        "small_entry_buffer sh' = small_entry_buffer sh2" "finished_attempts dm' = finished_attempts dm2"
        "gauge_gap dm' sh' = gauge_gap dm2 sh2"
        "\<forall>r. ro' = Some r \<longrightarrow> chunk_count r = required" "entry_metas sh' \<subseteq>\<^sub>m entry_metas sh2" by blast
      then show ?thesis using step True acc map_le_trans [OF _ shrink] by auto
    next
      case False
      then show ?thesis using step ok2 acc shrink by auto
    qed
  qed
qed

subsection \<open>Publishing keeps the shard consistent\<close>

text \<open>The entries of a write start in the first of its chunks and end in the last.\<close>

definition packed :: "reserved_chunks \<Rightarrow> write_entry list \<Rightarrow> bool" where
  "packed r es \<longleftrightarrow> (\<forall>e \<in> set es. buffer_offset e < CHUNK_BYTES \<and> write_payload_len e + 4096 \<le> u64_limit \<and>
    div_ceil (buffer_offset e + payload_disk_bytes (write_payload_len e)) CHUNK_BYTES = chunk_count r)"

lemma drop_completion_gauges:
  "entries_gauge (drop_completion g dm) = entries_gauge dm" "payload_bytes (drop_completion g dm) = payload_bytes dm"
  "write_outcomes (drop_completion g dm) = write_outcomes dm" "free_chunks (drop_completion g dm) = free_chunks dm"
  "allocated_chunks (drop_completion g dm) = allocated_chunks dm"
  by (cases g; simp add: record_queue_def Let_def)+

lemma finish_entry_gauges:
  "entries_gauge (finish_entry out e dm) = entries_gauge dm" "payload_bytes (finish_entry out e dm) = payload_bytes dm"
  "finished_attempts (finish_entry out e dm) = finished_attempts dm + 1"
  "free_chunks (finish_entry out e dm) = free_chunks dm" "allocated_chunks (finish_entry out e dm) = allocated_chunks dm"
proof -
  have "finished_attempts (drop_completion g dm') = finished_attempts dm'" for g dm'
    by (simp add: finished_attempts_def drop_completion_gauges)
  then show "finished_attempts (finish_entry out e dm) = finished_attempts dm + 1"
    by (simp add: finish_entry_def drop_write_entry_def finished_attempts_drop)
qed (simp_all add: finish_entry_def drop_write_entry_def drop_completion_gauges drop_disk_write_attempt_def Let_def)

lemma finish_entries_gauges:
  "entries_gauge (finish_entries out es dm) = entries_gauge dm" "payload_bytes (finish_entries out es dm) = payload_bytes dm"
  "finished_attempts (finish_entries out es dm) = finished_attempts dm + length es"
  by (induction es arbitrary: dm) (simp_all add: finish_entries_def finish_entry_gauges)

lemma write_metadata_entry:
  fixes loc :: entry_metadata_location
  assumes "packed r es" and "e \<in> set es" and "snd (chunk_numbers r) * CHUNK_BYTES < u64_limit"
    and "fst (chunk_numbers r) < snd (chunk_numbers r)"
  defines "d \<equiv> new_disk_entry (write_metadata (fst (disk_byte_range r)) e) loc"
  shows "entry_chunk d = fst (chunk_numbers r)" and "payload_end d \<le> snd (disk_byte_range r)"
    and "payload_end d = fst (disk_byte_range r) + buffer_offset e + payload_disk_bytes (write_payload_len e)"
    and "unat (entry_payload_address d) = fst (disk_byte_range r) + buffer_offset e"
    and "unat (entry_payload_len d) = write_payload_len e"
    and "div_ceil (payload_end d) CHUNK_BYTES = snd (chunk_numbers r)"
proof -
  let ?s = "fst (chunk_numbers r)" and ?t = "snd (chunk_numbers r)" and ?off = "buffer_offset e"
  have e: "?off < CHUNK_BYTES" "write_payload_len e + 4096 \<le> u64_limit"
    "div_ceil (?off + payload_disk_bytes (write_payload_len e)) CHUNK_BYTES = chunk_count r"
    using assms(1,2) by (auto simp: packed_def)
  have pos: "0 < CHUNK_BYTES" by (simp add: CHUNK_BYTES_def)
  have fits: "?off + payload_disk_bytes (write_payload_len e) \<le> chunk_count r * CHUNK_BYTES"
    using div_ceil_mult [OF pos, of "?off + payload_disk_bytes (write_payload_len e)"] e(3) by simp
  have sum: "?s * CHUNK_BYTES + chunk_count r * CHUNK_BYTES = ?t * CHUNK_BYTES"
    using assms(4) by (simp add: chunk_count_def flip: distrib_right)
  have lim: "?s * CHUNK_BYTES + ?off + payload_disk_bytes (write_payload_len e) < u64_limit"
    using fits sum assms(3) by linarith
  show addr: "unat (entry_payload_address d) = fst (disk_byte_range r) + ?off"
    using lim by (simp add: d_def new_disk_entry_def write_metadata_def disk_byte_range_def unat_of_nat u64_limit_def del: of_nat_add of_nat_mult)
  show len: "unat (entry_payload_len d) = write_payload_len e"
    using e(2) by (simp add: d_def new_disk_entry_def write_metadata_def unat_of_nat u64_limit_def)
  show "entry_chunk d = ?s" using e(1) pos by (simp add: entry_chunk_def addr disk_byte_range_def)
  show pe: "payload_end d = fst (disk_byte_range r) + ?off + payload_disk_bytes (write_payload_len e)"
    using lim by (simp add: payload_end_def addr len disk_byte_range_def)
  then show "payload_end d \<le> snd (disk_byte_range r)" using fits sum by (simp add: disk_byte_range_def)
  have "div_ceil (?s * CHUNK_BYTES + x) CHUNK_BYTES = ?s + div_ceil x CHUNK_BYTES" for x
    using pos by (simp add: div_ceil_def)
  then show "div_ceil (payload_end d) CHUNK_BYTES = ?t"
    using e(3) assms(4) by (simp add: pe disk_byte_range_def chunk_count_def add.assoc)
qed

definition pub_inv :: "bool \<Rightarrow> reserved_chunks list \<Rightarrow> nat \<Rightarrow> nat \<Rightarrow> rng multiset \<Rightarrow> reserved_chunks \<Rightarrow> shard_state \<Rightarrow> nat \<Rightarrow> nat \<Rightarrow> shard_state \<times> nat \<times> nat \<Rightarrow> bool" where
  "pub_inv ex rs lo hi live r s0 tot k acc \<longleftrightarrow>
    (let ((dm, sh), n, bytes) = acc; (dm0, sh0) = s0; c = fst (chunk_numbers r);
         ents = entries_by_key (entry_index sh); ents0 = entries_by_key (entry_index sh0) in
     shard_core lo hi live ((\<lambda>_. 0)(c := k)) {} sh \<and> meta_inv (metadata_pages sh) \<and>
     k \<le> free_slot_count (metadata_pages sh) \<and> k \<le> tot \<and> (ex \<longrightarrow> holds_exact sh) \<and> map reserved_chunk (chunks (metadata_pages sh)) = rs \<and>
     (0 < k \<longrightarrow> map_option (\<lambda>h. chunk_numbers (fst h)) (payload_chunks (allocator sh) c) = Some (chunk_numbers r)) \<and>
     card (dom ents) = card (dom ents0) + n \<and> index_bytes ents = index_bytes ents0 + bytes \<and>
     (n = 0 \<longrightarrow> bytes = 0) \<and> entries_gauge dm = entries_gauge dm0 \<and> payload_bytes dm = payload_bytes dm0 \<and>
     finished_attempts dm + k = finished_attempts dm0 + tot \<and> small_entry_buffer sh = small_entry_buffer sh0)"

lemma store_reserved:
  "store_entry_metadata em m = Some (m', loc) \<Longrightarrow> map reserved_chunk (chunks m') = map reserved_chunk (chunks m)"
  by (auto simp: store_entry_metadata_def mark_page_dirty_def map_reserved_set_slot split: option.splits)

lemma publish_entry_ok:
  assumes inv: "pub_inv ex rs lo hi live r s0 tot (Suc k) ((dm, sh), n, bytes)"
    and e: "packed r [e]" and lim: "snd (chunk_numbers r) * CHUNK_BYTES < u64_limit" and ne: "fst (chunk_numbers r) < snd (chunk_numbers r)"
  shows "\<exists>acc'. publish_entry (fst (disk_byte_range r)) e ((dm, sh), n, bytes) = Some acc' \<and> pub_inv ex rs lo hi live r s0 tot k acc'
    \<and> entry_metas (snd (fst acc')) = (case entry_metas sh (write_key e) of
        None \<Rightarrow> (entry_metas sh)(write_key e \<mapsto> write_metadata (fst (disk_byte_range r)) e) | Some _ \<Rightarrow> entry_metas sh)"
proof -
  obtain dm0 sh0 where s0: "s0 = (dm0, sh0)" by (cases s0)
  let ?c = "fst (chunk_numbers r)" and ?p = "fst (disk_byte_range r)" and ?ents = "entries_by_key (entry_index sh)"
  have core: "shard_core lo hi live ((\<lambda>_. 0)(?c := Suc k)) {} sh" and meta: "meta_inv (metadata_pages sh)"
    and room: "Suc k \<le> free_slot_count (metadata_pages sh)" "Suc k \<le> tot"
    and exact: "ex \<Longrightarrow> holds_exact sh" and rs: "map reserved_chunk (chunks (metadata_pages sh)) = rs"
    and held: "map_option (\<lambda>h. chunk_numbers (fst h)) (payload_chunks (allocator sh) ?c) = Some (chunk_numbers r)"
    and cnt: "card (dom ?ents) = card (dom (entries_by_key (entry_index sh0))) + n"
      "index_bytes ?ents = index_bytes (entries_by_key (entry_index sh0)) + bytes" "n = 0 \<longrightarrow> bytes = 0"
    and g: "entries_gauge dm = entries_gauge dm0" "payload_bytes dm = payload_bytes dm0"
      "finished_attempts dm + Suc k = finished_attempts dm0 + tot" "small_entry_buffer sh = small_entry_buffer sh0"
    using inv by (auto simp: pub_inv_def s0 Let_def)
  note D = shard_core_D [OF core]
  have pc: "?p div CHUNK_BYTES = ?c" by (simp add: disk_byte_range_def CHUNK_BYTES_def)
  have upd: "((\<lambda>_. 0)(?c := Suc k))(?c := k) = (\<lambda>_. 0)(?c := k)" by simp
  show ?thesis
  proof (cases "?ents (write_key e)")
    case (Some old)
    have "\<exists>dm1 a1. release_payload ?p (dm, allocator sh) = Some (dm1, a1) \<and>
        shard_core lo hi live ((\<lambda>_. 0)(?c := k)) {} (sh\<lparr>allocator := a1\<rparr>) \<and>
        (0 < k \<longrightarrow> map_option fst (payload_chunks a1 ?c) = map_option fst (payload_chunks (allocator sh) ?c))"
    proof (rule release_pending_shard [OF core, of ?p dm])
      fix dm1 a1 assume A: "release_payload ?p (dm, allocator sh) = Some (dm1, a1)"
        "shard_core lo hi live (((\<lambda>_. 0)(?c := Suc k))(?p div CHUNK_BYTES := ((\<lambda>_. 0)(?c := Suc k)) (?p div CHUNK_BYTES) - 1)) {} (sh\<lparr>allocator := a1\<rparr>)"
        "\<And>c. c \<noteq> ?p div CHUNK_BYTES \<or> 1 < ((\<lambda>_. 0)(?c := Suc k)) (?p div CHUNK_BYTES) \<Longrightarrow>
          map_option fst (payload_chunks a1 c) = map_option fst (payload_chunks (allocator sh) c)"
      show ?thesis using A(1,2) A(3) [of ?c] by (auto simp: pc)
    qed (simp add: pc)
    then obtain dm1 a1 where rel: "release_payload ?p (dm, allocator sh) = Some (dm1, a1)"
      and core1: "shard_core lo hi live ((\<lambda>_. 0)(?c := k)) {} (sh\<lparr>allocator := a1\<rparr>)"
      and keep: "0 < k \<Longrightarrow> map_option fst (payload_chunks a1 ?c) = map_option fst (payload_chunks (allocator sh) ?c)" by blast
    have keep': "map_option (\<lambda>h. chunk_numbers (fst h)) (payload_chunks a1 ?c) = Some (chunk_numbers r)" if "0 < k"
      using arg_cong [OF keep [OF that], of "map_option chunk_numbers"] held by (simp add: option.map_comp comp_def)
    have exact': "ex \<Longrightarrow> holds_exact (sh\<lparr>allocator := a1\<rparr>)"
      using exact release_payload_holds_sub [OF rel] unfolding holds_exact_def by fastforce
    have "publish_entry ?p e ((dm, sh), n, bytes) = Some ((finish_entry AlreadyCovered e dm1, sh\<lparr>allocator := a1\<rparr>), n, bytes)"
      using Some rel by (simp add: publish_entry_def)
    moreover have "pub_inv ex rs lo hi live r s0 tot k ((finish_entry AlreadyCovered e dm1, sh\<lparr>allocator := a1\<rparr>), n, bytes)"
      using core1 meta room keep' cnt g rs release_payload_gauges [OF rel] exact' by (simp add: pub_inv_def s0 finish_entry_gauges)
    moreover have "entry_metas sh (write_key e) = Some (entry_meta (write_key e) old)"
      "entry_metas (sh\<lparr>allocator := a1\<rparr>) = entry_metas sh"
      using Some by (simp_all add: entry_metas_def [abs_def])
    ultimately show ?thesis by simp
  next
    case None
    let ?em = "write_metadata ?p e"
    have key: "key ?em = write_key e" by (simp add: write_metadata_def)
    have free: "0 < free_slot_count (metadata_pages sh)" using room(1) by simp
    obtain m1 loc where st: "store_entry_metadata ?em (metadata_pages sh) = Some (m1, loc)" "meta_inv m1"
      "shard_core lo hi live ((\<lambda>_. 0)(?c := Suc k)) {loc} (sh\<lparr>metadata_pages := m1\<rparr>)"
      "slot_at (chunks m1) loc = Some ?em" "free_slot_count m1 = free_slot_count (metadata_pages sh) - 1"
      using store_entry_shard [OF core meta free, of ?em] by metis
    note W = write_metadata_entry [OF e _ lim ne, of e loc, simplified]
    obtain r' m where h: "payload_chunks (allocator sh) ?c = Some (r', m)" "chunk_numbers r' = chunk_numbers r" using held by auto
    have inside: "inside_hold (allocator sh) (new_disk_entry ?em loc)"
      using h W(2) unfolding inside_hold_def W(1) by (simp add: disk_byte_range_def)
    let ?sh1 = "sh\<lparr>metadata_pages := m1\<rparr>"
    obtain sh2 where ins: "insert_entry (write_key e) (new_disk_entry ?em loc) (dm, ?sh1) = Some (dm, sh2)"
      and sh2: "shard_core lo hi live ((\<lambda>_. 0)(?c := k)) {} sh2" "metadata_pages sh2 = m1" "allocator sh2 = allocator sh"
        "small_entry_buffer sh2 = small_entry_buffer sh"
        "entries_by_key (entry_index sh2) = ?ents(write_key e \<mapsto> (new_disk_entry ?em loc)\<lparr>eviction_position := length (eviction_candidates (entry_index sh))\<rparr>)"
      using insert_entry_ok [OF st(3), of ?em loc dm] None inside st(4) by (auto simp: key W(1))
    have exact2: "ex \<Longrightarrow> holds_exact sh2"
      using exact W(6) h unfolding holds_exact_def sh2(3,5) by (auto simp: W(1))
    have fin: "finite (dom ?ents)" by (rule index_ok_finite [OF D(2)])
    have "publish_entry ?p e ((dm, sh), n, bytes) = Some ((finish_entry Published e dm, sh2), n + 1, bytes + write_payload_len e)"
      using None st(1) ins by (simp add: publish_entry_def)
    moreover have "index_bytes (entries_by_key (entry_index sh2)) = index_bytes ?ents + write_payload_len e"
      unfolding sh2(5) index_bytes_def map_total_insert [OF fin None] using W(5) by simp
    moreover have "card (dom (entries_by_key (entry_index sh2))) = card (dom ?ents) + 1"
      unfolding sh2(5) dom_fun_upd using fin None by (simp add: card_insert_if domIff)
    ultimately have "publish_entry ?p e ((dm, sh), n, bytes) = Some ((finish_entry Published e dm, sh2), n + 1, bytes + write_payload_len e)
      \<and> pub_inv ex rs lo hi live r s0 tot k ((finish_entry Published e dm, sh2), n + 1, bytes + write_payload_len e)"
      using sh2(1-4) exact2 store_reserved [OF st(1)] rs st(2,5) room held cnt g by (simp add: pub_inv_def s0 finish_entry_gauges)
    moreover have "entry_metas sh (write_key e) = None" using None by (simp add: entry_metas_def)
    moreover have "entry_metas sh2 = (entry_metas sh)(write_key e \<mapsto> ?em)"
      unfolding entry_metas_def [abs_def] sh2(5)
      by (simp add: fun_eq_iff) (simp add: entry_meta_def new_disk_entry_def write_metadata_def)
    ultimately show ?thesis by simp
  qed
qed

lemma publish_entries_ok:
  assumes "pub_inv ex rs lo hi live r s0 tot (length es) ((dm, sh), n, bytes)" and "packed r es"
    and "snd (chunk_numbers r) * CHUNK_BYTES < u64_limit" and "fst (chunk_numbers r) < snd (chunk_numbers r)"
  shows "\<exists>acc'. publish_entries (fst (disk_byte_range r)) es ((dm, sh), n, bytes) = Some acc' \<and> pub_inv ex rs lo hi live r s0 tot 0 acc'
    \<and> entry_metas (snd (fst acc')) = (\<lambda>k. case entry_metas sh k of Some em \<Rightarrow> Some em
        | None \<Rightarrow> map_option (write_metadata (fst (disk_byte_range r))) (find (\<lambda>e. write_key e = k) es))"
  using assms
proof (induction es arbitrary: dm sh n bytes)
  case Nil
  then show ?case by (auto simp: fun_eq_iff split: option.splits)
next
  case (Cons e es)
  have "packed r [e]" "packed r es" using Cons.prems(2) by (auto simp: packed_def)
  from publish_entry_ok [OF _ this(1) Cons.prems(3,4), of ex rs lo hi live s0 tot "length es" dm sh n bytes] Cons.prems(1)
  obtain dm1 sh1 n1 b1 where st: "publish_entry (fst (disk_byte_range r)) e ((dm, sh), n, bytes) = Some ((dm1, sh1), n1, b1)"
    "pub_inv ex rs lo hi live r s0 tot (length es) ((dm1, sh1), n1, b1)"
    "entry_metas sh1 = (case entry_metas sh (write_key e) of
        None \<Rightarrow> (entry_metas sh)(write_key e \<mapsto> write_metadata (fst (disk_byte_range r)) e) | Some _ \<Rightarrow> entry_metas sh)"
    by fastforce
  from Cons.IH [OF st(2) \<open>packed r es\<close> Cons.prems(3,4)] obtain acc' where
    "publish_entries (fst (disk_byte_range r)) es ((dm1, sh1), n1, b1) = Some acc'" "pub_inv ex rs lo hi live r s0 tot 0 acc'"
    "entry_metas (snd (fst acc')) = (\<lambda>k. case entry_metas sh1 k of Some em \<Rightarrow> Some em
        | None \<Rightarrow> map_option (write_metadata (fst (disk_byte_range r))) (find (\<lambda>e. write_key e = k) es))" by blast
  then show ?case using st(1,3) by (auto simp: fun_eq_iff split: option.splits)
qed

text \<open>What publishing does to the index: keys that are already there keep their entries, and of several
  entries for a new key the last one in the buffer wins.\<close>

definition published_metas :: "nat \<Rightarrow> write_entry list \<Rightarrow> (object_key_hash \<rightharpoonup> entry_metadata) \<Rightarrow> object_key_hash \<rightharpoonup> entry_metadata" where
  "published_metas p es m = (\<lambda>k. case m k of Some em \<Rightarrow> Some em
     | None \<Rightarrow> map_option (write_metadata p) (find (\<lambda>e. write_key e = k) (rev es)))"

lemma drop_reservation_ok:
  assumes core: "shard_core lo hi (add_mset (chunk_numbers r) live) pend orph sh"
    and dr: "drop_reservation r (dm, sh) = (dm', sh')"
  shows "shard_core lo hi live pend orph sh'" and "metadata_pages sh' = metadata_pages sh" and "entry_index sh' = entry_index sh"
    and "small_entry_buffer sh' = small_entry_buffer sh"
    and "entries_gauge dm' = entries_gauge dm" "payload_bytes dm' = payload_bytes dm" "finished_attempts dm' = finished_attempts dm"
proof -
  note D = shard_core_D [OF core]
  obtain a' where a': "drop_reserved_chunks r (dm, allocator sh) = (dm', a')" and sh': "sh' = sh\<lparr>allocator := a'\<rparr>"
    using dr by (auto simp: drop_reservation_def split: prod.splits)
  have inv: "alloc_inv lo hi (meta_live (metadata_pages sh) + live) a'"
    using alloc_inv_drop [of lo hi r "meta_live (metadata_pages sh) + live" "allocator sh" dm] D(1) a' by simp
  have pc: "payload_chunks a' = payload_chunks (allocator sh)"
    using a' by (auto simp: drop_reserved_chunks_def release_def Let_def)
  have "hold_count a' c = hold_count (allocator sh) c" "inside_hold a' e = inside_hold (allocator sh) e" for c e
    using pc by (simp_all add: hold_count_def inside_hold_def)
  then show "shard_core lo hi live pend orph sh'" using D inv by (simp add: shard_core_def sh')
  show "metadata_pages sh' = metadata_pages sh" "entry_index sh' = entry_index sh" "small_entry_buffer sh' = small_entry_buffer sh"
    by (simp_all add: sh')
  show "entries_gauge dm' = entries_gauge dm" "payload_bytes dm' = payload_bytes dm" "finished_attempts dm' = finished_attempts dm"
    using a' by (auto simp: drop_reserved_chunks_def release_def finished_attempts_def Let_def)
qed

lemma ensure_free_slots_gauges:
  "ensure_free_slots n (dm, a) m = Some ((dm', a'), m') \<Longrightarrow> entries_gauge dm' = entries_gauge dm \<and>
    payload_bytes dm' = payload_bytes dm \<and> finished_attempts dm' = finished_attempts dm"
  by (auto simp: ensure_free_slots_def reserve_chunks_def reserve_chunk_numbers_def finished_attempts_def Let_def
      split: if_splits option.splits)

lemma head_ok_cong:
  assumes "map reserved_chunk (chunks (metadata_pages sh')) = map reserved_chunk (chunks (metadata_pages sh))"
    and "chunks (metadata_pages sh) \<noteq> []" and "head_ok lo live sh"
  shows "head_ok lo live' sh'"
  using assms by (auto simp: head_ok_def split: list.splits)

text \<open>A reservation has its chunks for itself.\<close>

definition metadata_apart :: "reserved_chunks \<Rightarrow> disk_cache_shard \<Rightarrow> bool" where
  "metadata_apart r sh \<longleftrightarrow> (\<forall>x \<in> set (map reserved_chunk (chunks (metadata_pages sh))). rng_set (chunk_numbers x) \<inter> rng_set (chunk_numbers r) = {})"

lemma reservation_exclusive:
  assumes inv: "alloc_inv lo hi (add_mset x L) a"
  shows "y \<in># L \<Longrightarrow> rng_set y \<inter> rng_set x = {}"
    and "payload_chunks a c = Some (h, n) \<Longrightarrow> rng_set (chunk_numbers h) \<inter> rng_set x = {}"
proof -
  have one: "live_count i L = 0" if "i \<in> rng_set x" for i
    using alloc_inv_D(6) [OF inv, of i] that unfolding owners_def by (cases "lo \<le> i \<and> i < hi") simp_all
  show "rng_set y \<inter> rng_set x = {}" if "y \<in># L"
    using live_count_ge [OF that] one by (metis disjoint_iff not_one_le_zero)
  show "rng_set (chunk_numbers h) \<inter> rng_set x = {}" if h: "payload_chunks a c = Some (h, n)"
  proof (rule ccontr)
    assume "rng_set (chunk_numbers h) \<inter> rng_set x \<noteq> {}"
    then obtain i where i: "i \<in> rng_set (chunk_numbers h)" "i \<in> rng_set x" by blast
    have "live_count i (add_mset x L) = 0" by (rule held_exclusive(1) [OF inv h i(1)])
    then show False using i(2) by simp
  qed
qed

lemma metadata_apart:
  assumes "alloc_inv lo hi (meta_live (metadata_pages sh) + add_mset (chunk_numbers r) live) (allocator sh)"
  shows "metadata_apart r sh"
  unfolding metadata_apart_def
proof
  fix x assume "x \<in> set (map reserved_chunk (chunks (metadata_pages sh)))"
  then have "chunk_numbers x \<in># meta_live (metadata_pages sh) + live" by (auto simp: meta_live_def)
  then show "rng_set (chunk_numbers x) \<inter> rng_set (chunk_numbers r) = {}"
    using reservation_exclusive(1) [of lo hi "chunk_numbers r" "meta_live (metadata_pages sh) + live" "allocator sh"] assms by simp
qed

text \<open>Publishing with a reservation: all entries end, the shard stays consistent, and the gauges follow
  the index. If there is no room for metadata nothing is published.\<close>

lemma publish_ok:
  assumes ok: "shard_ok ex lo hi (add_mset (chunk_numbers r) live) sh"
    and es: "es \<noteq> []" "length es \<le> ENTRIES_PER_METADATA_CHUNK" "packed r es" and hi: "hi * CHUNK_BYTES < u64_limit"
  shows "\<exists>dm' sh' n. publish r es (dm, sh) = Some ((dm', sh'), n) \<and> shard_ok ex lo hi live sh' \<and>
    finished_attempts dm' = finished_attempts dm + length es \<and> gauge_gap dm' sh' = gauge_gap dm sh \<and>
    small_entry_buffer sh' = small_entry_buffer sh \<and> metadata_apart r sh' \<and>
    (n = 0 \<and> free_slot_count (metadata_pages sh) < length es \<and> entry_metas sh' = entry_metas sh \<or>
     entry_metas sh' = published_metas (fst (disk_byte_range r)) es (entry_metas sh))"
proof -
  note core = shard_ok_D(1) [OF ok] and meta = shard_ok_D(2) [OF ok] and exact = shard_ok_D(3) [OF ok] and head = shard_ok_D(4) [OF ok]
  note D = shard_core_D [OF core]
  let ?c = "fst (chunk_numbers r)" and ?p = "fst (disk_byte_range r)"
  define dm1 where "dm1 = dm\<lparr>written_entries := written_entries dm + length es,
    packed_payload_bytes := packed_payload_bytes dm + sum_list (map write_payload_len es),
    packed_chunk_bytes := packed_chunk_bytes dm + chunk_count r * CHUNK_BYTES\<rparr>"
  have dm1: "entries_gauge dm1 = entries_gauge dm" "payload_bytes dm1 = payload_bytes dm" "finished_attempts dm1 = finished_attempts dm"
    by (simp_all add: dm1_def finished_attempts_def)
  have ne: "?c < snd (chunk_numbers r)" using alloc_inv_D(5) [OF D(1), of "chunk_numbers r"] by simp
  have "rng_set (chunk_numbers r) \<subseteq> {lo..<hi}" by (rule live_not_free(2) [OF D(1)]) simp
  moreover have "snd (chunk_numbers r) - 1 \<in> rng_set (chunk_numbers r)" using ne unfolding atLeastLessThan_iff by linarith
  ultimately have le: "snd (chunk_numbers r) \<le> hi" by (metis Suc_leI Suc_pred' atLeastLessThan_iff ne not_gr_zero not_less_zero subsetD)
  have "snd (chunk_numbers r) * CHUNK_BYTES \<le> hi * CHUNK_BYTES" using le by (rule mult_le_mono1)
  then have lim: "snd (chunk_numbers r) * CHUNK_BYTES < u64_limit" using hi by linarith
  have nonempty: "chunks (metadata_pages sh) \<noteq> []" using head by (auto simp: head_ok_def)
  show ?thesis
  proof (cases "ensure_free_slots (length es) (dm1, allocator sh) (metadata_pages sh)")
    case None
    obtain dm2 sh2 where dr: "drop_reservation r (dm1, sh) = (dm2, sh2)" by fastforce
    note R = drop_reservation_ok [OF core dr]
    have "free_slot_count (metadata_pages sh) < length es" "metadata_apart r sh2"
      using None R(2) metadata_apart [OF D(1)] by (simp_all add: ensure_free_slots_def metadata_apart_def split: if_splits)
    moreover have "publish r es (dm, sh) = Some ((finish_entries NoCapacity es dm2, sh2), 0)"
      using None dr by (simp add: publish_def dm1_def [symmetric])
    moreover have "payload_chunks (allocator sh2) = payload_chunks (allocator sh)"
      using dr by (auto simp: drop_reservation_def drop_reserved_chunks_def release_def Let_def)
    then have "shard_ok ex lo hi live sh2"
      using R(1-3) meta exact head_ok_cong [OF _ nonempty head, of sh2 live]
      by (simp add: shard_ok_def shard_inv_def holds_exact_def)
    moreover have "entry_metas sh2 = entry_metas sh" using R(3) by (simp add: entry_metas_def [abs_def])
    ultimately show ?thesis using R(3-7) dm1 by (simp add: finish_entries_gauges gauge_gap_def)
  next
    case (Some x)
    obtain dm2 a2 m2 where x: "x = ((dm2, a2), m2)" by (cases x) auto
    note ens = Some [unfolded x]
    note E = ensure_free_slots_shard [OF core meta ens]
    let ?sh2 = "sh\<lparr>allocator := a2, metadata_pages := m2\<rparr>"
    obtain dm3 a3 where h: "hold_chunks_until_payloads_released r (length es) (dm2, a2) = (dm3, a3)" by fastforce
    have len: "0 < length es" using es(1) by simp
    note H = hold_shard [OF E(1) len, of dm2, simplified, unfolded h, simplified]
    let ?sh3 = "sh\<lparr>allocator := a3, metadata_pages := m2\<rparr>"
    have pc2: "payload_chunks a2 = payload_chunks (allocator sh)"
      using ens by (auto simp: ensure_free_slots_def reserve_chunks_def reserve_chunk_numbers_def Let_def split: if_splits option.splits)
    have pcn: "payload_chunks (allocator sh) ?c = None" using live_not_free(3) [OF D(1), of "chunk_numbers r"] by simp
    have fresh: "entry_chunk e \<noteq> ?c" if "entries_by_key (entry_index sh) k = Some e" for k e
      using D(5) [of k e] that pcn by (auto simp: inside_hold_def)
    have exact3: "ex \<Longrightarrow> holds_exact ?sh3"
      using exact fresh unfolding holds_exact_def by (simp add: H(2) pc2)
    have head3: "\<exists>r0 rs. map reserved_chunk (chunks m2) = r0 # rs \<and> fst (chunk_numbers r0) = lo"
      using ensure_head [OF meta D(1) _ head _ _ ens len] le live_not_free(2) [OF D(1), of "chunk_numbers r"] ne by force
    have swap: "sh\<lparr>metadata_pages := m2, allocator := a3\<rparr> = ?sh3" by simp
    have core3: "shard_core lo hi live ((\<lambda>_. 0)(?c := length es)) {} ?sh3" using H(1) by (simp only: swap)
    have inv3: "pub_inv ex (map reserved_chunk (chunks m2)) lo hi live r (dm, sh) (length es) (length (rev es)) ((dm3, ?sh3), 0, 0)"
      using core3 H(2) E(2) E(3) [OF es(2)] exact3 ensure_free_slots_gauges [OF ens] H(3) dm1 by (simp add: pub_inv_def)
    have pk: "packed r (rev es)" using es(3) by (simp add: packed_def)
    obtain dm4 sh4 n bytes where pub: "publish_entries ?p (rev es) ((dm3, ?sh3), 0, 0) = Some ((dm4, sh4), n, bytes)"
      and inv4: "pub_inv ex (map reserved_chunk (chunks m2)) lo hi live r (dm, sh) (length es) 0 ((dm4, sh4), n, bytes)"
      and metas: "entry_metas sh4 = published_metas ?p es (entry_metas ?sh3)"
      using publish_entries_ok [OF inv3 pk lim ne] unfolding published_metas_def by fastforce
    have "entry_metas ?sh3 = entry_metas sh" by (simp add: entry_metas_def [abs_def])
    moreover have "shard_ok ex lo hi live sh4"
      using inv4 head3 by (auto simp: pub_inv_def shard_ok_def shard_inv_def head_ok_def fun_upd_idem Let_def)
    moreover define dm5 where "dm5 = (if n \<noteq> 0 then dm4\<lparr>entries_gauge := entries_gauge dm4 + int n,
        payload_bytes := payload_bytes dm4 + int bytes\<rparr> else dm4)"
    have "publish r es (dm, sh) = Some ((dm5, sh4), n)"
      using ens h pub unfolding dm5_def by (simp add: publish_def dm1_def [symmetric])
    moreover have cnt: "card (dom (entries_by_key (entry_index sh4))) = card (dom (entries_by_key (entry_index sh))) + n"
      "index_bytes (entries_by_key (entry_index sh4)) = index_bytes (entries_by_key (entry_index sh)) + bytes"
      "entries_gauge dm4 = entries_gauge dm" "payload_bytes dm4 = payload_bytes dm" "finished_attempts dm4 = finished_attempts dm + length es"
      "small_entry_buffer sh4 = small_entry_buffer sh"
      using inv4 by (simp_all add: pub_inv_def Let_def)
    moreover have rs4: "map reserved_chunk (chunks (metadata_pages sh4)) = map reserved_chunk (chunks m2)"
      using inv4 by (simp add: pub_inv_def Let_def)
    have "metadata_apart r sh4"
      using metadata_apart [OF shard_core_D(1) [OF E(1)]] unfolding metadata_apart_def rs4 by simp
    moreover have "finished_attempts dm5 = finished_attempts dm4" by (simp add: dm5_def finished_attempts_def)
    moreover have "bytes = 0" if "n = 0" using inv4 that by (simp add: pub_inv_def Let_def)
    ultimately show ?thesis using metas by (auto simp: dm5_def gauge_gap_def)
  qed
qed

subsection \<open>Payload bytes on disk\<close>

definition stored_blocks :: "data_file \<Rightarrow> entry_metadata \<Rightarrow> byte list" where
  "stored_blocks f em = disk_read (unat (payload_address em)) (payload_disk_bytes (unat (payload_len em))) (image f)"

definition stored_payload :: "data_file \<Rightarrow> entry_metadata \<Rightarrow> byte list" where
  "stored_payload f em = disk_read (unat (payload_address em)) (unat (payload_len em)) (image f)"

text \<open>Padded lengths and addresses of payloads do not wrap around; a length close to \<open>2^64\<close> in the
  metadata would.\<close>

definition no_wrap :: "entry_metadata \<Rightarrow> bool" where
  "no_wrap em \<longleftrightarrow> unat (payload_len em) + 4096 \<le> u64_limit \<and>
    unat (payload_address em) + payload_disk_bytes (unat (payload_len em)) < u64_limit"

text \<open>The entries of one write start in its first chunk and together take its chunks.\<close>

definition fits_buffer :: "byte list \<Rightarrow> write_entry \<Rightarrow> bool" where
  "fits_buffer bytes e \<longleftrightarrow> buffer_offset e < CHUNK_BYTES \<and> buffer_offset e + write_payload_len e \<le> length bytes \<and>
    div_ceil (buffer_offset e + payload_disk_bytes (write_payload_len e)) CHUNK_BYTES = div_ceil (length bytes) CHUNK_BYTES"

lemma bytes_apart:
  assumes "rng_set a \<inter> rng_set b = {}" and "fst a * CHUNK_BYTES \<le> i" and "i < snd a * CHUNK_BYTES"
  shows "i < fst b * CHUNK_BYTES \<or> snd b * CHUNK_BYTES \<le> i"
proof -
  have pos: "0 < CHUNK_BYTES" by (simp add: CHUNK_BYTES_def)
  have "fst a \<le> i div CHUNK_BYTES" using assms(2) pos by (simp add: less_eq_div_iff_mult_less_eq)
  moreover have "i div CHUNK_BYTES < snd a" using assms(3) pos by (simp add: div_less_iff_less_mult)
  ultimately have "i div CHUNK_BYTES \<notin> rng_set b" using assms(1) by (metis atLeastLessThan_iff disjoint_iff)
  then consider "i div CHUNK_BYTES < fst b" | "snd b \<le> i div CHUNK_BYTES" by fastforce
  then show ?thesis using pos by cases (simp_all add: less_eq_div_iff_mult_less_eq div_less_iff_less_mult)
qed

lemma reserved_write_frame:
  assumes "write_padded oc (fst (disk_byte_range r)) (snd (disk_byte_range r) - fst (disk_byte_range r)) bytes f = (f', res)"
    and "fst (chunk_numbers r) < snd (chunk_numbers r)" and "rng_set x \<inter> rng_set (chunk_numbers r) = {}"
    and "fst x * CHUNK_BYTES \<le> i" and "i < snd x * CHUNK_BYTES"
  shows "image f' i = image f i"
proof (rule write_padded_frame [OF assms(1)])
  have "fst (chunk_numbers r) * CHUNK_BYTES \<le> snd (chunk_numbers r) * CHUNK_BYTES" using assms(2) by simp
  then show "i < fst (disk_byte_range r) \<or> fst (disk_byte_range r) + (snd (disk_byte_range r) - fst (disk_byte_range r)) \<le> i"
    using bytes_apart [OF assms(3-5)] by (simp add: disk_byte_range_def)
qed

text \<open>Writing to a reservation leaves the blocks of every indexed payload alone.\<close>

lemma indexed_payload_kept:
  assumes ok: "shard_ok ex lo hi (add_mset (chunk_numbers r) live) sh" and em: "entry_metas sh k = Some em" "no_wrap em"
    and wr: "write_padded oc (fst (disk_byte_range r)) (snd (disk_byte_range r) - fst (disk_byte_range r)) bytes f = (f', res)"
  shows "stored_blocks f' em = stored_blocks f em"
proof -
  note D = shard_core_D [OF shard_ok_D(1) [OF ok]]
  have alloc: "alloc_inv lo hi (add_mset (chunk_numbers r) (meta_live (metadata_pages sh) + live)) (allocator sh)" using D(1) by simp
  obtain e where e: "entries_by_key (entry_index sh) k = Some e" "em = entry_meta k e" using em(1) by (auto simp: entry_metas_def)
  then have pe: "payload_end e = unat (entry_payload_address e) + payload_disk_bytes (unat (entry_payload_len e))"
    using em(2) by (simp add: no_wrap_def payload_end_def entry_meta_def)
  obtain h n where h: "payload_chunks (allocator sh) (entry_chunk e) = Some (h, n)" "payload_end e \<le> snd (chunk_numbers h) * CHUNK_BYTES"
    using D(5) [OF e(1)] by (auto simp: inside_hold_def disk_byte_range_def split: option.splits)
  have start: "fst (chunk_numbers h) * CHUNK_BYTES \<le> unat (entry_payload_address e)"
    using alloc_inv_D(4) [OF alloc h(1)] by (simp add: entry_chunk_def div_times_less_eq_dividend)
  have ne: "fst (chunk_numbers r) < snd (chunk_numbers r)" using alloc_inv_D(5) [OF alloc, of "chunk_numbers r"] by simp
  have "image f' i = image f i" if "i \<in> set [unat (entry_payload_address e)..<unat (entry_payload_address e) + payload_disk_bytes (unat (entry_payload_len e))]" for i
    using that start h(2) by (intro reserved_write_frame [OF wr ne reservation_exclusive(2) [OF alloc h(1)]]) (simp_all add: pe)
  then show ?thesis unfolding stored_blocks_def disk_read_def e(2) by (simp add: entry_meta_def)
qed

lemma find_in_set: "find P xs = Some x \<Longrightarrow> x \<in> set xs \<and> P x"
  by (induction xs) (auto split: if_splits)

lemma map_option_find_cong:
  assumes "map (\<lambda>e. (P e, g e)) xs = map (\<lambda>e. (P e, g e)) ys"
  shows "map_option g (find P xs) = map_option g (find P ys)"
  using map_eq_imp_length_eq [OF assms] assms by (induction xs ys rule: list_induct2) auto

lemma mark_evicted_published: "published_metas p (mark_evicted ev es) m = published_metas p es m"
proof -
  have "map (\<lambda>e. (write_key e = k, write_metadata p e)) (mark_evicted ev es) = map (\<lambda>e. (write_key e = k, write_metadata p e)) es" for k
    by (simp add: mark_evicted_def write_metadata_def split: list.splits option.splits)
  then have "map_option (write_metadata p) (find (\<lambda>e. write_key e = k) (rev (mark_evicted ev es)))
      = map_option (write_metadata p) (find (\<lambda>e. write_key e = k) (rev es))" for k
    by (intro map_option_find_cong) (simp add: rev_map [symmetric])
  then show ?thesis unfolding published_metas_def by presburger
qed

lemma mark_evicted_simps: "length (mark_evicted ev es) = length es" "mark_evicted ev es = [] \<longleftrightarrow> es = []"
  "packed r (mark_evicted ev es) = packed r es"
  by (cases es; cases ev; simp add: mark_evicted_def packed_def)+

lemma written_payload:
  assumes e: "packed r es" "e \<in> set es" "buffer_offset e + write_payload_len e \<le> length bytes"
    and lim: "snd (chunk_numbers r) * CHUNK_BYTES < u64_limit" and ne: "fst (chunk_numbers r) < snd (chunk_numbers r)"
    and len: "length bytes \<le> snd (disk_byte_range r) - fst (disk_byte_range r)"
    and wr: "write_padded oc (fst (disk_byte_range r)) (snd (disk_byte_range r) - fst (disk_byte_range r)) bytes f = (f', Inr ())"
  defines "em \<equiv> write_metadata (fst (disk_byte_range r)) e"
  shows "stored_payload f' em = slice (buffer_offset e) (buffer_offset e + write_payload_len e) bytes"
    and "no_wrap em" and "unat (payload_len em) = write_payload_len e" and "payload_checksum em = write_payload_checksum e"
proof -
  let ?p = "fst (disk_byte_range r)" and ?n = "snd (disk_byte_range r) - fst (disk_byte_range r)"
  note W = write_metadata_entry [OF e(1,2) lim ne]
  let ?d = "new_disk_entry em (EntryMetadataLocation 0 0)"
  have f: "entry_payload_address ?d = payload_address em" "entry_payload_len ?d = payload_len em" by (simp_all add: new_disk_entry_def)
  have addr: "unat (payload_address em) = ?p + buffer_offset e" using W(4) f(1) unfolding em_def by metis
  show plen: "unat (payload_len em) = write_payload_len e" using W(5) f(2) unfolding em_def by metis
  show "payload_checksum em = write_payload_checksum e" by (simp add: em_def write_metadata_def)
  have "payload_end ?d \<le> snd (disk_byte_range r)" using W(2) unfolding em_def by blast
  moreover have "payload_end ?d = ?p + buffer_offset e + payload_disk_bytes (write_payload_len e)" using W(3) unfolding em_def by blast
  moreover have "write_payload_len e + 4096 \<le> u64_limit" using e(1,2) by (simp add: packed_def)
  ultimately show "no_wrap em" using lim unfolding no_wrap_def addr plen by (simp add: disk_byte_range_def)
  have "stored_payload f' em = disk_read (?p + buffer_offset e) (write_payload_len e) (disk_write ?p (bytes @ replicate (?n - length bytes) 0) (image f))"
    using write_padded_ok(1) [OF wr] len by (simp add: stored_payload_def addr plen)
  also have "\<dots> = slice (buffer_offset e) (buffer_offset e + write_payload_len e) (bytes @ replicate (?n - length bytes) 0)"
    using img.rd_wr_inside [of ?p "?p + buffer_offset e" "write_payload_len e" "bytes @ replicate (?n - length bytes) 0" "image f"] e(3) by simp
  also have "\<dots> = slice (buffer_offset e) (buffer_offset e + write_payload_len e) bytes"
    using e(3) by (simp add: slice_def)
  finally show "stored_payload f' em = slice (buffer_offset e) (buffer_offset e + write_payload_len e) bytes" .
qed

lemma packed_fits:
  assumes "chunk_count r = div_ceil (length bytes) CHUNK_BYTES" and "\<forall>e \<in> set es. fits_buffer bytes e"
    and "snd (chunk_numbers r) * CHUNK_BYTES \<le> i64_max" and "fst (chunk_numbers r) < snd (chunk_numbers r)"
  shows "packed r es" and "length bytes \<le> snd (disk_byte_range r) - fst (disk_byte_range r)"
proof -
  have pos: "0 < CHUNK_BYTES" by (simp add: CHUNK_BYTES_def)
  have "length bytes \<le> chunk_count r * CHUNK_BYTES" unfolding assms(1) by (rule div_ceil_mult [OF pos])
  then show le: "length bytes \<le> snd (disk_byte_range r) - fst (disk_byte_range r)"
    by (simp add: chunk_count_def disk_byte_range_def diff_mult_distrib)
  then have "length bytes \<le> i64_max" using assms(3) by (simp add: disk_byte_range_def)
  then have "length bytes + 4096 \<le> u64_limit" by (simp add: i64_max_def u64_limit_def)
  then show "packed r es" using assms(1,2) unfolding packed_def fits_buffer_def by fastforce
qed

text \<open>Every entry of the shard after a write is an entry from before, with its blocks unchanged, or an
  entry of the write, with the bytes of its payload.\<close>

definition kept_or_written :: "byte list \<Rightarrow> write_entry list \<Rightarrow> data_file \<times> disk_cache_shard \<Rightarrow> data_file \<times> disk_cache_shard \<Rightarrow> bool" where
  "kept_or_written bytes es before after \<longleftrightarrow> (\<forall>k em. entry_metas (snd after) k = Some em \<longrightarrow>
    entry_metas (snd before) k = Some em \<and> (no_wrap em \<longrightarrow> stored_blocks (fst after) em = stored_blocks (fst before) em) \<or>
    (\<exists>e \<in> set es. write_key e = k \<and> no_wrap em \<and> unat (payload_len em) = write_payload_len e
      \<and> payload_checksum em = write_payload_checksum e
      \<and> stored_payload (fst after) em = slice (buffer_offset e) (buffer_offset e + write_payload_len e) bytes))"

definition reserved_unchanged :: "rng multiset \<Rightarrow> data_file \<Rightarrow> data_file \<Rightarrow> bool" where
  "reserved_unchanged L f f' \<longleftrightarrow>
    (\<forall>x i. x \<in># L \<longrightarrow> fst x * CHUNK_BYTES \<le> i \<longrightarrow> i < snd x * CHUNK_BYTES \<longrightarrow> image f' i = image f i)"

lemma published_kept_or_written:
  assumes kept: "\<And>k em. m k = Some em \<Longrightarrow> entry_metas sh k = Some em \<and> (no_wrap em \<longrightarrow> stored_blocks f' em = stored_blocks f em)"
    and new: "\<And>e. e \<in> set es \<Longrightarrow> no_wrap (write_metadata p e) \<and> unat (payload_len (write_metadata p e)) = write_payload_len e
      \<and> payload_checksum (write_metadata p e) = write_payload_checksum e
      \<and> stored_payload f' (write_metadata p e) = slice (buffer_offset e) (buffer_offset e + write_payload_len e) bytes"
    and sh': "entry_metas sh' = published_metas p es m \<or> entry_metas sh' = m"
  shows "kept_or_written bytes es (f, sh) (f', sh')"
  unfolding kept_or_written_def fst_conv snd_conv
proof (intro allI impI)
  fix k em assume em: "entry_metas sh' k = Some em"
  show "entry_metas sh k = Some em \<and> (no_wrap em \<longrightarrow> stored_blocks f' em = stored_blocks f em) \<or>
    (\<exists>e \<in> set es. write_key e = k \<and> no_wrap em \<and> unat (payload_len em) = write_payload_len e
      \<and> payload_checksum em = write_payload_checksum e
      \<and> stored_payload f' em = slice (buffer_offset e) (buffer_offset e + write_payload_len e) bytes)"
  proof (cases "m k = Some em")
    case True
    then show ?thesis using kept by blast
  next
    case False
    then have "map_option (write_metadata p) (find (\<lambda>e. write_key e = k) (rev es)) = Some em"
      using em sh' by (auto simp: published_metas_def split: option.splits)
    then obtain e where "find (\<lambda>e. write_key e = k) (rev es) = Some e" "em = write_metadata p e" by auto
    then have "e \<in> set es" "write_key e = k" "em = write_metadata p e" using find_in_set by fastforce+
    then show ?thesis using new by blast
  qed
qed

lemma mark_evicted_kept [simp]: "kept_or_written bytes (mark_evicted ev es) b a = kept_or_written bytes es b a"
  by (cases es; cases ev) (simp_all add: kept_or_written_def mark_evicted_def)

lemma reserved_bounds:
  assumes "shard_ok ex lo hi (add_mset (chunk_numbers r) live) sh" and "hi * CHUNK_BYTES \<le> cap" and "cap \<le> i64_max"
  shows "fst (chunk_numbers r) < snd (chunk_numbers r)" and "snd (chunk_numbers r) * CHUNK_BYTES \<le> i64_max"
    and "snd (chunk_numbers r) * CHUNK_BYTES < u64_limit" and "hi * CHUNK_BYTES < u64_limit"
    and "snd (chunk_numbers r) * CHUNK_BYTES \<le> hi * CHUNK_BYTES"
proof -
  note D = shard_core_D(1) [OF shard_ok_D(1) [OF assms(1)]]
  show ne: "fst (chunk_numbers r) < snd (chunk_numbers r)" using alloc_inv_D(5) [OF D, of "chunk_numbers r"] by simp
  have "rng_set (chunk_numbers r) \<subseteq> {lo..<hi}" by (rule live_not_free(2) [OF D]) simp
  then have "snd (chunk_numbers r) \<le> hi" using ne by (simp add: ivl_subset)
  then show "snd (chunk_numbers r) * CHUNK_BYTES \<le> hi * CHUNK_BYTES" by (rule mult_le_mono1)
  moreover have "i64_max < u64_limit" by (simp add: i64_max_def u64_limit_def)
  ultimately show "snd (chunk_numbers r) * CHUNK_BYTES \<le> i64_max" "snd (chunk_numbers r) * CHUNK_BYTES < u64_limit" "hi * CHUNK_BYTES < u64_limit"
    using assms(2,3) by linarith+
qed

lemma reserved_write_unchanged:
  assumes ok: "shard_ok ex lo hi (add_mset (chunk_numbers r) live) sh"
    and wr: "write_padded oc (fst (disk_byte_range r)) (snd (disk_byte_range r) - fst (disk_byte_range r)) bytes f = (f', res)"
    and apart: "metadata_apart r sh'"
  shows "reserved_unchanged (live + meta_live (metadata_pages sh')) f f'"
  unfolding reserved_unchanged_def
proof (intro allI impI)
  fix x i assume x: "x \<in># live + meta_live (metadata_pages sh')" and i: "fst x * CHUNK_BYTES \<le> i" "i < snd x * CHUNK_BYTES"
  have alloc: "alloc_inv lo hi (add_mset (chunk_numbers r) (meta_live (metadata_pages sh) + live)) (allocator sh)"
    using shard_core_D(1) [OF shard_ok_D(1) [OF ok]] by simp
  have ne: "fst (chunk_numbers r) < snd (chunk_numbers r)" using alloc_inv_D(5) [OF alloc, of "chunk_numbers r"] by simp
  have "rng_set x \<inter> rng_set (chunk_numbers r) = {}"
  proof (cases "x \<in># live")
    case True
    then show ?thesis by (intro reservation_exclusive(1) [OF alloc]) simp
  next
    case False
    then have "x \<in># meta_live (metadata_pages sh')" using x by simp
    then obtain c where "c \<in> set (map reserved_chunk (chunks (metadata_pages sh')))" "x = chunk_numbers c" by (auto simp: meta_live_def)
    then show ?thesis using apart unfolding metadata_apart_def by blast
  qed
  then show "image f' i = image f i" using i by (rule reserved_write_frame [OF wr ne])
qed

lemma drop_reservation_shard_ok:
  assumes ok: "shard_ok ex lo hi (add_mset (chunk_numbers r) live) sh" and dr: "drop_reservation r (dm, sh) = (dm', sh')"
  shows "shard_ok ex lo hi live sh'" and "metadata_apart r sh'"
proof -
  note R = drop_reservation_ok [OF shard_ok_D(1) [OF ok] dr]
  have "payload_chunks (allocator sh') = payload_chunks (allocator sh)"
    using dr by (auto simp: drop_reservation_def drop_reserved_chunks_def release_def Let_def)
  moreover have "chunks (metadata_pages sh) \<noteq> []" using shard_ok_D(4) [OF ok] by (auto simp: head_ok_def)
  ultimately show "shard_ok ex lo hi live sh'"
    using R(1-3) shard_ok_D(2,3) [OF ok] head_ok_cong [OF _ _ shard_ok_D(4) [OF ok], of sh' live]
    by (simp add: shard_ok_def shard_inv_def holds_exact_def)
  show "metadata_apart r sh'" using metadata_apart [OF shard_core_D(1) [OF shard_ok_D(1) [OF ok]]] R(2) by (simp add: metadata_apart_def)
qed

text \<open>The bytes outside the chunks of the shard.\<close>

definition outside_unchanged :: "nat \<Rightarrow> nat \<Rightarrow> data_file \<Rightarrow> data_file \<Rightarrow> bool" where
  "outside_unchanged lo hi f f' \<longleftrightarrow> (\<forall>i. i < lo * CHUNK_BYTES \<or> hi * CHUNK_BYTES \<le> i \<longrightarrow> image f' i = image f i)"

lemma reserved_write_outside:
  assumes ok: "shard_ok ex lo hi (add_mset (chunk_numbers r) live) sh"
    and wr: "write_padded oc (fst (disk_byte_range r)) (snd (disk_byte_range r) - fst (disk_byte_range r)) bytes f = (f', res)"
  shows "outside_unchanged lo hi f f'"
  unfolding outside_unchanged_def
proof (intro allI impI)
  fix i assume i: "i < lo * CHUNK_BYTES \<or> hi * CHUNK_BYTES \<le> i"
  note D = shard_core_D(1) [OF shard_ok_D(1) [OF ok]]
  have ne: "fst (chunk_numbers r) < snd (chunk_numbers r)" using alloc_inv_D(5) [OF D, of "chunk_numbers r"] by simp
  have "rng_set (chunk_numbers r) \<subseteq> {lo..<hi}" by (rule live_not_free(2) [OF D]) simp
  then have "lo * CHUNK_BYTES \<le> fst (chunk_numbers r) * CHUNK_BYTES" "snd (chunk_numbers r) * CHUNK_BYTES \<le> hi * CHUNK_BYTES"
    using ne by (simp_all add: ivl_subset)
  moreover have "fst (chunk_numbers r) * CHUNK_BYTES \<le> snd (chunk_numbers r) * CHUNK_BYTES" using ne by simp
  ultimately have "i < fst (disk_byte_range r) \<or> fst (disk_byte_range r) + (snd (disk_byte_range r) - fst (disk_byte_range r)) \<le> i"
    using i unfolding disk_byte_range_def fst_conv snd_conv by linarith
  then show "image f' i = image f i" by (rule write_padded_frame [OF wr])
qed

lemma write_padded_capacity: "write_padded oc offset len bytes f = (f', r) \<Longrightarrow> capacity f' = capacity f"
  by (auto simp: write_padded_def measure_io_def Let_def split: if_splits io_outcome.splits sum.splits)

text \<open>After the reservation: the write fails and the chunks return, or the entries are published.\<close>

lemma write_reserved_ok:
  assumes ok: "shard_ok ex lo hi (add_mset (chunk_numbers r) live) sh" and hi: "hi * CHUNK_BYTES \<le> capacity f" and cap: "capacity f \<le> i64_max"
    and es: "es \<noteq> []" "length es \<le> ENTRIES_PER_METADATA_CHUNK" "\<forall>e \<in> set es. fits_buffer bytes e"
    and req: "chunk_count r = div_ceil (length bytes) CHUNK_BYTES"
  shows "\<exists>f' dm' sh' res. write_reserved oc bytes es r (f, (dm, sh)) = Some (f', (dm', sh'), res)
    \<and> shard_ok ex lo hi live sh' \<and> finished_attempts dm' = finished_attempts dm + length es \<and> gauge_gap dm' sh' = gauge_gap dm sh
    \<and> capacity f' = capacity f \<and> small_entry_buffer sh' = small_entry_buffer sh \<and> outside_unchanged lo hi f f'
    \<and> kept_or_written bytes es (f, sh) (f', sh') \<and> reserved_unchanged (live + meta_live (metadata_pages sh')) f f'
    \<and> (isl res \<longrightarrow> entry_metas sh' = entry_metas sh)"
proof -
  note B = reserved_bounds [OF ok hi cap]
  note pk = packed_fits [OF req es(3) B(2,1)]
  let ?p = "fst (disk_byte_range r)" and ?n = "snd (disk_byte_range r) - fst (disk_byte_range r)"
  obtain f1 wres where wr: "write_padded oc ?p ?n bytes f = (f1, wres)" by fastforce
  have kept: "entry_metas sh k = Some em \<and> (no_wrap em \<longrightarrow> stored_blocks f1 em = stored_blocks f em)" if "entry_metas sh k = Some em" for k em
    using that indexed_payload_kept [OF ok that _ wr] by simp
  show ?thesis
  proof (cases wres)
    case (Inl err)
    obtain dm2 sh2 where dr: "drop_reservation r (dm, sh) = (dm2, sh2)" by fastforce
    note R = drop_reservation_ok [OF shard_ok_D(1) [OF ok] dr] and O = drop_reservation_shard_ok [OF ok dr]
    have m2: "entry_metas sh2 = entry_metas sh" using R(3) by (simp add: entry_metas_def [abs_def])
    then have "kept_or_written bytes es (f, sh) (f1, sh2)" using kept by (simp add: kept_or_written_def)
    moreover have "write_reserved oc bytes es r (f, (dm, sh)) = Some (f1, (finish_entries WriteFailed es dm2, sh2), Inl (DataFileError err))"
      using wr Inl dr by (simp add: write_reserved_def)
    ultimately show ?thesis using O(1) reserved_write_unchanged [OF ok wr O(2)] m2 R(3-7) write_padded_capacity [OF wr] reserved_write_outside [OF ok wr] by (simp add: finish_entries_gauges gauge_gap_def)
  next
    case (Inr u)
    then have wr': "write_padded oc ?p ?n bytes f = (f1, Inr ())" using wr by simp
    obtain dm2 sh2 n where pub: "publish r es (dm, sh) = Some ((dm2, sh2), n)" and P: "shard_ok ex lo hi live sh2"
      "finished_attempts dm2 = finished_attempts dm + length es" "gauge_gap dm2 sh2 = gauge_gap dm sh" "metadata_apart r sh2" "small_entry_buffer sh2 = small_entry_buffer sh"
      and metas: "entry_metas sh2 = published_metas ?p es (entry_metas sh) \<or> entry_metas sh2 = entry_metas sh"
      using publish_ok [OF ok es(1,2) pk(1) B(4), of dm] by blast
    have "kept_or_written bytes es (f, sh) (f1, sh2)"
    proof (rule published_kept_or_written [OF kept _ metas])
      fix e assume e: "e \<in> set es"
      then have fit: "buffer_offset e + write_payload_len e \<le> length bytes" using es(3) by (simp add: fits_buffer_def)
      show "no_wrap (write_metadata ?p e) \<and> unat (payload_len (write_metadata ?p e)) = write_payload_len e
          \<and> payload_checksum (write_metadata ?p e) = write_payload_checksum e
          \<and> stored_payload f1 (write_metadata ?p e) = slice (buffer_offset e) (buffer_offset e + write_payload_len e) bytes"
        using written_payload [OF pk(1) e fit B(3,1) pk(2) wr'] by blast
    qed
    moreover have "write_reserved oc bytes es r (f, (dm, sh)) = Some (f1, (dm2, sh2), Inr n)"
      using wr' pub by (simp add: write_reserved_def)
    ultimately show ?thesis using P reserved_write_unchanged [OF ok wr P(4)] write_padded_capacity [OF wr] reserved_write_outside [OF ok wr] by simp
  qed
qed

lemma kept_or_written_mono:
  assumes "kept_or_written bytes es (f, sh1) (f', sh')" and sub: "entry_metas sh1 \<subseteq>\<^sub>m entry_metas sh"
  shows "kept_or_written bytes es (f, sh) (f', sh')"
proof -
  have "entry_metas sh k = Some em" if "entry_metas sh1 k = Some em" for k em using sub that by (metis domI map_le_def)
  then show ?thesis using assms(1) unfolding kept_or_written_def fst_conv snd_conv by blast
qed

lemma write_payload_ok:
  assumes ok: "shard_ok ex lo hi live sh" and lo: "lo < hi" and hi: "hi * CHUNK_BYTES \<le> capacity f" and cap: "capacity f \<le> i64_max"
    and es: "es \<noteq> []" "length es \<le> ENTRIES_PER_METADATA_CHUNK" "\<forall>e \<in> set es. fits_buffer bytes e"
  shows "\<exists>f' dm' sh' res. write_payload score sample_size oc bytes es (f, (dm, sh)) = Some (f', (dm', sh'), res)
    \<and> shard_ok ex lo hi live sh' \<and> finished_attempts dm' = finished_attempts dm + length es \<and> gauge_gap dm' sh' = gauge_gap dm sh
    \<and> capacity f' = capacity f \<and> small_entry_buffer sh' = small_entry_buffer sh \<and> outside_unchanged lo hi f f'
    \<and> kept_or_written bytes es (f, sh) (f', sh') \<and> reserved_unchanged (live + meta_live (metadata_pages sh')) f f'
    \<and> (isl res \<longrightarrow> entry_metas sh' \<subseteq>\<^sub>m entry_metas sh)"
proof -
  let ?req = "div_ceil (length bytes) CHUNK_BYTES"
  have len: "0 < length es" using es(1) by simp
  obtain dm1 sh1 ro ev where res: "reserve_for_write score sample_size ?req (length es) (MAX_EVICTION_ATTEMPTS, MAX_EVICTION_CHUNKS) None (dm, sh)
      = Some ((dm1, sh1), ro, ev)"
    and ok1: "shard_ok ex lo hi (case ro of None \<Rightarrow> live | Some r \<Rightarrow> add_mset (chunk_numbers r) live) sh1"
    and acc: "finished_attempts dm1 = finished_attempts dm" "gauge_gap dm1 sh1 = gauge_gap dm sh" "small_entry_buffer sh1 = small_entry_buffer sh"
    and cnt: "\<forall>r. ro = Some r \<longrightarrow> chunk_count r = ?req" and sub: "entry_metas sh1 \<subseteq>\<^sub>m entry_metas sh"
    using reserve_for_write_ok [OF ok lo len, of score sample_size ?req "(MAX_EVICTION_ATTEMPTS, MAX_EVICTION_CHUNKS)" None dm] by blast
  show ?thesis
  proof (cases ro)
    case None
    have "kept_or_written bytes es (f, sh1) (f, sh1)" by (simp add: kept_or_written_def)
    then have "kept_or_written bytes es (f, sh) (f, sh1)" using sub by (rule kept_or_written_mono)
    moreover have "write_payload score sample_size oc bytes es (f, (dm, sh)) = Some (f, (finish_entries NoCapacity (mark_evicted ev es) dm1, sh1), Inr 0)"
      using res None by (simp add: write_payload_def)
    ultimately show ?thesis using ok1 None acc
      by (simp add: finish_entries_gauges mark_evicted_simps gauge_gap_def reserved_unchanged_def outside_unchanged_def)
  next
    case (Some r)
    then have okr: "shard_ok ex lo hi (add_mset (chunk_numbers r) live) sh1" and req: "chunk_count r = ?req" using ok1 cnt by simp_all
    have es': "mark_evicted ev es \<noteq> []" "length (mark_evicted ev es) \<le> ENTRIES_PER_METADATA_CHUNK" "\<forall>e \<in> set (mark_evicted ev es). fits_buffer bytes e"
      using es by (simp_all add: mark_evicted_simps) (cases es; cases ev; simp add: mark_evicted_def fits_buffer_def)
    obtain f' dm' sh' res' where "write_reserved oc bytes (mark_evicted ev es) r (f, (dm1, sh1)) = Some (f', (dm', sh'), res')"
      "shard_ok ex lo hi live sh'" "finished_attempts dm' = finished_attempts dm1 + length es" "gauge_gap dm' sh' = gauge_gap dm1 sh1" "capacity f' = capacity f" "small_entry_buffer sh' = small_entry_buffer sh1" "outside_unchanged lo hi f f'"
      "kept_or_written bytes es (f, sh1) (f', sh')" "reserved_unchanged (live + meta_live (metadata_pages sh')) f f'"
      "isl res' \<longrightarrow> entry_metas sh' = entry_metas sh1"
      using write_reserved_ok [OF okr hi cap es' req, of oc dm1] by (auto simp: mark_evicted_simps)
    moreover from this have "write_payload score sample_size oc bytes es (f, (dm, sh)) = Some (f', (dm', sh'), res')"
      using res Some by (simp add: write_payload_def)
    ultimately show ?thesis using acc sub kept_or_written_mono by auto
  qed
qed

text \<open>C3: A write always ends, whatever the outcome of its I/O. Every entry of it ends with one outcome, the
  shard stays consistent, and the gauges follow the index. The bytes of every entry that stays indexed, of
  every chunk that another writer has reserved, of every metadata chunk and outside the shard are those from before, and
  every entry that the write publishes can be read back: its address holds its payload. A failed write
  publishes nothing.\<close>

theorem write_payload_safe:
  assumes ok: "shard_ok ex lo hi live sh" and lo: "lo < hi" and hi: "hi * CHUNK_BYTES \<le> capacity f" and cap: "capacity f \<le> i64_max"
    and es: "es \<noteq> []" "length es \<le> ENTRIES_PER_METADATA_CHUNK" "\<forall>e \<in> set es. fits_buffer bytes e"
  shows "\<exists>f' dm' sh' res. write_payload score sample_size oc bytes es (f, (dm, sh)) = Some (f', (dm', sh'), res)
    \<and> shard_ok ex lo hi live sh' \<and> finished_attempts dm' = finished_attempts dm + length es \<and> gauge_gap dm' sh' = gauge_gap dm sh
    \<and> capacity f' = capacity f \<and> small_entry_buffer sh' = small_entry_buffer sh \<and> outside_unchanged lo hi f f'
    \<and> kept_or_written bytes es (f, sh) (f', sh') \<and> reserved_unchanged (live + meta_live (metadata_pages sh')) f f'
    \<and> (isl res \<longrightarrow> entry_metas sh' \<subseteq>\<^sub>m entry_metas sh)"
  by (rule write_payload_ok [OF assms])


lemma unrecovered_shard_ok:
  assumes "unrecovered lo hi {#} sh" shows "shard_ok ex lo hi {#} sh"
proof -
  have "meta_inv default_metadata_chunks" by (rule default_metadata_inv)
  moreover have "chunks default_metadata_chunks = []" by (simp add: default_metadata_chunks_def)
  moreover
  have "index_ok new_disk_entry_index" by (simp add: index_ok_def new_disk_entry_index_def di.consistent_empty)
  ultimately show ?thesis using assms
    by (auto simp: unrecovered_def shard_ok_def shard_inv_def shard_core_def holds_exact_def head_ok_def meta_live_def slot_at_def valid_loc_def
        new_disk_entry_index_def hold_count_def uses_def)
qed

text \<open>C19: A write for which there are free chunks publishes every entry that is not already in the index,
  evicts nothing, and the last of several entries with one key wins.\<close>

theorem write_payload_publishes:
  assumes ok: "shard_ok ex lo hi live sh" and lo: "lo < hi" and hi: "hi * CHUNK_BYTES \<le> capacity f" and cap: "capacity f \<le> i64_max"
    and es: "es \<noteq> []" "length es \<le> ENTRIES_PER_METADATA_CHUNK" "\<forall>e \<in> set es. fits_buffer bytes e"
    and room: "try_reserve (div_ceil (length bytes) CHUNK_BYTES) (length es) (dm, sh) = (s1, Some r)"
  shows "\<exists>f' dm' sh' n. write_payload score sample_size (IoOk t) bytes es (f, (dm, sh)) = Some (f', (dm', sh'), Inr n)
    \<and> entry_metas sh' = (\<lambda>k. case entry_metas sh k of Some em \<Rightarrow> Some em
        | None \<Rightarrow> map_option (write_metadata (fst (disk_byte_range r))) (find (\<lambda>e. write_key e = k) (rev es)))"
proof -
  let ?req = "div_ceil (length bytes) CHUNK_BYTES" and ?p = "fst (disk_byte_range r)"
  obtain dm1 sh1 where s1: "s1 = (dm1, sh1)" by (cases s1)
  note T = try_reserve_ok [OF shard_ok_D(1,2) [OF ok] room [unfolded s1]]
  have len: "0 < length es" using es(1) by simp
  have okr: "shard_ok ex lo hi (add_mset (chunk_numbers r) live) sh1" using try_reserve_shard_ok(1) [OF ok lo len room [unfolded s1]] by simp
  have same: "entry_metas sh1 = entry_metas sh" using T(3) by (simp add: entry_metas_def [abs_def])
  have slots: "length es \<le> free_slot_count (metadata_pages sh1)"
    using room s1 ensure_free_slots_shard(3) [OF shard_ok_D(1,2) [OF ok] _ es(2)] by (auto simp: try_reserve_def split: option.splits)
  note B = reserved_bounds [OF okr hi cap]
  note pk = packed_fits [OF T(5) [OF refl] es(3) B(2,1)]
  have fit: "snd (disk_byte_range r) \<le> capacity f" using B(5) hi unfolding disk_byte_range_def snd_conv by linarith
  have le: "?p \<le> snd (disk_byte_range r)" using B(1) by (simp add: disk_byte_range_def)
  have "check_range_fits_file Write ?p (snd (disk_byte_range r) - ?p) (capacity f) = Inr ()"
    using fit le B(3) by (simp add: check_range_fits_file_def checked_add_def disk_byte_range_def)
  then obtain f1 where wr: "write_padded (IoOk t) ?p (snd (disk_byte_range r) - ?p) bytes f = (f1, Inr ())"
    by (simp add: write_padded_def measure_io_def)
  obtain s2 n where pub: "publish r es (dm1, sh1) = Some (s2, n)" "entry_metas (snd s2) = published_metas ?p es (entry_metas sh1)"
    using publish_ok [OF okr es(1,2) pk(1) B(4), of dm1] slots by fastforce
  have "reserve_for_write score sample_size ?req (length es) (MAX_EVICTION_ATTEMPTS, MAX_EVICTION_CHUNKS) None (dm, sh) = Some ((dm1, sh1), Some r, None)"
    using room s1 by (subst reserve_for_write.simps) simp
  moreover have "mark_evicted None es = es" by (simp add: mark_evicted_def)
  ultimately show ?thesis using wr pub same by (cases s2) (simp add: write_payload_def write_reserved_def published_metas_def)
qed

text \<open>A write of one entry to an empty shard with two chunks: one chunk for metadata, one for the payload.\<close>

definition example_write :: write_entry where
  "example_write = \<lparr>write_key = 7, write_payload_len = 3, write_payload_checksum = 9, buffer_offset = 0,
    attempt = new_disk_write_attempt, completion_guard = NoCompletion\<rparr>"

lemma example_write_fits: "\<forall>e \<in> set [example_write]. fits_buffer [1, 2, 3] e"
  by (simp add: example_write_def fits_buffer_def div_ceil_def payload_disk_bytes_def next_multiple_of_def
      CHUNK_BYTES_def DIRECT_IO_ALIGNMENT_BYTES_def u64_limit_def)

lemmas example_write_ok = unrecovered_shard_ok [OF example_new_shard, of True]

lemma example_file_fits: "3 * CHUNK_BYTES \<le> capacity (zero_file 3145728)" "capacity (zero_file 3145728) \<le> i64_max"
  "length [example_write] \<le> ENTRIES_PER_METADATA_CHUNK"
  by (simp_all add: zero_file_def CHUNK_BYTES_def i64_max_def page_const_values(7))

theorem write_payload_safe_witness:
  "\<exists>f' dm' sh' res. write_payload (\<lambda>_ _. 0 :: nat) 1 (IoFailed 0 ''EIO'' (\<lambda>_. True)) [1, 2, 3] [example_write]
      (zero_file 3145728, new_disk_cache_shard (1048576, 3145728) new_disk_metrics) = Some (f', (dm', sh'), res)
    \<and> shard_ok True 1 3 {#} sh' \<and> kept_or_written [1, 2, 3] [example_write]
        (zero_file 3145728, snd (new_disk_cache_shard (1048576, 3145728) new_disk_metrics)) (f', sh')"
  using write_payload_safe [OF example_write_ok _ example_file_fits(1,2) _ example_file_fits(3) example_write_fits, of "\<lambda>_ _. 0 :: nat" 1
      "IoFailed 0 ''EIO'' (\<lambda>_. True)" "fst (new_disk_cache_shard (1048576, 3145728) new_disk_metrics)"]
  unfolding prod.collapse by auto

lemma example_try_reserve:
  "\<exists>s1. try_reserve (div_ceil (length [1 :: byte, 2, 3]) CHUNK_BYTES) (length [example_write])
    (new_disk_cache_shard (1048576, 3145728) new_disk_metrics) = (s1, Some \<lparr>chunk_numbers = (2, 3), recovered = False\<rparr>)"
  by (simp add: try_reserve_def new_disk_cache_shard_def with_metrics_def ensure_free_slots_def default_metadata_chunks_def
      reserve_chunks_def reserve_chunk_numbers_def reserve_runs_def bt_find_def bt_last_upto_def last_opt_def bt_remove_def
      set_last_chunk_link_def div_ceil_def CHUNK_BYTES_def new_disk_metrics_def Let_def)

theorem write_payload_publishes_witness:
  "\<exists>f' dm' sh' n. write_payload (\<lambda>_ _. 0 :: nat) 1 (IoOk 0) [1, 2, 3] [example_write]
      (zero_file 3145728, new_disk_cache_shard (1048576, 3145728) new_disk_metrics) = Some (f', (dm', sh'), Inr n)
    \<and> entry_metas sh' 7 = Some (write_metadata 2097152 example_write)"
proof -
  let ?s = "new_disk_cache_shard (1048576, 3145728) new_disk_metrics"
  have p: "fst (disk_byte_range \<lparr>chunk_numbers = (2, 3), recovered = False\<rparr>) = 2097152" by (simp add: disk_byte_range_def CHUNK_BYTES_def)
  obtain s1 where "try_reserve (div_ceil (length [1 :: byte, 2, 3]) CHUNK_BYTES) (length [example_write]) (fst ?s, snd ?s)
      = (s1, Some \<lparr>chunk_numbers = (2, 3), recovered = False\<rparr>)" using example_try_reserve by auto
  from write_payload_publishes [OF example_write_ok _ example_file_fits(1,2) _ example_file_fits(3) example_write_fits this,
    of "\<lambda>_ _. 0 :: nat" 1 0] obtain f' dm' sh' n where
    w: "write_payload (\<lambda>_ _. 0 :: nat) 1 (IoOk 0) [1, 2, 3] [example_write] (zero_file 3145728, ?s) = Some (f', (dm', sh'), Inr n)"
    and m: "entry_metas sh' = (\<lambda>k. case entry_metas (snd ?s) k of Some em \<Rightarrow> Some em
      | None \<Rightarrow> map_option (write_metadata 2097152) (find (\<lambda>e. write_key e = k) (rev [example_write])))"
    unfolding prod.collapse p by auto
  have "entry_metas (snd ?s) 7 = None" using example_new_shard by (simp add: unrecovered_def entry_metas_def new_disk_entry_index_def)
  then have "entry_metas sh' 7 = Some (write_metadata 2097152 example_write)" by (simp add: m example_write_def)
  with w show ?thesis by blast
qed

end
