(* ===== verification/Small_Entries.thy ===== *)
theory Small_Entries
  imports Writer
begin

text \<open>
  The small-entry buffer of a shard, \<open>feuer-storage/src/disk_cache/small_entry_buffer.rs\<close>, and the write
  path through it. Small entries collect at aligned offsets of one chunk; the chunk is written when it is
  full, when the next entry does not fit, or by a flush. Larger entries are written at once.

  A call may issue two payload writes, whose outcomes are \<open>ocs 0\<close> and \<open>ocs 1\<close>. \<open>unlocked\<close> says whether the
  nonblocking look into the buffer finds its lock free. The allocation of a new 1-MiB buffer succeeds.
\<close>

definition SMALL_ENTRY_BYTES :: nat where
  "SMALL_ENTRY_BYTES = 512 * 1024"

definition buffered_entry :: "object_key_hash \<Rightarrow> small_entry_buffer \<Rightarrow> write_entry option" where
  "buffered_entry k b = find (\<lambda>e. write_key e = k) (rev (buffered_entries b))"

definition buffered_get :: "object_key_hash \<Rightarrow> small_entry_buffer \<Rightarrow> byte list option" where
  "buffered_get k b =
    map_option (\<lambda>e. slice (buffer_offset e) (buffer_offset e + write_payload_len e) (buffer b)) (buffered_entry k b)"

definition contains_key :: "bool \<Rightarrow> object_key_hash \<Rightarrow> disk_cache_shard \<Rightarrow> bool" where
  "contains_key unlocked k sh \<longleftrightarrow>
    unlocked \<and> buffered_entry k (small_entry_buffer sh) \<noteq> None \<or> entries_by_key (entry_index sh) k \<noteq> None"

definition flush_buffer ::
  "(object_key_hash \<Rightarrow> nat \<Rightarrow> 's::linorder) \<Rightarrow> nat \<Rightarrow> io_outcome
    \<Rightarrow> data_file \<times> shard_state \<Rightarrow> (data_file \<times> shard_state \<times> (disk_cache_error + nat)) option" where
  "flush_buffer score sample_size oc fs =
    (let (f, dm, sh) = fs; b = small_entry_buffer sh in
     if buffered_entries b = [] then Some (f, (dm, sh), Inr 0)
     else write_payload score sample_size oc (buffer b) (buffered_entries b)
            (f, (dm, sh\<lparr>small_entry_buffer := new_small_entry_buffer\<rparr>)))"

definition discard_buffer :: "shard_state \<Rightarrow> shard_state" where
  "discard_buffer s =
    (let (dm, sh) = s; b = small_entry_buffer sh
     in (fold drop_write_entry (buffered_entries b) dm, sh\<lparr>small_entry_buffer := b\<lparr>buffered_entries := []\<rparr>\<rparr>))"

definition next_offset :: "small_entry_buffer \<Rightarrow> nat" where
  "next_offset b = (case last_opt (buffered_entries b) of
     None \<Rightarrow> 0 | Some e \<Rightarrow> buffer_offset e + payload_disk_bytes (write_payload_len e))"

definition push_entry :: "nat \<Rightarrow> byte list \<Rightarrow> write_entry \<Rightarrow> small_entry_buffer \<Rightarrow> small_entry_buffer" where
  "push_entry offset bytes e b = b\<lparr>buffer := copy_into offset bytes (buffer b),
    buffered_entries := buffered_entries b @ [e\<lparr>buffer_offset := offset\<rparr>]\<rparr>"

text \<open>The part of \<open>write\<close> that holds the lock of the buffer.\<close>

definition buffer_write ::
  "(object_key_hash \<Rightarrow> nat \<Rightarrow> 's::linorder) \<Rightarrow> nat \<Rightarrow> (nat \<Rightarrow> io_outcome) \<Rightarrow> byte list \<Rightarrow> write_entry
    \<Rightarrow> data_file \<times> shard_state \<Rightarrow> (data_file \<times> shard_state \<times> (disk_cache_error + nat)) option" where
  "buffer_write score sample_size ocs bytes e fs =
    (let aligned_payload_len = payload_disk_bytes (length bytes);
         offset = next_offset (small_entry_buffer (snd (snd fs)));
         flushed = (if offset + aligned_payload_len > CHUNK_BYTES
           then map_option (\<lambda>(f, s, r). (f, s, r, 0)) (flush_buffer score sample_size (ocs 0) fs)
           else Some (fst fs, snd fs, Inr 0, offset))
     in case flushed of
          None \<Rightarrow> None
        | Some (f1, (dm1, sh1), Inl err, _) \<Rightarrow> Some (f1, (drop_write_entry e dm1, sh1), Inl err)
        | Some (f1, (dm1, sh1), Inr published, offset1) \<Rightarrow>
            let sh2 = sh1\<lparr>small_entry_buffer := push_entry offset1 bytes e (small_entry_buffer sh1)\<rparr> in
            if offset1 + aligned_payload_len = CHUNK_BYTES
            then map_option (\<lambda>(f, s, r). (f, s, case r of Inl err \<Rightarrow> Inl err | Inr n \<Rightarrow> Inr (published + n)))
                   (flush_buffer score sample_size (ocs 1) (f1, (dm1, sh2)))
            else Some (f1, (dm1, sh2), Inr published))"

definition write_shard ::
  "(object_key_hash \<Rightarrow> nat \<Rightarrow> 's::linorder) \<Rightarrow> nat \<Rightarrow> (byte list \<Rightarrow> u64) \<Rightarrow> bool \<Rightarrow> (nat \<Rightarrow> io_outcome)
    \<Rightarrow> object_key_hash \<Rightarrow> byte list \<Rightarrow> completion
    \<Rightarrow> data_file \<times> shard_state \<Rightarrow> (data_file \<times> shard_state \<times> (disk_cache_error + nat)) option" where
  "write_shard score sample_size xxh unlocked ocs k bytes completion fs =
    (let (f, dm, sh) = fs in
     if contains_key unlocked k sh
     then Some (f, (drop_completion completion
                     (drop_disk_write_attempt (new_disk_write_attempt\<lparr>outcome := AlreadyCovered\<rparr>) dm), sh), Inr 0)
     else
       let e = \<lparr>write_key = k, write_payload_len = length bytes, write_payload_checksum = xxh bytes,
             buffer_offset = 0, attempt = new_disk_write_attempt, completion_guard = completion\<rparr>
       in if payload_disk_bytes (length bytes) \<ge> SMALL_ENTRY_BYTES
          then write_payload score sample_size (ocs 0) bytes [e] fs
          else buffer_write score sample_size ocs bytes e fs)"

subsection \<open>The buffer invariant\<close>

text \<open>Entries lie one after the other, at aligned offsets, inside the chunk; there is room for one more
  block; and every entry's checksum is that of its bytes. \<open>P\<close> is what is known of the payloads.\<close>

definition entry_bytes :: "byte list \<Rightarrow> write_entry \<Rightarrow> byte list" where
  "entry_bytes bytes e = slice (buffer_offset e) (buffer_offset e + write_payload_len e) bytes"

fun consecutive :: "nat \<Rightarrow> write_entry list \<Rightarrow> bool" where
  "consecutive off [] \<longleftrightarrow> True"
| "consecutive off (e # es) \<longleftrightarrow> buffer_offset e = off \<and> consecutive (off + payload_disk_bytes (write_payload_len e)) es"

definition buffer_packed :: "(object_key_hash \<Rightarrow> u64 \<Rightarrow> byte list \<Rightarrow> bool) \<Rightarrow> small_entry_buffer \<Rightarrow> bool" where
  "buffer_packed P b \<longleftrightarrow> length (buffer b) = CHUNK_BYTES \<and> consecutive 0 (buffered_entries b) \<and> next_offset b \<le> CHUNK_BYTES \<and>
    (\<forall>e \<in> set (buffered_entries b). write_payload_len e < SMALL_ENTRY_BYTES \<and>
      P (write_key e) (write_payload_checksum e) (entry_bytes (buffer b) e))"

definition buffer_ok :: "(object_key_hash \<Rightarrow> u64 \<Rightarrow> byte list \<Rightarrow> bool) \<Rightarrow> small_entry_buffer \<Rightarrow> bool" where
  "buffer_ok P b \<longleftrightarrow> buffer_packed P b \<and> next_offset b < CHUNK_BYTES"

text \<open>What is known of the indexed payloads on disk.\<close>

definition payloads_ok :: "(object_key_hash \<Rightarrow> u64 \<Rightarrow> byte list \<Rightarrow> bool) \<Rightarrow> data_file \<Rightarrow> disk_cache_shard \<Rightarrow> bool" where
  "payloads_ok P f sh \<longleftrightarrow> (\<forall>k em. entry_metas sh k = Some em \<longrightarrow> no_wrap em \<longrightarrow> P k (payload_checksum em) (stored_payload f em))"

lemma aligned_len: "len + 4096 \<le> u64_limit \<Longrightarrow> 4096 dvd payload_disk_bytes len \<and> len \<le> payload_disk_bytes len \<and> 4096 \<le> payload_disk_bytes len
    \<and> payload_disk_bytes len < max len 1 + 4096"
  using payload_disk_bytes_no_wrap [of len] next_multiple_of_dvd [of 4096 "max len 1"] next_multiple_of_ge [of "max len 1" 4096]
    next_multiple_of_less [of 4096 "max len 1"] by (auto dest: dvd_imp_le)

lemma stored_payload_prefix:
  assumes "no_wrap em"
  shows "stored_payload f em = take (unat (payload_len em)) (stored_blocks f em)"
  using aligned_len [of "unat (payload_len em)"] assms
  by (auto simp: no_wrap_def stored_payload_def stored_blocks_def disk_read_def take_map intro!: nth_equalityI)

lemma kept_or_written_payloads:
  assumes "kept_or_written bytes es (f, sh) (f', sh')" and "payloads_ok P f sh"
    and "\<forall>e \<in> set es. P (write_key e) (write_payload_checksum e) (entry_bytes bytes e)"
  shows "payloads_ok P f' sh'"
  unfolding payloads_ok_def
proof (intro allI impI)
  fix k em assume em: "entry_metas sh' k = Some em" "no_wrap em"
  from assms(1) em(1) consider "entry_metas sh k = Some em" "no_wrap em \<longrightarrow> stored_blocks f' em = stored_blocks f em"
    | e where "e \<in> set es" "write_key e = k" "payload_checksum em = write_payload_checksum e" "stored_payload f' em = entry_bytes bytes e"
    unfolding kept_or_written_def entry_bytes_def fst_conv snd_conv by blast
  then show "P k (payload_checksum em) (stored_payload f' em)"
  proof cases
    case 1
    then have "stored_payload f' em = stored_payload f em" using em(2) by (simp add: stored_payload_prefix)
    then show ?thesis using 1(1) em(2) assms(2) by (simp add: payloads_ok_def)
  next
    case 2
    then show ?thesis using assms(3) by metis
  qed
qed

lemma consecutive_append:
  "consecutive off (es @ [e]) \<longleftrightarrow> consecutive off es \<and>
    buffer_offset e = (case last_opt es of None \<Rightarrow> off | Some e' \<Rightarrow> buffer_offset e' + payload_disk_bytes (write_payload_len e'))"
  by (induction es arbitrary: off) (auto simp: last_opt_def split: if_splits)

abbreviation blocks :: "write_entry list \<Rightarrow> nat" where
  "blocks es \<equiv> sum_list (map (\<lambda>e. payload_disk_bytes (write_payload_len e)) es)"

lemma consecutive_bounds:
  "consecutive off es \<Longrightarrow> e \<in> set es \<Longrightarrow>
    off \<le> buffer_offset e \<and> buffer_offset e + payload_disk_bytes (write_payload_len e) \<le> off + blocks es"
  by (induction es arbitrary: off) fastforce+

lemma consecutive_end:
  "consecutive off es \<Longrightarrow>
    (case last_opt es of None \<Rightarrow> off | Some e \<Rightarrow> buffer_offset e + payload_disk_bytes (write_payload_len e)) = off + blocks es"
  by (induction es arbitrary: off) (auto simp: last_opt_def split: if_splits)

lemma next_offset_blocks: "consecutive 0 (buffered_entries b) \<Longrightarrow> next_offset b = blocks (buffered_entries b)"
  using consecutive_end [of 0 "buffered_entries b"] by (simp add: next_offset_def)

lemma small_len: "len < SMALL_ENTRY_BYTES \<Longrightarrow> len + 4096 \<le> u64_limit"
  by (simp add: SMALL_ENTRY_BYTES_def u64_limit_def)

lemma blocks_ge: "\<forall>e \<in> set es. write_payload_len e < SMALL_ENTRY_BYTES \<Longrightarrow> 4096 * length es \<le> blocks es"
  by (induction es) (use aligned_len small_len in fastforce)+

lemma div_ceil_one: "0 < n \<Longrightarrow> n \<le> m \<Longrightarrow> div_ceil n m = 1"
  by (cases "n = m") (auto simp: div_ceil_def)

text \<open>A packed buffer can be written as one chunk.\<close>

lemma buffer_packed_fits:
  assumes "buffer_packed P b"
  shows "\<forall>e \<in> set (buffered_entries b). fits_buffer (buffer b) e" and "length (buffered_entries b) \<le> ENTRIES_PER_METADATA_CHUNK"
proof -
  let ?es = "buffered_entries b"
  have es: "consecutive 0 ?es" "blocks ?es \<le> CHUNK_BYTES" "length (buffer b) = CHUNK_BYTES" "\<forall>e \<in> set ?es. write_payload_len e < SMALL_ENTRY_BYTES"
    using assms next_offset_blocks [of b] by (simp_all add: buffer_packed_def)
  show "\<forall>e \<in> set ?es. fits_buffer (buffer b) e"
  proof
    fix e assume e: "e \<in> set ?es"
    have al: "write_payload_len e \<le> payload_disk_bytes (write_payload_len e)" "4096 \<le> payload_disk_bytes (write_payload_len e)"
      using aligned_len [OF small_len] es(4) e by blast+
    have "buffer_offset e + payload_disk_bytes (write_payload_len e) \<le> CHUNK_BYTES" using consecutive_bounds [OF es(1) e] es(2) by linarith
    then show "fits_buffer (buffer b) e" using al es(3) by (simp add: fits_buffer_def div_ceil_one)
  qed
  have "4096 * length ?es \<le> CHUNK_BYTES" using blocks_ge [OF es(4)] es(2) by linarith
  then show "length ?es \<le> ENTRIES_PER_METADATA_CHUNK" by (simp add: page_const_values)
qed

lemma new_buffer_ok [simp]: "buffer_ok P new_small_entry_buffer"
  by (simp add: buffer_ok_def buffer_packed_def new_small_entry_buffer_def next_offset_def last_opt_def CHUNK_BYTES_def)

lemma next_offset_push: "next_offset (push_entry n bytes e b) = n + payload_disk_bytes (write_payload_len e)"
  by (simp add: next_offset_def push_entry_def last_opt_def)

lemma buffer_packed_push:
  assumes b: "buffer_packed P b" and len: "write_payload_len e = length bytes" "length bytes < SMALL_ENTRY_BYTES"
    and fit: "next_offset b + payload_disk_bytes (length bytes) \<le> CHUNK_BYTES" and P: "P (write_key e) (write_payload_checksum e) bytes"
  shows "buffer_packed P (push_entry (next_offset b) bytes e b)"
    and "next_offset (push_entry (next_offset b) bytes e b) = next_offset b + payload_disk_bytes (length bytes)"
proof -
  let ?n = "next_offset b" and ?es = "buffered_entries b"
  have al: "length bytes \<le> payload_disk_bytes (length bytes)" using aligned_len [OF small_len [OF len(2)]] by blast
  have B: "length (buffer b) = CHUNK_BYTES" "consecutive 0 ?es" "\<forall>e \<in> set ?es. write_payload_len e < SMALL_ENTRY_BYTES \<and>
      P (write_key e) (write_payload_checksum e) (entry_bytes (buffer b) e)" using b by (simp_all add: buffer_packed_def)
  have room: "?n + length bytes \<le> CHUNK_BYTES" using fit al by linarith
  have old: "entry_bytes (copy_into ?n bytes (buffer b)) e' = entry_bytes (buffer b) e'" if e': "e' \<in> set ?es" for e'
  proof -
    have "buffer_offset e' + write_payload_len e' \<le> ?n"
      using consecutive_bounds [OF B(2) e'] next_offset_blocks [OF B(2)] aligned_len [OF small_len, of "write_payload_len e'"] B(3) e' by fastforce
    then show ?thesis using room B(1) by (simp add: entry_bytes_def slice_copy_into_before)
  qed
  show "next_offset (push_entry ?n bytes e b) = ?n + payload_disk_bytes (length bytes)"
    by (simp add: next_offset_push len(1))
  then show "buffer_packed P (push_entry ?n bytes e b)"
    using fit B old room P len
    by (auto simp: buffer_packed_def push_entry_def consecutive_append next_offset_def [of b] entry_bytes_def slice_copy_into_same)
qed

subsection \<open>Flushes and writes keep the shard consistent\<close>

definition file_room :: "nat \<Rightarrow> nat \<Rightarrow> data_file \<Rightarrow> bool" where
  "file_room lo hi f \<longleftrightarrow> lo < hi \<and> hi * CHUNK_BYTES \<le> capacity f \<and> capacity f \<le> i64_max"

definition shard_good :: "bool \<Rightarrow> nat \<Rightarrow> nat \<Rightarrow> rng multiset \<Rightarrow> (object_key_hash \<Rightarrow> u64 \<Rightarrow> byte list \<Rightarrow> bool) \<Rightarrow> data_file \<Rightarrow> disk_cache_shard \<Rightarrow> bool" where
  "shard_good ex lo hi live P f sh \<longleftrightarrow> shard_ok ex lo hi live sh \<and> buffer_ok P (small_entry_buffer sh) \<and> payloads_ok P f sh"

text \<open>The write attempts that have ended or wait in the buffer.\<close>

definition attempts :: "shard_state \<Rightarrow> nat" where
  "attempts s = finished_attempts (fst s) + length (buffered_entries (small_entry_buffer (snd s)))"

text \<open>What every operation of a shard keeps, with the number of write attempts that it starts.\<close>

definition keeps :: "nat \<Rightarrow> nat \<Rightarrow> nat \<Rightarrow> data_file \<times> shard_state \<Rightarrow> data_file \<times> shard_state \<Rightarrow> bool" where
  "keeps n lo hi a b \<longleftrightarrow> capacity (fst b) = capacity (fst a) \<and> outside_unchanged lo hi (fst a) (fst b) \<and>
    attempts (snd b) = attempts (snd a) + n \<and> gauge_gap (fst (snd b)) (snd (snd b)) = gauge_gap (fst (snd a)) (snd (snd a))"

lemma keeps_refl [simp]: "keeps 0 lo hi a a"
  by (simp add: keeps_def outside_unchanged_def)

lemma keeps_trans: "keeps m lo hi a b \<Longrightarrow> keeps n lo hi b c \<Longrightarrow> keeps (m + n) lo hi a c"
  by (simp add: keeps_def outside_unchanged_def)

lemma file_room_keeps: "keeps n lo hi (f, s) (f', s') \<Longrightarrow> file_room lo hi f \<Longrightarrow> file_room lo hi f'"
  by (simp add: keeps_def file_room_def)

lemma shard_ok_buffer [simp]: "shard_ok ex lo hi live (sh\<lparr>small_entry_buffer := b\<rparr>) = shard_ok ex lo hi live sh"
proof -
  have "head_ok lo live (sh\<lparr>small_entry_buffer := b\<rparr>) = head_ok lo live sh" by (simp add: head_ok_def split: list.splits)
  then show ?thesis by (simp add: shard_ok_def shard_inv_def shard_core_def holds_exact_def)
qed

lemma entry_metas_buffer [simp]: "entry_metas (sh\<lparr>small_entry_buffer := b\<rparr>) = entry_metas sh"
  by (simp add: entry_metas_def [abs_def])

lemma payloads_ok_buffer [simp]: "payloads_ok P f (sh\<lparr>small_entry_buffer := b\<rparr>) = payloads_ok P f sh"
  by (simp add: payloads_ok_def)

lemma gauge_gap_buffer [simp]: "gauge_gap dm (sh\<lparr>small_entry_buffer := b\<rparr>) = gauge_gap dm sh"
  by (simp add: gauge_gap_def)

lemma write_payload_keeps:
  assumes ok: "shard_ok ex lo hi live sh" "payloads_ok P f sh" and room: "file_room lo hi f"
    and es: "es \<noteq> []" "length es \<le> ENTRIES_PER_METADATA_CHUNK" "\<forall>e \<in> set es. fits_buffer bytes e"
    and P: "\<forall>e \<in> set es. P (write_key e) (write_payload_checksum e) (entry_bytes bytes e)"
  shows "\<exists>f' dm' sh' res. write_payload score sample_size oc bytes es (f, (dm, sh)) = Some (f', (dm', sh'), res)
    \<and> shard_ok ex lo hi live sh' \<and> payloads_ok P f' sh' \<and> small_entry_buffer sh' = small_entry_buffer sh
    \<and> keeps (length es) lo hi (f, (dm, sh)) (f', (dm', sh'))"
proof -
  have r: "lo < hi" "hi * CHUNK_BYTES \<le> capacity f" "capacity f \<le> i64_max" using room by (simp_all add: file_room_def)
  from write_payload_ok [OF ok(1) r es, of score sample_size oc dm] obtain f' dm' sh' res where
    w: "write_payload score sample_size oc bytes es (f, (dm, sh)) = Some (f', (dm', sh'), res)" "shard_ok ex lo hi live sh'"
      "finished_attempts dm' = finished_attempts dm + length es" "gauge_gap dm' sh' = gauge_gap dm sh" "capacity f' = capacity f"
      "small_entry_buffer sh' = small_entry_buffer sh" "outside_unchanged lo hi f f'" "kept_or_written bytes es (f, sh) (f', sh')" by blast
  then show ?thesis using kept_or_written_payloads [OF w(8) ok(2) P] by (simp add: keeps_def attempts_def)
qed

lemma flush_buffer_ok:
  assumes ok: "shard_ok ex lo hi live sh" "payloads_ok P f sh" "buffer_packed P (small_entry_buffer sh)" and room: "file_room lo hi f"
  shows "\<exists>f' dm' sh' res. flush_buffer score sample_size oc (f, (dm, sh)) = Some (f', (dm', sh'), res)
    \<and> shard_good ex lo hi live P f' sh' \<and> keeps 0 lo hi (f, (dm, sh)) (f', (dm', sh')) \<and> next_offset (small_entry_buffer sh') = 0"
proof (cases "buffered_entries (small_entry_buffer sh) = []")
  case True
  then have "flush_buffer score sample_size oc (f, (dm, sh)) = Some (f, (dm, sh), Inr 0)" "next_offset (small_entry_buffer sh) = 0"
    by (simp_all add: flush_buffer_def next_offset_def last_opt_def)
  then show ?thesis using ok by (auto simp: shard_good_def buffer_ok_def CHUNK_BYTES_def)
next
  case False
  let ?b = "small_entry_buffer sh" and ?sh = "sh\<lparr>small_entry_buffer := new_small_entry_buffer\<rparr>"
  note F = buffer_packed_fits [OF ok(3)]
  have "\<forall>e \<in> set (buffered_entries ?b). P (write_key e) (write_payload_checksum e) (entry_bytes (buffer ?b) e)" using ok(3) by (simp add: buffer_packed_def)
  from write_payload_keeps [of ex lo hi live ?sh P f, OF _ _ room False F(2,1) this, of score sample_size oc dm] ok(1,2)
  obtain f' dm' sh' res where w: "write_payload score sample_size oc (buffer ?b) (buffered_entries ?b) (f, (dm, ?sh)) = Some (f', (dm', sh'), res)"
    and S: "shard_ok ex lo hi live sh'" "payloads_ok P f' sh'" "small_entry_buffer sh' = new_small_entry_buffer"
      "keeps (length (buffered_entries ?b)) lo hi (f, (dm, ?sh)) (f', (dm', sh'))" by auto
  moreover have "flush_buffer score sample_size oc (f, (dm, sh)) = Some (f', (dm', sh'), res)" using w False by (simp add: flush_buffer_def)
  moreover have "keeps 0 lo hi (f, (dm, sh)) (f', (dm', sh'))" using S(3,4) by (simp add: keeps_def attempts_def new_small_entry_buffer_def)
  moreover have "next_offset new_small_entry_buffer = 0" by (simp add: next_offset_def new_small_entry_buffer_def last_opt_def)
  ultimately show ?thesis by (simp add: shard_good_def)
qed

lemma drop_write_entry_counts:
  "finished_attempts (drop_write_entry e dm) = finished_attempts dm + 1" "gauge_gap (drop_write_entry e dm) sh = gauge_gap dm sh"
proof -
  have "finished_attempts (drop_completion g dm') = finished_attempts dm'" for g dm' by (simp add: finished_attempts_def drop_completion_gauges)
  then show "finished_attempts (drop_write_entry e dm) = finished_attempts dm + 1" by (simp add: drop_write_entry_def finished_attempts_drop)
  show "gauge_gap (drop_write_entry e dm) sh = gauge_gap dm sh"
    by (simp add: gauge_gap_def drop_write_entry_def drop_completion_gauges drop_disk_write_attempt_def Let_def)
qed

lemma attempt_counts:
  "finished_attempts (drop_completion g (drop_disk_write_attempt a dm)) = finished_attempts dm + 1"
  "gauge_gap (drop_completion g (drop_disk_write_attempt a dm)) sh = gauge_gap dm sh"
  using drop_write_entry_counts [of "\<lparr>write_key = k, write_payload_len = 0, write_payload_checksum = 0, buffer_offset = 0,
    attempt = a, completion_guard = g\<rparr>" for k] by (simp_all add: drop_write_entry_def)

text \<open>The entry goes behind the entries of the buffer, after a flush if there is no room.\<close>

lemma buffer_write_ok:
  assumes ok: "shard_good ex lo hi live P f sh" and room: "file_room lo hi f"
    and e: "write_payload_len e = length bytes" "payload_disk_bytes (length bytes) < SMALL_ENTRY_BYTES" "length bytes + 4096 \<le> u64_limit"
    and P: "P (write_key e) (write_payload_checksum e) bytes"
  shows "\<exists>f' dm' sh' res. buffer_write score sample_size ocs bytes e (f, (dm, sh)) = Some (f', (dm', sh'), res)
    \<and> shard_good ex lo hi live P f' sh' \<and> keeps 1 lo hi (f, (dm, sh)) (f', (dm', sh'))"
proof -
  let ?len = "payload_disk_bytes (length bytes)" and ?off = "next_offset (small_entry_buffer sh)"
  have len: "length bytes < SMALL_ENTRY_BYTES" using aligned_len [OF e(3)] e(2) by linarith
  have fit0: "?len \<le> CHUNK_BYTES" using e(2) by (simp add: SMALL_ENTRY_BYTES_def CHUNK_BYTES_def)
  define flushed where "flushed = (if ?off + ?len > CHUNK_BYTES
    then map_option (\<lambda>(f, s, r). (f, s, r, 0)) (flush_buffer score sample_size (ocs 0) (f, (dm, sh))) else Some (f, (dm, sh), Inr 0, ?off))"
  have "\<exists>f1 dm1 sh1 r off. flushed = Some (f1, (dm1, sh1), r, off) \<and> shard_good ex lo hi live P f1 sh1 \<and> keeps 0 lo hi (f, (dm, sh)) (f1, (dm1, sh1))
      \<and> off = next_offset (small_entry_buffer sh1) \<and> off + ?len \<le> CHUNK_BYTES"
  proof (cases "?off + ?len > CHUNK_BYTES")
    case True
    then show ?thesis using flush_buffer_ok [of ex lo hi live sh P f score sample_size "ocs 0" dm] ok room fit0
      by (auto simp: flushed_def shard_good_def buffer_ok_def)
  next
    case False
    then show ?thesis using ok by (simp add: flushed_def)
  qed
  then obtain f1 dm1 sh1 r off where fl: "flushed = Some (f1, (dm1, sh1), r, off)" and good1: "shard_good ex lo hi live P f1 sh1"
    and keeps1: "keeps 0 lo hi (f, (dm, sh)) (f1, (dm1, sh1))" and off: "off = next_offset (small_entry_buffer sh1)" "off + ?len \<le> CHUNK_BYTES" by blast
  note unfold = buffer_write_def [of score sample_size ocs bytes e "(f, (dm, sh))", unfolded Let_def fst_conv snd_conv, folded flushed_def, unfolded fl]
  show ?thesis
  proof (cases r)
    case (Inl err)
    have "keeps 1 lo hi (f, (dm, sh)) (f1, (drop_write_entry e dm1, sh1))" using keeps1 by (simp add: keeps_def attempts_def drop_write_entry_counts)
    then show ?thesis using good1 Inl by (simp add: unfold)
  next
    case (Inr n)
    let ?b = "push_entry off bytes e (small_entry_buffer sh1)" and ?sh2 = "sh1\<lparr>small_entry_buffer := push_entry off bytes e (small_entry_buffer sh1)\<rparr>"
    have packed: "buffer_packed P (small_entry_buffer sh1)" using good1 by (simp add: shard_good_def buffer_ok_def)
    note push = buffer_packed_push [of P "small_entry_buffer sh1", OF packed e(1) len, folded off(1), OF off(2) P]
    have keeps2: "keeps 1 lo hi (f, (dm, sh)) (f1, (dm1, ?sh2))" using keeps1 by (simp add: keeps_def attempts_def push_entry_def)
    show ?thesis
    proof (cases "off + ?len = CHUNK_BYTES")
      case False
      then have "shard_good ex lo hi live P f1 ?sh2" using good1 push off(2) by (simp add: shard_good_def buffer_ok_def)
      then show ?thesis using keeps2 Inr False by (simp add: unfold)
    next
      case True
      have "shard_ok ex lo hi live ?sh2" "payloads_ok P f1 ?sh2" "buffer_packed P (small_entry_buffer ?sh2)"
        using good1 push(1) by (simp_all add: shard_good_def)
      from flush_buffer_ok [OF this file_room_keeps [OF keeps1 room], of score sample_size "ocs 1" dm1] obtain f' dm' sh' res where
        fb: "flush_buffer score sample_size (ocs 1) (f1, (dm1, ?sh2)) = Some (f', (dm', sh'), res)" "shard_good ex lo hi live P f' sh'"
        "keeps 0 lo hi (f1, (dm1, ?sh2)) (f', (dm', sh'))" by blast
      then show ?thesis using keeps_trans [OF keeps2 fb(3)] Inr True by (simp add: unfold)
    qed
  qed
qed

lemma div_ceil_aligned:
  assumes "0 < len" and "len + 4096 \<le> u64_limit"
  shows "div_ceil (payload_disk_bytes len) CHUNK_BYTES = div_ceil len CHUNK_BYTES"
proof (rule antisym)
  have pos: "0 < CHUNK_BYTES" by (simp add: CHUNK_BYTES_def)
  have "4096 dvd div_ceil len CHUNK_BYTES * CHUNK_BYTES" by (simp add: CHUNK_BYTES_def)
  then have "next_multiple_of len 4096 \<le> div_ceil len CHUNK_BYTES * CHUNK_BYTES" using div_ceil_mult [OF pos] by (intro next_multiple_of_least) auto
  then show "div_ceil (payload_disk_bytes len) CHUNK_BYTES \<le> div_ceil len CHUNK_BYTES"
    using payload_disk_bytes_no_wrap [OF assms(2)] max_absorb1 [of 1 len] assms(1) by (simp add: div_ceil_le_iff [OF pos])
  have "len \<le> div_ceil (payload_disk_bytes len) CHUNK_BYTES * CHUNK_BYTES"
    using aligned_len [OF assms(2)] div_ceil_mult [OF pos, of "payload_disk_bytes len"] by linarith
  then show "div_ceil len CHUNK_BYTES \<le> div_ceil (payload_disk_bytes len) CHUNK_BYTES" by (simp add: div_ceil_le_iff [OF pos])
qed

lemma write_shard_ok:
  assumes ok: "shard_good ex lo hi live P f sh" and room: "file_room lo hi f" and len: "length bytes + 4096 \<le> u64_limit" and P: "P k (xxh bytes) bytes"
  shows "\<exists>f' dm' sh' res. write_shard score sample_size xxh unlocked ocs k bytes completion (f, (dm, sh)) = Some (f', (dm', sh'), res)
    \<and> shard_good ex lo hi live P f' sh' \<and> keeps 1 lo hi (f, (dm, sh)) (f', (dm', sh'))"
proof (cases "contains_key unlocked k sh")
  case True
  let ?dm = "drop_completion completion (drop_disk_write_attempt (new_disk_write_attempt\<lparr>outcome := AlreadyCovered\<rparr>) dm)"
  have "write_shard score sample_size xxh unlocked ocs k bytes completion (f, (dm, sh)) = Some (f, (?dm, sh), Inr 0)"
    using True by (simp add: write_shard_def)
  moreover have "keeps 1 lo hi (f, (dm, sh)) (f, (?dm, sh))"
    by (simp add: keeps_def attempts_def outside_unchanged_def attempt_counts)
  ultimately show ?thesis using ok by blast
next
  case False
  let ?e = "\<lparr>write_key = k, write_payload_len = length bytes, write_payload_checksum = xxh bytes,
    buffer_offset = 0, attempt = new_disk_write_attempt, completion_guard = completion\<rparr>"
  show ?thesis
  proof (cases "payload_disk_bytes (length bytes) \<ge> SMALL_ENTRY_BYTES")
    case True
    have "0 < length bytes"
    proof (rule ccontr)
      assume "\<not> 0 < length bytes"
      then have "payload_disk_bytes (length bytes) = 4096" using payload_disk_bytes_no_wrap [OF len] by (simp add: next_multiple_of_def)
      then show False using True by (simp add: SMALL_ENTRY_BYTES_def)
    qed
    then have al: "div_ceil (payload_disk_bytes (length bytes)) CHUNK_BYTES = div_ceil (length bytes) CHUNK_BYTES" using len by (rule div_ceil_aligned)
    have "0 < CHUNK_BYTES" by (simp add: CHUNK_BYTES_def)
    then have fit: "\<forall>e \<in> set [?e]. fits_buffer bytes e" using al by (simp add: fits_buffer_def)
    have Pe: "\<forall>e \<in> set [?e]. P (write_key e) (write_payload_checksum e) (entry_bytes bytes e)" using P by (simp add: entry_bytes_def slice_all)
    have "length [?e] \<le> ENTRIES_PER_METADATA_CHUNK" by (simp add: page_const_values)
    moreover have "shard_ok ex lo hi live sh" "payloads_ok P f sh" using ok by (simp_all add: shard_good_def)
    ultimately obtain f' dm' sh' res where w: "write_payload score sample_size (ocs 0) bytes [?e] (f, (dm, sh)) = Some (f', (dm', sh'), res)"
      and S: "shard_ok ex lo hi live sh'" "payloads_ok P f' sh'" "small_entry_buffer sh' = small_entry_buffer sh"
        "keeps (length [?e]) lo hi (f, (dm, sh)) (f', (dm', sh'))"
      using write_payload_keeps [OF _ _ room _ _ fit Pe, of ex live sh score sample_size "ocs 0" dm] by blast
    have "write_shard score sample_size xxh unlocked ocs k bytes completion (f, (dm, sh)) = Some (f', (dm', sh'), res)"
      using False True w by (simp add: write_shard_def Let_def)
    moreover have "shard_good ex lo hi live P f' sh'" using S(1-3) ok by (simp add: shard_good_def)
    ultimately show ?thesis using S(4) by auto
  next
    case small: False
    then have "write_shard score sample_size xxh unlocked ocs k bytes completion (f, (dm, sh)) = buffer_write score sample_size ocs bytes ?e (f, (dm, sh))"
      using False by (simp add: write_shard_def Let_def)
    then show ?thesis using buffer_write_ok [OF ok room, of ?e bytes score sample_size ocs dm] small len P by simp
  qed
qed

end
