(* ===== verification/Header.thy ===== *)
theory Header
  imports Recovery
begin

text \<open>
  The file header of \<open>feuer-storage/src/disk_cache/header.rs\<close>. Opening a file whose header does not
  match clears the start of every shard's metadata chain before it writes a new header. The I/O of
  \<open>clear_incompatible_metadata\<close> is sequential; the \<open>n\<close>-th operation has the outcome \<open>ocs n\<close>.
\<close>

definition HEADER_BYTES :: nat where
  "HEADER_BYTES = 4096"

text \<open>\<open>b"FEUHDR15"\<close>.\<close>

definition FORMAT_TAG :: "byte list" where
  "FORMAT_TAG = [70, 69, 85, 72, 68, 82, 49, 53]"

definition header_matches :: "(byte list \<Rightarrow> u64) \<Rightarrow> u64 \<Rightarrow> nat \<Rightarrow> byte list \<Rightarrow> bool" where
  "header_matches xxh payload_version cap header \<longleftrightarrow>
    slice 8 16 header = FORMAT_TAG \<and> slice 16 24 header = u64_to_le_bytes payload_version \<and>
    slice 24 32 header = u64_to_le_bytes (of_nat cap) \<and>
    take 8 header = u64_to_le_bytes (xxh (drop 8 header))"

definition encode_header :: "(byte list \<Rightarrow> u64) \<Rightarrow> u64 \<Rightarrow> nat \<Rightarrow> byte list" where
  "encode_header xxh payload_version cap =
    (let h0 = replicate HEADER_BYTES 0;
         h1 = copy_into 8 FORMAT_TAG h0;
         h2 = copy_into 16 (u64_to_le_bytes payload_version) h1;
         h3 = copy_into 24 (u64_to_le_bytes (of_nat cap)) h2
     in copy_into 0 (u64_to_le_bytes (xxh (drop 8 h3))) h3)"

fun clear_chains :: "(nat \<Rightarrow> io_outcome) \<Rightarrow> nat list \<Rightarrow> data_file \<Rightarrow> (data_file \<times> unit data_file_result) option" where
  "clear_chains ocs [] f = Some (f, Inr ())"
| "clear_chains ocs (start # starts) f =
    (case write_at (ocs 0) start (replicate CHUNK_BYTES 0) f of
       None \<Rightarrow> None
     | Some (f1, Inl e) \<Rightarrow> Some (f1, Inl e)
     | Some (f1, Inr _) \<Rightarrow> clear_chains (\<lambda>n. ocs (Suc n)) starts f1)"

definition chain_starts :: "nat \<Rightarrow> nat \<Rightarrow> nat list" where
  "chain_starts cap num_shards = map (\<lambda>i. fst (shard_disk_range cap num_shards i)) [0..<num_shards]"

definition clear_incompatible_metadata ::
  "(byte list \<Rightarrow> u64) \<Rightarrow> (nat \<Rightarrow> io_outcome) \<Rightarrow> u64 \<Rightarrow> nat \<Rightarrow> data_file
    \<Rightarrow> (data_file \<times> unit data_file_result) option" where
  "clear_incompatible_metadata xxh ocs payload_version num_shards f =
    (case read_at (ocs 0) 0 HEADER_BYTES f of
       (f1, Inl e) \<Rightarrow> Some (f1, Inl e)
     | (f1, Inr header) \<Rightarrow>
         if header_matches xxh payload_version (capacity f1) header then Some (f1, Inr ())
         else
           (case clear_chains (\<lambda>n. ocs (Suc n)) (chain_starts (capacity f1) num_shards) f1 of
              None \<Rightarrow> None
            | Some (f2, Inl e) \<Rightarrow> Some (f2, Inl e)
            | Some (f2, Inr _) \<Rightarrow>
                (case sync_all (ocs (num_shards + 1)) f2 of
                   Inl e \<Rightarrow> Some (f2, Inl e)
                 | Inr _ \<Rightarrow>
                     (case write_at (ocs (num_shards + 2)) 0 (encode_header xxh payload_version (capacity f2)) f2 of
                        None \<Rightarrow> None
                      | Some (f3, Inl e) \<Rightarrow> Some (f3, Inl e)
                      | Some (f3, Inr _) \<Rightarrow> Some (f3, sync_all (ocs (num_shards + 3)) f3)))))"

subsection \<open>The header round trip\<close>

lemma encode_header_shape:
  "length (encode_header xxh v cap) = HEADER_BYTES" "header_matches xxh v cap (encode_header xxh v cap)"
proof -
  define z where "z = (replicate HEADER_BYTES 0 :: byte list)"
  define h1 where "h1 = copy_into 8 FORMAT_TAG z"
  define h2 where "h2 = copy_into 16 (u64_to_le_bytes v) h1"
  define h3 where "h3 = copy_into 24 (u64_to_le_bytes (of_nat cap)) h2"
  define h where "h = encode_header xxh v cap"
  have h: "h = copy_into 0 (u64_to_le_bytes (xxh (drop 8 h3))) h3"
    by (simp add: h_def encode_header_def h3_def h2_def h1_def z_def Let_def)
  have tag: "length FORMAT_TAG = 8" by (simp add: FORMAT_TAG_def)
  have lz: "length z = 4096" by (simp add: z_def HEADER_BYTES_def)
  have l1: "length h1 = 4096" using lz tag by (simp add: h1_def)
  have l2: "length h2 = 4096" using l1 by (simp add: h2_def)
  have l3: "length h3 = 4096" using l2 by (simp add: h3_def)
  have lh: "length h = 4096" using l3 by (simp add: h)
  have after: "slice a b h = slice a b h3" if "8 \<le> a" "b \<le> 4096" for a b
    using that l3 by (simp add: h slice_simps)
  have "slice 24 32 h = u64_to_le_bytes (of_nat cap)" using l2 by (simp add: after h3_def slice_simps)
  moreover have "slice 16 24 h = u64_to_le_bytes v" using l1 l2 by (simp add: after h3_def h2_def slice_simps)
  moreover have "slice 8 16 h = FORMAT_TAG" using lz l1 l2 tag by (simp add: after h3_def h2_def h1_def slice_simps)
  moreover have "drop 8 h = drop 8 h3" using after [of 8 4096] lh l3 by (simp add: drop_as_slice)
  moreover have "take 8 h = u64_to_le_bytes (xxh (drop 8 h3))" using l3 by (simp add: h take_as_slice slice_simps)
  ultimately show "header_matches xxh v cap (encode_header xxh v cap)" by (simp add: header_matches_def h_def)
  show "length (encode_header xxh v cap) = HEADER_BYTES" using lh by (simp add: h_def HEADER_BYTES_def)
qed

text \<open>A header matches one version only.\<close>

lemma header_version_unique:
  "header_matches xxh v cap h \<Longrightarrow> header_matches xxh v' cap' h \<Longrightarrow> v = v'"
  unfolding header_matches_def by (metis u64_to_le_bytes_inject)

subsection \<open>Clearing\<close>

definition cleared :: "image \<Rightarrow> nat \<Rightarrow> bool" where
  "cleared im start \<longleftrightarrow> disk_read start CHUNK_BYTES im = replicate CHUNK_BYTES 0"

definition file_header :: "data_file \<Rightarrow> byte list" where
  "file_header f = disk_read 0 HEADER_BYTES (image f)"

lemma write_at_frame:
  assumes "write_at oc p bytes f = Some (f', r)" and "q + n \<le> p \<or> p + length bytes \<le> q"
  shows "disk_read q n (image f') = disk_read q n (image f)"
proof -
  from assms(1) have w: "write_padded oc p (length bytes) bytes f = (f', r)" by (auto simp: write_at_def split: if_splits)
  have "image f' i = image f i" if "i < p \<or> p + length bytes \<le> i" for i by (rule write_padded_frame [OF w that])
  then show ?thesis using assms(2) by (auto simp: disk_read_def)
qed

lemma write_at_fields:
  assumes "write_at oc p bytes f = Some (f', r)"
  shows "capacity f' = capacity f" and "r = Inr () \<Longrightarrow> disk_read p (length bytes) (image f') = bytes"
proof -
  from assms have w: "write_padded oc p (length bytes) bytes f = (f', r)" by (auto simp: write_at_def split: if_splits)
  then show "capacity f' = capacity f"
    by (auto simp: write_padded_def measure_io_def Let_def split: sum.splits io_outcome.splits)
  show "disk_read p (length bytes) (image f') = bytes" if "r = Inr ()"
    using write_padded_ok(1) [OF w [unfolded that]] img.rd_wr_same [of p bytes] by simp
qed

lemma multiples_apart:
  assumes "b dvd p" and "b dvd q" and "p \<noteq> (q :: nat)"
  shows "p + b \<le> q \<or> q + b \<le> p"
proof -
  obtain x y where xy: "p = b * x" "q = b * y" using assms(1,2) by blast
  then have "Suc x \<le> y \<or> Suc y \<le> x" using assms(3) by (metis Suc_leI linorder_neqE_nat)
  then have "b * Suc x \<le> b * y \<or> b * Suc y \<le> b * x" by (meson mult_le_mono2)
  then show ?thesis using xy by (simp add: add.commute)
qed

text \<open>Clearing never panics and leaves the header alone; when it succeeds every start is cleared.\<close>

lemma clear_chains_ok:
  assumes "\<forall>p \<in> set starts. CHUNK_BYTES dvd p \<and> CHUNK_BYTES \<le> p"
  shows "\<exists>f' r. clear_chains ocs starts f = Some (f', r) \<and> capacity f' = capacity f \<and> file_header f' = file_header f \<and>
    (\<forall>p. CHUNK_BYTES dvd p \<longrightarrow> cleared (image f) p \<longrightarrow> r = Inr () \<longrightarrow> cleared (image f') p) \<and>
    (r = Inr () \<longrightarrow> (\<forall>p \<in> set starts. cleared (image f') p))"
  using assms
proof (induction starts arbitrary: ocs f)
  case (Cons p starts)
  let ?z = "replicate CHUNK_BYTES (0 :: byte)"
  have p: "CHUNK_BYTES dvd p" "CHUNK_BYTES \<le> p" using Cons.prems by auto
  have "p mod DIRECT_IO_ALIGNMENT_BYTES = 0" "length ?z mod DIRECT_IO_ALIGNMENT_BYTES = 0"
    using p(1) by (auto simp: CHUNK_BYTES_def DIRECT_IO_ALIGNMENT_BYTES_def length_replicate)
  then have "write_at (ocs 0) p ?z f = Some (write_padded (ocs 0) p (length ?z) ?z f)" by (simp add: write_at_def)
  then obtain f1 r1 where w: "write_at (ocs 0) p ?z f = Some (f1, r1)" by (metis surj_pair)
  note F = write_at_fields [OF w]
  have hdr: "file_header f1 = file_header f"
    unfolding file_header_def by (rule write_at_frame [OF w]) (use p(2) in \<open>simp add: HEADER_BYTES_def CHUNK_BYTES_def\<close>)
  have keep: "cleared (image f1) q" if q: "CHUNK_BYTES dvd q" "cleared (image f) q" "r1 = Inr ()" for q
  proof (cases "q = p")
    case True
    then show ?thesis using F(2) q(3) by (simp add: cleared_def)
  next
    case False
    then have "q + CHUNK_BYTES \<le> p \<or> p + length ?z \<le> q" using multiples_apart [OF q(1) p(1)] by simp
    from write_at_frame [OF w this] show ?thesis using q(2) by (simp add: cleared_def)
  qed
  show ?case
  proof (cases r1)
    case (Inl e)
    then show ?thesis using w F(1) hdr by auto
  next
    case (Inr u)
    then have c: "cleared (image f1) p" using F(2) by (simp add: cleared_def)
    from Cons.IH [of "\<lambda>n. ocs (Suc n)" f1] Cons.prems obtain f' r where
      "clear_chains (\<lambda>n. ocs (Suc n)) starts f1 = Some (f', r)" "capacity f' = capacity f1" "file_header f' = file_header f1"
      and K: "\<forall>p. CHUNK_BYTES dvd p \<longrightarrow> cleared (image f1) p \<longrightarrow> r = Inr () \<longrightarrow> cleared (image f') p"
        "r = Inr () \<longrightarrow> (\<forall>p \<in> set starts. cleared (image f') p)" by auto
    then show ?thesis using w Inr F(1) hdr keep c p(1) by auto
  qed
qed simp

lemma chain_starts_aligned:
  "\<forall>p \<in> set (chain_starts cap n). CHUNK_BYTES dvd p \<and> CHUNK_BYTES \<le> p"
  by (auto simp: chain_starts_def shard_disk_range_def Let_def)

lemma read_header:
  assumes "read_at oc 0 HEADER_BYTES f = (f', r)"
  shows "image f' = image f" and "capacity f' = capacity f" and "r = Inr bytes \<Longrightarrow> bytes = file_header f"
proof -
  show "image f' = image f" and "capacity f' = capacity f" using assms by (auto simp: read_at_def measure_io_def)
  have u: "HEADER_BYTES mod u64_limit = HEADER_BYTES" "payload_disk_bytes HEADER_BYTES = HEADER_BYTES"
    by (simp_all add: HEADER_BYTES_def u64_limit_def payload_disk_bytes_def next_multiple_of_def DIRECT_IO_ALIGNMENT_BYTES_def)
  have len: "length (disk_read 0 HEADER_BYTES im) = HEADER_BYTES" for im by (simp add: disk_read_def)
  show "bytes = file_header f" if "r = Inr bytes"
    using assms that u len unfolding file_header_def
    by (auto simp: read_at_def measure_io_def read_slice_def queue_read_def slice_def Let_def
        split: sum.splits io_outcome.splits if_splits)
qed

lemma clear_incompatible_metadata_ok:
  shows "\<exists>f' r. clear_incompatible_metadata xxh ocs v num_shards f = Some (f', r) \<and> capacity f' = capacity f \<and>
    (r = Inr () \<longrightarrow> header_matches xxh v (capacity f) (file_header f')) \<and>
    (header_matches xxh v (capacity f) (file_header f') \<longrightarrow>
      image f' = image f \<or> (\<forall>i < num_shards. cleared (image f') (fst (shard_disk_range (capacity f) num_shards i))))"
proof -
  let ?cap = "capacity f" and ?starts = "chain_starts (capacity f) num_shards"
  obtain f1 rd where rd: "read_at (ocs 0) 0 HEADER_BYTES f = (f1, rd)" by fastforce
  note R = read_header [OF rd]
  show ?thesis
  proof (cases "\<exists>h. rd = Inr h \<and> \<not> header_matches xxh v ?cap h")
    case False
    then have "clear_incompatible_metadata xxh ocs v num_shards f = Some (f1, case rd of Inl e \<Rightarrow> Inl e | Inr _ \<Rightarrow> Inr ())"
      using rd R(2) by (auto simp: clear_incompatible_metadata_def split: sum.splits)
    then show ?thesis using False R by (auto simp: file_header_def split: sum.splits)
  next
    case True
    then obtain h where h: "rd = Inr h" "\<not> header_matches xxh v ?cap h" by blast
    then have old: "\<not> header_matches xxh v ?cap (file_header f1)" using R(1,3) by (simp add: file_header_def)
    from clear_chains_ok [OF chain_starts_aligned, of "\<lambda>n. ocs (Suc n)" ?cap num_shards f1] obtain f2 r2 where
      cl: "clear_chains (\<lambda>n. ocs (Suc n)) ?starts f1 = Some (f2, r2)" "capacity f2 = ?cap" "file_header f2 = file_header f1"
      and zeroed: "r2 = Inr () \<longrightarrow> (\<forall>p \<in> set ?starts. cleared (image f2) p)" using R(2) by auto
    have nomatch: "\<not> header_matches xxh v ?cap (file_header f2)" using old cl(3) by simp
    have step: "clear_incompatible_metadata xxh ocs v num_shards f = (case r2 of Inl e \<Rightarrow> Some (f2, Inl e) | Inr _ \<Rightarrow>
        (case sync_all (ocs (num_shards + 1)) f2 of Inl e \<Rightarrow> Some (f2, Inl e) | Inr _ \<Rightarrow>
          (case write_at (ocs (num_shards + 2)) 0 (encode_header xxh v ?cap) f2 of
             None \<Rightarrow> None | Some (f3, Inl e) \<Rightarrow> Some (f3, Inl e)
           | Some (f3, Inr _) \<Rightarrow> Some (f3, sync_all (ocs (num_shards + 3)) f3))))"
      using rd h R(2) cl(1,2) by (simp add: clear_incompatible_metadata_def split: sum.splits)
    show ?thesis
    proof (cases "r2 = Inr () \<and> sync_all (ocs (num_shards + 1)) f2 = Inr ()")
      case False
      then have "\<exists>e. clear_incompatible_metadata xxh ocs v num_shards f = Some (f2, Inl e)"
        using step by (auto split: sum.splits)
      then show ?thesis using nomatch cl(2) by auto
    next
      case synced: True
      have "(0 :: nat) mod DIRECT_IO_ALIGNMENT_BYTES = 0" "length (encode_header xxh v ?cap) mod DIRECT_IO_ALIGNMENT_BYTES = 0"
        by (simp_all add: encode_header_shape(1) HEADER_BYTES_def DIRECT_IO_ALIGNMENT_BYTES_def)
      then have "write_at (ocs (num_shards + 2)) 0 (encode_header xxh v ?cap) f2
          = Some (write_padded (ocs (num_shards + 2)) 0 (length (encode_header xxh v ?cap)) (encode_header xxh v ?cap) f2)"
        by (simp add: write_at_def)
      then obtain f3 r3 where w: "write_at (ocs (num_shards + 2)) 0 (encode_header xxh v ?cap) f2 = Some (f3, r3)"
        by (metis surj_pair)
      note W = write_at_fields [OF w]
      have "cleared (image f3) p" if "p \<in> set ?starts" for p
        using zeroed synced that write_at_frame [OF w, of p CHUNK_BYTES] chain_starts_aligned [of ?cap num_shards]
        by (auto simp: cleared_def encode_header_shape(1) HEADER_BYTES_def CHUNK_BYTES_def)
      then have all: "\<forall>i < num_shards. cleared (image f3) (fst (shard_disk_range ?cap num_shards i))"
        by (simp add: chain_starts_def)
      have ok: "header_matches xxh v ?cap (file_header f3)" if "r3 = Inr ()"
        using W(2) [OF that] encode_header_shape [of xxh v ?cap] by (simp add: file_header_def)
      have "clear_incompatible_metadata xxh ocs v num_shards f
          = Some (f3, case r3 of Inl e \<Rightarrow> Inl e | Inr _ \<Rightarrow> sync_all (ocs (num_shards + 3)) f3)"
        using step synced w by (auto split: sum.splits)
      then show ?thesis using all ok W(1) cl(2) by (cases r3) auto
    qed
  qed
qed


subsection \<open>Without I/O errors the check succeeds\<close>

lemma clear_chains_succeeds:
  assumes "\<forall>n. \<exists>t. ocs n = IoOk t" and "\<forall>p \<in> set starts. CHUNK_BYTES dvd p \<and> p + CHUNK_BYTES \<le> capacity f"
    and "capacity f < u64_limit"
  shows "\<exists>f'. clear_chains ocs starts f = Some (f', Inr ()) \<and> capacity f' = capacity f"
  using assms
proof (induction starts arbitrary: ocs f)
  case (Cons p starts)
  let ?z = "replicate CHUNK_BYTES (0 :: byte)"
  obtain t where t: "ocs 0 = IoOk t" using Cons.prems(1) by blast
  have "p mod 4096 = 0" "length ?z mod 4096 = 0" "p + length ?z \<le> capacity f"
    using Cons.prems(2) by (auto simp: CHUNK_BYTES_def)
  from write_at_succeeds [OF this Cons.prems(3), of t] obtain f1 where w: "write_at (ocs 0) p ?z f = Some (f1, Inr ())"
    unfolding t by blast
  have c: "capacity f1 = capacity f" by (rule write_at_fields(1) [OF w])
  have o: "\<forall>n. \<exists>t. ocs (Suc n) = IoOk t" using Cons.prems(1) by blast
  have "\<exists>f'. clear_chains (\<lambda>n. ocs (Suc n)) starts f1 = Some (f', Inr ()) \<and> capacity f' = capacity f1"
    by (rule Cons.IH [OF o]) (use Cons.prems(2,3) c in simp_all)
  then show ?case using w c by simp
qed simp

lemma header_check_succeeds:
  assumes "\<forall>n. \<exists>t. ocs n = IoOk t" and "0 < num_shards" and "2 * CHUNK_BYTES \<le> capacity f" and "capacity f \<le> i64_max"
    and "num_shards \<le> capacity f div CHUNK_BYTES - 1"
  shows "\<exists>f'. clear_incompatible_metadata xxh ocs v num_shards f = Some (f', Inr ())"
proof -
  obtain t where t: "ocs 0 = IoOk t" using assms(1) by blast
  have big: "HEADER_BYTES \<le> capacity f" using assms(3) by (simp add: HEADER_BYTES_def CHUNK_BYTES_def)
  have u: "HEADER_BYTES mod u64_limit = HEADER_BYTES" "payload_disk_bytes HEADER_BYTES = HEADER_BYTES" "0 < HEADER_BYTES"
    "HEADER_BYTES < u64_limit"
    by (simp_all add: HEADER_BYTES_def u64_limit_def payload_disk_bytes_def next_multiple_of_def DIRECT_IO_ALIGNMENT_BYTES_def)
  obtain f1 h where rd: "read_at (ocs 0) 0 HEADER_BYTES f = (f1, Inr h)"
    using t big u by (simp add: read_at_def measure_io_def check_range_fits_file_def checked_add_def read_slice_def
        queue_read_def Let_def)
  have c1: "capacity f1 = capacity f" by (rule read_header(2) [OF rd])
  have lim: "capacity f1 < u64_limit" using assms(4) c1 by (simp add: i64_max_def u64_limit_def)
  show ?thesis
  proof (cases "header_matches xxh v (capacity f1) h")
    case True
    then show ?thesis using rd by (simp add: clear_incompatible_metadata_def)
  next
    case False
    have "p + CHUNK_BYTES \<le> capacity f1 \<and> CHUNK_BYTES dvd p" if "p \<in> set (chain_starts (capacity f1) num_shards)" for p
    proof -
      from that obtain i where i: "i < num_shards" "p = fst (shard_disk_range (capacity f) num_shards i)"
        by (auto simp: chain_starts_def c1)
      then show ?thesis
        using shard_range_nonempty [OF assms(2,5), of i] shard_range_bounds [OF assms(2,3) i(1)] c1 by simp
    qed
    then have "\<forall>p \<in> set (chain_starts (capacity f1) num_shards). CHUNK_BYTES dvd p \<and> p + CHUNK_BYTES \<le> capacity f1" by blast
    from clear_chains_succeeds [OF _ this lim, of "\<lambda>n. ocs (Suc n)"] assms(1) obtain f2 where
      cl: "clear_chains (\<lambda>n. ocs (Suc n)) (chain_starts (capacity f1) num_shards) f1 = Some (f2, Inr ())" "capacity f2 = capacity f1"
      by blast
    obtain t1 t2 t3 where ts: "ocs (num_shards + 1) = IoOk t1" "ocs (num_shards + 2) = IoOk t2" "ocs (num_shards + 3) = IoOk t3"
      using assms(1) by metis
    have len: "length (encode_header xxh v (capacity f2)) = 4096" by (simp add: encode_header_shape(1) HEADER_BYTES_def)
    have "\<exists>f3. write_at (IoOk t2) 0 (encode_header xxh v (capacity f2)) f2 = Some (f3, Inr ())"
      by (rule write_at_succeeds) (use len big lim c1 cl(2) in \<open>simp_all add: HEADER_BYTES_def\<close>)
    then obtain f3 where "write_at (IoOk t2) 0 (encode_header xxh v (capacity f2)) f2 = Some (f3, Inr ())" by blast
    then show ?thesis using rd False cl ts by (simp add: clear_incompatible_metadata_def sync_all_def)
  qed
qed


end
