(* ===== verification/Disk_Cache.thy ===== *)
theory Disk_Cache
  imports Small_Entries Header
begin

text \<open>
  The disk cache of \<open>feuer-storage/src/disk_cache.rs\<close>: a file, its shards, and the operations that pick a
  shard by key hash. A lookup that needs a disk read shares it through \<open>payload_reads\<close>, the reads that some
  caller still holds, by identity; \<open>Weak::upgrade\<close> succeeds exactly for these.

  Shards are independent, so tasks that recover or flush them run here in shard order. What a call cannot
  decide itself is an argument: the outcomes of its I/O, whether a nonblocking lock attempt succeeds, and
  whether the read queue admits a read.
\<close>

record payload_read =
  read_len :: u64
  read_checksum :: u64
  read_address :: u64
  read_result :: "(disk_lookup_outcome + byte list \<times> nat) option"

record disk_cache_inner =
  cache_file :: data_file
  cache_shards :: "disk_cache_shard list"
  cache_metrics :: disk_metrics
  reclaim_sample_size :: nat
  payload_reads :: "nat \<rightharpoonup> payload_read"

text \<open>An operation on one shard. Indexing past the shards would panic.\<close>

definition on_shard :: "nat \<Rightarrow> (data_file \<times> shard_state \<Rightarrow> (data_file \<times> shard_state \<times> 'r) option)
    \<Rightarrow> disk_cache_inner \<Rightarrow> (disk_cache_inner \<times> 'r) option" where
  "on_shard i op d =
    (if i < length (cache_shards d) then
       (case op (cache_file d, (cache_metrics d, cache_shards d ! i)) of
          None \<Rightarrow> None
        | Some (f, (dm, sh), r) \<Rightarrow>
            Some (d\<lparr>cache_file := f, cache_metrics := dm, cache_shards := (cache_shards d)[i := sh]\<rparr>, r))
     else None)"

definition shard_of :: "object_key_hash \<Rightarrow> disk_cache_inner \<Rightarrow> nat" where
  "shard_of k d = shard_index_for_key (length (cache_shards d)) k"

subsection \<open>Writing\<close>

definition disk_write_key ::
  "(object_key_hash \<Rightarrow> nat \<Rightarrow> 's::linorder) \<Rightarrow> (byte list \<Rightarrow> u64) \<Rightarrow> bool \<Rightarrow> (nat \<Rightarrow> io_outcome)
    \<Rightarrow> object_key_hash \<Rightarrow> byte list \<Rightarrow> completion \<Rightarrow> disk_cache_inner
    \<Rightarrow> (disk_cache_inner \<times> (disk_cache_error + nat)) option" where
  "disk_write_key score xxh unlocked ocs k bytes completion d =
    on_shard (shard_of k d) (write_shard score (reclaim_sample_size d) xxh unlocked ocs k bytes completion) d"

fun flush_shards ::
  "(object_key_hash \<Rightarrow> nat \<Rightarrow> 's::linorder) \<Rightarrow> (nat \<Rightarrow> io_outcome) \<Rightarrow> nat list \<Rightarrow> nat \<Rightarrow> disk_cache_inner
    \<Rightarrow> (disk_cache_inner \<times> (disk_cache_error + nat)) option" where
  "flush_shards score ocs [] published d = Some (d, Inr published)"
| "flush_shards score ocs (i # is) published d =
    (case on_shard i (flush_buffer score (reclaim_sample_size d) (ocs i)) d of
       None \<Rightarrow> None
     | Some (d1, Inl e) \<Rightarrow> Some (d1, Inl e)
     | Some (d1, Inr n) \<Rightarrow> flush_shards score ocs is (published + n) d1)"

definition flush_cache ::
  "(object_key_hash \<Rightarrow> nat \<Rightarrow> 's::linorder) \<Rightarrow> (nat \<Rightarrow> io_outcome) \<Rightarrow> disk_cache_inner
    \<Rightarrow> (disk_cache_inner \<times> (disk_cache_error + nat)) option" where
  "flush_cache score ocs d = flush_shards score ocs [0..<length (cache_shards d)] 0 d"

definition discard_pending :: "disk_cache_inner \<Rightarrow> disk_cache_inner" where
  "discard_pending d = fold (\<lambda>i d.
     let (dm, sh) = discard_buffer (cache_metrics d, cache_shards d ! i)
     in d\<lparr>cache_metrics := dm, cache_shards := (cache_shards d)[i := sh]\<rparr>) [0..<length (cache_shards d)] d"

text \<open>The writes of a batch in sequence, the \<open>n\<close>-th with the outcomes \<open>ocs n\<close>, up to the first error.\<close>

fun write_entries ::
  "(object_key_hash \<Rightarrow> nat \<Rightarrow> 's::linorder) \<Rightarrow> (byte list \<Rightarrow> u64) \<Rightarrow> bool \<Rightarrow> (nat \<Rightarrow> nat \<Rightarrow> io_outcome)
    \<Rightarrow> (object_key_hash \<times> byte list) list \<Rightarrow> nat \<Rightarrow> disk_cache_inner
    \<Rightarrow> (disk_cache_inner \<times> (disk_cache_error + nat)) option" where
  "write_entries score xxh unlocked ocs [] published d = Some (d, Inr published)"
| "write_entries score xxh unlocked ocs ((k, bytes) # es) published d =
    (case disk_write_key score xxh unlocked (ocs 0) k bytes NoCompletion d of
       None \<Rightarrow> None
     | Some (d1, Inl e) \<Rightarrow> Some (d1, Inl e)
     | Some (d1, Inr n) \<Rightarrow> write_entries score xxh unlocked (\<lambda>n. ocs (Suc n)) es (published + n) d1)"

text \<open>The batch is written by increasing length; the order of equally long entries is not specified, and
  the lemmas on \<open>write_entries\<close> hold for every order.\<close>

definition insert_batch ::
  "(object_key_hash \<Rightarrow> nat \<Rightarrow> 's::linorder) \<Rightarrow> (byte list \<Rightarrow> u64) \<Rightarrow> bool \<Rightarrow> (nat \<Rightarrow> nat \<Rightarrow> io_outcome)
    \<Rightarrow> (nat \<Rightarrow> io_outcome) \<Rightarrow> (object_key_hash \<times> byte list) list \<Rightarrow> disk_cache_inner
    \<Rightarrow> (disk_cache_inner \<times> (disk_cache_error + nat)) option" where
  "insert_batch score xxh unlocked ocs flush_ocs es d =
    (case write_entries score xxh unlocked ocs (sort_key (\<lambda>e. length (snd e)) es) 0 d of
       None \<Rightarrow> None
     | Some (d1, Inl e) \<Rightarrow> Some (d1, Inl e)
     | Some (d1, Inr published) \<Rightarrow>
         map_option (\<lambda>(d2, r). (d2, case r of Inl e \<Rightarrow> Inl e | Inr n \<Rightarrow> Inr (published + n)))
           (flush_cache score flush_ocs d1))"

subsection \<open>Lookups\<close>

definition cache_contains :: "bool \<Rightarrow> object_key_hash \<Rightarrow> disk_cache_inner \<Rightarrow> bool" where
  "cache_contains unlocked k d = contains_key unlocked k (cache_shards d ! shard_of k d)"

text \<open>\<open>DiskEntry::share_read\<close>, on the entry of a key: the identity of the shared or the new read.\<close>

definition new_payload_read :: "disk_entry \<Rightarrow> payload_read" where
  "new_payload_read e = \<lparr>read_len = entry_payload_len e, read_checksum = entry_payload_checksum e,
    read_address = entry_payload_address e, read_result = None\<rparr>"

definition share_read :: "nat \<Rightarrow> disk_entry \<Rightarrow> (nat \<rightharpoonup> payload_read) \<Rightarrow> nat \<times> disk_entry \<times> (nat \<rightharpoonup> payload_read)" where
  "share_read fresh e reads =
    (case shared_read e of
       Some i \<Rightarrow> if reads i \<noteq> None then (i, e, reads)
         else (fresh, e\<lparr>shared_read := Some fresh\<rparr>, reads(fresh \<mapsto> new_payload_read e))
     | None \<Rightarrow> (fresh, e\<lparr>shared_read := Some fresh\<rparr>, reads(fresh \<mapsto> new_payload_read e)))"

definition read_and_verify_payload ::
  "(byte list \<Rightarrow> u64) \<Rightarrow> io_outcome \<Rightarrow> (nat \<Rightarrow> nat) \<Rightarrow> payload_read \<Rightarrow> data_file
    \<Rightarrow> data_file \<times> (disk_lookup_outcome + byte list \<times> nat)" where
  "read_and_verify_payload xxh oc buffer_capacity r f =
    (case read_payload oc buffer_capacity (unat (read_address r)) (unat (read_len r)) f of
       (f1, Inl _) \<Rightarrow> (f1, Inl IoError)
     | (f1, Inr (bytes, c)) \<Rightarrow>
         if xxh bytes \<noteq> read_checksum r then (f1, Inl ChecksumFailed) else (f1, Inr (bytes, c)))"

text \<open>The locked start of a lookup on disk: \<open>None\<close> for an absent entry, or the identity of its read.\<close>

definition begin_read :: "nat \<Rightarrow> object_key_hash \<Rightarrow> disk_cache_inner \<Rightarrow> (disk_cache_inner \<times> nat) option" where
  "begin_read fresh k d =
    (let i = shard_of k d; sh = cache_shards d ! i; idx = entry_index sh in
     case entries_by_key idx k of
       None \<Rightarrow> None
     | Some e \<Rightarrow>
         let (rid, e1, reads1) = share_read fresh e (payload_reads d);
             sh1 = sh\<lparr>entry_index := idx\<lparr>entries_by_key := (entries_by_key idx)(k \<mapsto> e1)\<rparr>\<rparr>
         in Some (d\<lparr>cache_shards := (cache_shards d)[i := sh1], payload_reads := reads1\<rparr>, rid))"

text \<open>The removal after a failed checksum, which compares the identity of the read.\<close>

definition remove_if_same_read :: "object_key_hash \<Rightarrow> nat \<Rightarrow> disk_cache_inner \<Rightarrow> disk_cache_inner option" where
  "remove_if_same_read k rid d =
    (let i = shard_of k d; sh = cache_shards d ! i in
     if (case entries_by_key (entry_index sh) k of None \<Rightarrow> False | Some e \<Rightarrow> shared_read e = Some rid)
     then (case remove_entry_from_index k (cache_metrics d, sh) of
             None \<Rightarrow> None
           | Some (dm1, sh1) \<Rightarrow> Some (d\<lparr>cache_metrics := dm1, cache_shards := (cache_shards d)[i := sh1]\<rparr>))
     else Some d)"

text \<open>\<open>get_or_try_init\<close> on the result cell of a read that the caller holds. \<open>Inl ()\<close> is a fallthrough.\<close>

definition complete_read ::
  "(byte list \<Rightarrow> u64) \<Rightarrow> bool \<Rightarrow> io_outcome \<Rightarrow> (nat \<Rightarrow> nat) \<Rightarrow> object_key_hash \<Rightarrow> nat \<Rightarrow> payload_read \<Rightarrow> disk_cache_inner
    \<Rightarrow> (disk_cache_inner \<times> (unit + (disk_lookup_outcome + byte list \<times> nat))) option" where
  "complete_read xxh admitted oc buffer_capacity k rid r d =
    (case read_result r of
       Some res \<Rightarrow> Some (d, Inr res)
     | None \<Rightarrow>
         if \<not> admitted then Some (d, Inl ())
         else
           let (f1, res) = read_and_verify_payload xxh oc buffer_capacity r (cache_file d);
               d1 = d\<lparr>cache_file := f1\<rparr>;
               set = (\<lambda>d. d\<lparr>payload_reads := (payload_reads d)(rid \<mapsto> r\<lparr>read_result := Some res\<rparr>)\<rparr>)
           in if res = Inl ChecksumFailed
              then map_option (\<lambda>d2. (set d2, Inr res)) (remove_if_same_read k rid d1)
              else Some (set d1, Inr res))"

definition get_with_fallthrough ::
  "(byte list \<Rightarrow> u64) \<Rightarrow> bool \<Rightarrow> bool \<Rightarrow> io_outcome \<Rightarrow> (nat \<Rightarrow> nat) \<Rightarrow> nat \<Rightarrow> nat \<Rightarrow> object_key_hash \<Rightarrow> disk_cache_inner
    \<Rightarrow> (disk_cache_inner \<times> (byte list \<times> nat) option) option" where
  "get_with_fallthrough xxh unlocked admitted oc buffer_capacity fresh elapsed k d =
    (let record_as = (\<lambda>out d. d\<lparr>cache_metrics := record_lookup out elapsed (cache_metrics d)\<rparr>) in
     case (if unlocked then buffered_get k (small_entry_buffer (cache_shards d ! shard_of k d)) else None) of
       Some bytes \<Rightarrow> Some (record_as Hit d, Some (bytes, length bytes))
     | None \<Rightarrow>
         (case begin_read fresh k d of
            None \<Rightarrow> Some (record_as Absent d, None)
          | Some (d1, rid) \<Rightarrow>
              (case payload_reads d1 rid of
                 None \<Rightarrow> None
               | Some r \<Rightarrow>
                   (case complete_read xxh admitted oc buffer_capacity k rid r d1 of
                      None \<Rightarrow> None
                    | Some (d2, Inl _) \<Rightarrow> Some (record_as Fallthrough d2, None)
                    | Some (d2, Inr (Inr (bytes, c))) \<Rightarrow> Some (record_as Hit d2, Some (bytes, c))
                    | Some (d2, Inr (Inl out)) \<Rightarrow> Some (record_as out d2, None)))))"

definition get_cached ::
  "(byte list \<Rightarrow> u64) \<Rightarrow> bool \<Rightarrow> io_outcome \<Rightarrow> (nat \<Rightarrow> nat) \<Rightarrow> nat \<Rightarrow> nat \<Rightarrow> object_key_hash \<Rightarrow> disk_cache_inner
    \<Rightarrow> (disk_cache_inner \<times> byte list option) option" where
  "get_cached xxh unlocked oc buffer_capacity fresh elapsed k d =
    map_option (\<lambda>(d', r). (d', map_option fst r))
      (get_with_fallthrough xxh unlocked True oc buffer_capacity fresh elapsed k d)"

subsection \<open>Opening\<close>

definition num_shards_for :: "nat \<Rightarrow> nat" where
  "num_shards_for cap = min (max ((cap - CHUNK_BYTES) div (128 * CHUNK_BYTES)) 1) 64"

fun new_shards :: "nat \<Rightarrow> nat \<Rightarrow> nat list \<Rightarrow> disk_metrics \<Rightarrow> disk_metrics \<times> disk_cache_shard list" where
  "new_shards cap num_shards [] dm = (dm, [])"
| "new_shards cap num_shards (i # is) dm =
    (let (dm1, sh) = new_disk_cache_shard (shard_disk_range cap num_shards i) dm;
         (dm2, shs) = new_shards cap num_shards is dm1
     in (dm2, sh # shs))"

fun recover_shards ::
  "(byte list \<Rightarrow> u64) \<Rightarrow> (nat \<Rightarrow> nat \<Rightarrow> io_outcome) \<Rightarrow> nat list \<Rightarrow> disk_cache_inner \<Rightarrow> disk_cache_inner option" where
  "recover_shards xxh ocs [] d = Some d"
| "recover_shards xxh ocs (i # is) d =
    (case on_shard i (\<lambda>fs. map_option (\<lambda>(f, s). (f, s, ()))
              (recover_shard xxh (ocs i) (length (cache_shards d)) i fs)) d of
       None \<Rightarrow> None
     | Some (d1, _) \<Rightarrow> recover_shards xxh ocs is d1)"

record disk_cache_options =
  opt_file_name :: string
  opt_payload_version :: u64
  opt_metrics :: disk_metrics
  opt_reclaim_sample_size :: nat
  opt_io_metrics :: io_metrics

definition default_disk_cache_options :: disk_cache_options where
  "default_disk_cache_options = \<lparr>opt_file_name = ''data'', opt_payload_version = 0, opt_metrics = new_disk_metrics,
    opt_reclaim_sample_size = RECLAIM_SAMPLE_SIZE, opt_io_metrics = new_io_metrics\<rparr>"

text \<open>\<open>open_file\<close> opens, locks and sizes the data file. \<open>None\<close> is the failed assertion on the sample size.\<close>

definition open_disk_cache ::
  "(byte list \<Rightarrow> u64) \<Rightarrow> (string \<Rightarrow> nat \<Rightarrow> io_metrics \<Rightarrow> data_file data_file_result) \<Rightarrow> (nat \<Rightarrow> io_outcome) \<Rightarrow> (nat \<Rightarrow> nat \<Rightarrow> io_outcome)
    \<Rightarrow> nat \<Rightarrow> disk_cache_options \<Rightarrow> (disk_cache_error + disk_cache_inner) option" where
  "open_disk_cache xxh open_file header_ocs recover_ocs requested options =
    (if opt_reclaim_sample_size options = 0 then None
     else if requested < 2 * CHUNK_BYTES \<or> requested > i64_max then Some (Inl disk_cache_error.InvalidCapacity)
     else
       let cap = requested div CHUNK_BYTES * CHUNK_BYTES in
       case open_file (opt_file_name options) cap (opt_io_metrics options) of
         Inl e \<Rightarrow> Some (Inl (DataFileError e))
       | Inr f \<Rightarrow>
           let num_shards = num_shards_for cap in
           (case clear_incompatible_metadata xxh header_ocs (opt_payload_version options) num_shards f of
              None \<Rightarrow> None
            | Some (f1, Inl e) \<Rightarrow> Some (Inl (DataFileError e))
            | Some (f1, Inr _) \<Rightarrow>
                let (dm, shs) = new_shards cap num_shards [0..<num_shards] (opt_metrics options) in
                map_option Inr (recover_shards xxh recover_ocs [0..<num_shards]
                  \<lparr>cache_file = f1, cache_shards = shs, cache_metrics = dm,
                   reclaim_sample_size = opt_reclaim_sample_size options, payload_reads = Map.empty\<rparr>)))"

subsection \<open>The invariant of the cache\<close>

definition shard_lo :: "disk_cache_inner \<Rightarrow> nat \<Rightarrow> nat" where
  "shard_lo d i = fst (shard_disk_range (capacity (cache_file d)) (length (cache_shards d)) i) div CHUNK_BYTES"

definition shard_hi :: "disk_cache_inner \<Rightarrow> nat \<Rightarrow> nat" where
  "shard_hi d i = snd (shard_disk_range (capacity (cache_file d)) (length (cache_shards d)) i) div CHUNK_BYTES"

definition disk_good :: "(object_key_hash \<Rightarrow> u64 \<Rightarrow> byte list \<Rightarrow> bool) \<Rightarrow> disk_cache_inner \<Rightarrow> bool" where
  "disk_good P d \<longleftrightarrow> 0 < length (cache_shards d) \<and> 0 < reclaim_sample_size d \<and> CHUNK_BYTES dvd capacity (cache_file d) \<and>
    (\<forall>i < length (cache_shards d). file_room (shard_lo d i) (shard_hi d i) (cache_file d)
      \<and> shard_good False (shard_lo d i) (shard_hi d i) {#} P (cache_file d) (cache_shards d ! i))"

text \<open>An indexed payload lies in the chunks of its shard, so that writes to other shards do not touch it.\<close>

lemma entry_inside_shard:
  assumes ok: "shard_ok ex lo hi live sh" and em: "entry_metas sh k = Some em" "no_wrap em"
  shows "lo * CHUNK_BYTES \<le> unat (payload_address em)"
    and "unat (payload_address em) + payload_disk_bytes (unat (payload_len em)) \<le> hi * CHUNK_BYTES"
proof -
  note D = shard_core_D [OF shard_ok_D(1) [OF ok]]
  obtain e where e: "entries_by_key (entry_index sh) k = Some e" "em = entry_meta k e" using em(1) by (auto simp: entry_metas_def)
  have pe: "payload_end e = unat (payload_address em) + payload_disk_bytes (unat (payload_len em))"
    using em(2) e(2) by (simp add: no_wrap_def payload_end_def entry_meta_def)
  obtain h n where h: "payload_chunks (allocator sh) (entry_chunk e) = Some (h, n)" "payload_end e \<le> snd (chunk_numbers h) * CHUNK_BYTES"
    using D(5) [OF e(1)] by (auto simp: inside_hold_def disk_byte_range_def split: option.splits)
  note H = alloc_inv_D(4) [OF D(1) h(1)]
  have "fst (chunk_numbers h) \<in> rng_set (chunk_numbers h)" "snd (chunk_numbers h) - 1 \<in> rng_set (chunk_numbers h)"
    using H unfolding atLeastLessThan_iff by linarith+
  then have b: "lo \<le> fst (chunk_numbers h)" "snd (chunk_numbers h) \<le> hi" using held_exclusive(2) [OF D(1) h(1)] H by force+
  have "lo * CHUNK_BYTES \<le> fst (chunk_numbers h) * CHUNK_BYTES" using b(1) by (rule mult_le_mono1)
  also have "\<dots> \<le> unat (payload_address em)" using H e(2) by (simp add: entry_chunk_def entry_meta_def div_times_less_eq_dividend)
  finally show "lo * CHUNK_BYTES \<le> unat (payload_address em)" .
  have "snd (chunk_numbers h) * CHUNK_BYTES \<le> hi * CHUNK_BYTES" using b(2) by (rule mult_le_mono1)
  then show "unat (payload_address em) + payload_disk_bytes (unat (payload_len em)) \<le> hi * CHUNK_BYTES" using h(2) pe by linarith
qed

lemma payloads_ok_outside:
  assumes ok: "shard_ok ex lo' hi' live sh" and apart: "hi' \<le> lo \<or> hi \<le> lo'" and out: "outside_unchanged lo hi f f'" and P: "payloads_ok P f sh"
  shows "payloads_ok P f' sh"
  unfolding payloads_ok_def
proof (intro allI impI)
  fix k em assume em: "entry_metas sh k = Some em" "no_wrap em"
  note I = entry_inside_shard [OF ok em]
  have le: "unat (payload_len em) \<le> payload_disk_bytes (unat (payload_len em))" using aligned_len em(2) by (simp add: no_wrap_def)
  have ap: "hi' * CHUNK_BYTES \<le> lo * CHUNK_BYTES \<or> hi * CHUNK_BYTES \<le> lo' * CHUNK_BYTES" using apart mult_le_mono1 by blast
  have "image f' i = image f i" if "i \<in> set [unat (payload_address em)..<unat (payload_address em) + unat (payload_len em)]" for i
  proof -
    have "i < lo * CHUNK_BYTES \<or> hi * CHUNK_BYTES \<le> i" using that I le ap unfolding set_upt atLeastLessThan_iff by linarith
    then show ?thesis using out unfolding outside_unchanged_def by blast
  qed
  then have "stored_payload f' em = stored_payload f em" by (simp add: stored_payload_def disk_read_def)
  then show "P k (payload_checksum em) (stored_payload f' em)" using P em by (simp add: payloads_ok_def)
qed

lemma shard_ranges_apart: "i \<noteq> j \<Longrightarrow> shard_hi d j \<le> shard_lo d i \<or> shard_hi d i \<le> shard_lo d j"
proof -
  let ?s = "\<lambda>i. fst (shard_disk_range (capacity (cache_file d)) (length (cache_shards d)) i)"
  assume "i \<noteq> j"
  then have "Suc i \<le> j \<or> Suc j \<le> i" by linarith
  then have "?s (Suc i) \<le> ?s j \<or> ?s (Suc j) \<le> ?s i" using shard_range_mono by blast
  then show ?thesis unfolding shard_hi_def shard_lo_def shard_range_step Suc_eq_plus1 [symmetric] using div_le_mono by blast
qed

text \<open>An operation that keeps its shard consistent keeps the cache consistent.\<close>

lemma on_shard_good:
  assumes good: "disk_good P d" and i: "i < length (cache_shards d)"
    and op: "\<exists>f' dm' sh' r. op (cache_file d, (cache_metrics d, cache_shards d ! i)) = Some (f', (dm', sh'), r)
      \<and> shard_good False (shard_lo d i) (shard_hi d i) {#} P f' sh'
      \<and> keeps n (shard_lo d i) (shard_hi d i) (cache_file d, (cache_metrics d, cache_shards d ! i)) (f', (dm', sh'))"
  shows "\<exists>d' r. on_shard i op d = Some (d', r) \<and> disk_good P d' \<and> length (cache_shards d') = length (cache_shards d)
    \<and> reclaim_sample_size d' = reclaim_sample_size d \<and> payload_reads d' = payload_reads d"
proof -
  from op obtain f' dm' sh' r where o: "op (cache_file d, (cache_metrics d, cache_shards d ! i)) = Some (f', (dm', sh'), r)"
    and sh': "shard_good False (shard_lo d i) (shard_hi d i) {#} P f' sh'"
    and kp: "keeps n (shard_lo d i) (shard_hi d i) (cache_file d, (cache_metrics d, cache_shards d ! i)) (f', (dm', sh'))" by blast
  let ?d = "d\<lparr>cache_file := f', cache_metrics := dm', cache_shards := (cache_shards d)[i := sh']\<rparr>"
  have cap: "capacity f' = capacity (cache_file d)" and out: "outside_unchanged (shard_lo d i) (shard_hi d i) (cache_file d) f'"
    using kp by (simp_all add: keeps_def)
  have range: "shard_lo ?d j = shard_lo d j" "shard_hi ?d j = shard_hi d j" for j using cap by (simp_all add: shard_lo_def shard_hi_def)
  have "file_room (shard_lo d j) (shard_hi d j) f' \<and> shard_good False (shard_lo d j) (shard_hi d j) {#} P f' (cache_shards ?d ! j)"
    if j: "j < length (cache_shards d)" for j
  proof (cases "j = i")
    case True
    then show ?thesis using good j sh' cap by (simp add: disk_good_def file_room_def)
  next
    case False
    have g: "file_room (shard_lo d j) (shard_hi d j) (cache_file d)" "shard_good False (shard_lo d j) (shard_hi d j) {#} P (cache_file d) (cache_shards d ! j)"
      using good j by (simp_all add: disk_good_def)
    have "payloads_ok P f' (cache_shards d ! j)"
      using g(2) by (intro payloads_ok_outside [OF _ shard_ranges_apart [OF False [symmetric]] out]) (auto simp: shard_good_def)
    then show ?thesis using g cap False by (simp add: shard_good_def file_room_def)
  qed
  then have "disk_good P ?d" using good cap by (simp add: disk_good_def range)
  then show ?thesis using o i by (simp add: on_shard_def)
qed

lemma shard_of_less: "disk_good P d \<Longrightarrow> shard_of k d < length (cache_shards d)"
  by (simp add: disk_good_def shard_of_def shard_index_for_key_def)

lemma disk_good_shard:
  "disk_good P d \<Longrightarrow> i < length (cache_shards d) \<Longrightarrow> file_room (shard_lo d i) (shard_hi d i) (cache_file d)
    \<and> shard_good False (shard_lo d i) (shard_hi d i) {#} P (cache_file d) (cache_shards d ! i)"
  by (simp add: disk_good_def)

lemma disk_write_key_ok:
  assumes good: "disk_good P d" and len: "length bytes + 4096 \<le> u64_limit" and P: "P k (xxh bytes) bytes"
  shows "\<exists>d' r. disk_write_key score xxh unlocked ocs k bytes completion d = Some (d', r) \<and> disk_good P d' \<and> length (cache_shards d') = length (cache_shards d)
    \<and> reclaim_sample_size d' = reclaim_sample_size d \<and> payload_reads d' = payload_reads d"
proof -
  let ?i = "shard_of k d"
  note S = disk_good_shard [OF good shard_of_less [OF good, of k]]
  show ?thesis
    unfolding disk_write_key_def
    by (rule on_shard_good [OF good shard_of_less [OF good]], rule write_shard_ok [where P = P and xxh = xxh, OF conjunct2 [OF S] conjunct1 [OF S] len P])
qed

lemma flush_shards_ok:
  assumes "disk_good P d" and "\<forall>i \<in> set is. i < length (cache_shards d)"
  shows "\<exists>d' r. flush_shards score ocs is published d = Some (d', r) \<and> disk_good P d' \<and> length (cache_shards d') = length (cache_shards d)
    \<and> reclaim_sample_size d' = reclaim_sample_size d \<and> payload_reads d' = payload_reads d"
  using assms
proof (induction "is" arbitrary: published d)
  case (Cons i "is")
  have i: "i < length (cache_shards d)" using Cons.prems(2) by simp
  note S = disk_good_shard [OF Cons.prems(1) i]
  have "shard_ok False (shard_lo d i) (shard_hi d i) {#} (cache_shards d ! i)" "payloads_ok P (cache_file d) (cache_shards d ! i)"
    "buffer_packed P (small_entry_buffer (cache_shards d ! i))" using S by (simp_all add: shard_good_def buffer_ok_def)
  from flush_buffer_ok [OF this conjunct1 [OF S], of score "reclaim_sample_size d" "ocs i" "cache_metrics d"]
  obtain d1 r where o: "on_shard i (flush_buffer score (reclaim_sample_size d) (ocs i)) d = Some (d1, r)" "disk_good P d1"
    "length (cache_shards d1) = length (cache_shards d)" "reclaim_sample_size d1 = reclaim_sample_size d" "payload_reads d1 = payload_reads d"
    using on_shard_good [OF Cons.prems(1) i, of "flush_buffer score (reclaim_sample_size d) (ocs i)" 0] by blast
  then show ?case using Cons.IH [of d1] Cons.prems(2) by (cases r) auto
qed simp

lemma write_entries_ok:
  assumes "disk_good P d" and "\<forall>e \<in> set es. length (snd e) + 4096 \<le> u64_limit \<and> P (fst e) (xxh (snd e)) (snd e)"
  shows "\<exists>d' r. write_entries score xxh unlocked ocs es published d = Some (d', r) \<and> disk_good P d' \<and> length (cache_shards d') = length (cache_shards d)
    \<and> reclaim_sample_size d' = reclaim_sample_size d \<and> payload_reads d' = payload_reads d"
  using assms
proof (induction es arbitrary: ocs published d)
  case (Cons e es)
  obtain k bytes where e: "e = (k, bytes)" by (cases e)
  obtain d1 r where o: "disk_write_key score xxh unlocked (ocs 0) k bytes NoCompletion d = Some (d1, r)" "disk_good P d1"
    "length (cache_shards d1) = length (cache_shards d)" "reclaim_sample_size d1 = reclaim_sample_size d" "payload_reads d1 = payload_reads d"
    using disk_write_key_ok [OF Cons.prems(1), of bytes k xxh score unlocked "ocs 0" NoCompletion] Cons.prems(2) e by auto
  then show ?case using Cons.IH [OF o(2)] Cons.prems(2) e by (cases r) auto
qed simp

lemma insert_batch_ok:
  assumes "disk_good P d" and "\<forall>e \<in> set es. length (snd e) + 4096 \<le> u64_limit \<and> P (fst e) (xxh (snd e)) (snd e)"
  shows "\<exists>d' r. insert_batch score xxh unlocked ocs flush_ocs es d = Some (d', r) \<and> disk_good P d'"
proof -
  have "\<forall>e \<in> set (sort_key (\<lambda>e. length (snd e)) es). length (snd e) + 4096 \<le> u64_limit \<and> P (fst e) (xxh (snd e)) (snd e)" using assms(2) by simp
  from write_entries_ok [OF assms(1) this, of score unlocked ocs 0] obtain d1 r where
    w: "write_entries score xxh unlocked ocs (sort_key (\<lambda>e. length (snd e)) es) 0 d = Some (d1, r)" "disk_good P d1" by blast
  from flush_shards_ok [OF w(2), of "[0..<length (cache_shards d1)]" score flush_ocs 0] obtain d2 r2 where
    "flush_cache score flush_ocs d1 = Some (d2, r2)" "disk_good P d2" by (auto simp: flush_cache_def)
  then show ?thesis using w by (cases r) (auto simp: insert_batch_def)
qed

subsection \<open>Lookups return verified bytes\<close>

lemma share_read_shard_ok:
  fixes x :: "nat option"
  assumes ok: "shard_ok ex lo hi live sh" and k: "entries_by_key (entry_index sh) k = Some e"
  defines "sh' \<equiv> sh\<lparr>entry_index := (entry_index sh)\<lparr>entries_by_key := (entries_by_key (entry_index sh))(k \<mapsto> e\<lparr>shared_read := x\<rparr>)\<rparr>\<rparr>"
  shows "shard_ok ex lo hi live sh'" and "entry_metas sh' = entry_metas sh"
proof -
  let ?m = "entries_by_key (entry_index sh)"
  note D = shard_ok_D [OF ok]
  have same: "entry_meta j (e\<lparr>shared_read := x\<rparr>) = entry_meta j e" "entry_chunk (e\<lparr>shared_read := x\<rparr>) = entry_chunk e"
    "payload_end (e\<lparr>shared_read := x\<rparr>) = payload_end e" "inside_hold a (e\<lparr>shared_read := x\<rparr>) = inside_hold a e" for j a
    by (simp_all add: entry_meta_def entry_chunk_def payload_end_def inside_hold_def split: option.splits)
  have "uses (?m(k \<mapsto> e\<lparr>shared_read := x\<rparr>)) c = uses ?m c" for c
    using map_total_update [OF index_ok_finite [OF D(5)] k, of "\<lambda>e. of_bool (entry_chunk e = c)" "e\<lparr>shared_read := x\<rparr>"] same(2) by (simp add: uses_def)
  moreover have "index_ok (entry_index sh')"
    unfolding index_ok_def di.consistent_def
  proof (intro conjI allI impI)
    let ?cs = "eviction_candidates (entry_index sh)"
    have c: "di.consistent ?m ?cs" using D(5) by (simp add: index_ok_def)
    fix j v assume "entries_by_key (entry_index sh') j = Some v"
    then obtain v0 where "?m j = Some v0" "eviction_position v = eviction_position v0" using k by (cases "j = k") (auto simp: sh'_def)
    then show "eviction_position v < length (eviction_candidates (entry_index sh'))" "eviction_candidates (entry_index sh') ! eviction_position v = j"
      using di.consistent_entry [OF c] by (auto simp: sh'_def)
  next
    let ?cs = "eviction_candidates (entry_index sh)"
    have c: "di.consistent ?m ?cs" using D(5) by (simp add: index_ok_def)
    fix i assume "i < length (eviction_candidates (entry_index sh'))"
    then obtain v where "?m (?cs ! i) = Some v" "eviction_position v = i" using di.consistent_candidate [OF c, of i] by (auto simp: sh'_def)
    then show "\<exists>v. entries_by_key (entry_index sh') (eviction_candidates (entry_index sh') ! i) = Some v \<and> eviction_position v = i"
      using k by (cases "?cs ! i = k") (auto simp: sh'_def)
  qed
  moreover have "slot_at (chunks (metadata_pages sh)) (entry_location v) = Some (entry_meta j v) \<and> inside_hold (allocator sh) v"
    if "(?m(k \<mapsto> e\<lparr>shared_read := x\<rparr>)) j = Some v" for j v
    using that shard_core_D(3,5) [OF D(1)] k same by (cases "j = k") auto
  moreover have "\<exists>v. (?m(k \<mapsto> e\<lparr>shared_read := x\<rparr>)) (key em) = Some v \<and> entry_location v = loc"
    if "slot_at (chunks (metadata_pages sh)) loc = Some em" for loc em
    using shard_core_D(6) [OF D(1) that] k by (cases "key em = k") auto
  ultimately have "shard_core lo hi live (\<lambda>_. 0) {} sh'"
    using shard_core_D(1,7) [OF D(1)] unfolding shard_core_def sh'_def by simp
  moreover have "holds_exact sh'" if ex using D(3) [OF that] k same unfolding holds_exact_def sh'_def by (auto split: if_splits)
  moreover have "head_ok lo live sh'" using D(4) by (auto simp: head_ok_def sh'_def split: list.splits)
  ultimately show "shard_ok ex lo hi live sh'" using D(2) by (simp add: shard_ok_def shard_inv_def sh'_def)
  show "entry_metas sh' = entry_metas sh" using k same(1) by (auto simp: entry_metas_def sh'_def fun_eq_iff)
qed

lemma remove_entry_shard_ok:
  assumes ok: "shard_ok False lo hi live sh"
  shows "\<exists>dm' sh'. remove_entry_from_index k (dm, sh) = Some (dm', sh') \<and> shard_ok False lo hi live sh' \<and> entry_metas sh' \<subseteq>\<^sub>m entry_metas sh
    \<and> small_entry_buffer sh' = small_entry_buffer sh"
proof (cases "entries_by_key (entry_index sh) k")
  case None
  then show ?thesis using ok by (simp add: remove_entry_absent)
next
  case (Some e)
  note D = shard_ok_D [OF ok]
  obtain dm' sh' where r: "remove_entry_from_index k (dm, sh) = Some (dm', sh')" "shard_core lo hi live (\<lambda>_. 0) {} sh'" "meta_inv (metadata_pages sh')"
    "same_entries (entries_by_key (entry_index sh')) ((entries_by_key (entry_index sh))(k := None))" "small_entry_buffer sh' = small_entry_buffer sh"
    using remove_entry_present [OF D(1,2) Some, of dm] by metis
  note F = removal_frame [OF r(1)]
  have "payload_chunks (allocator sh') = Map.empty" if "payload_chunks (allocator sh) = Map.empty"
    using F(2) that by (auto simp: holds_shrink_def intro!: ext) (metis not_None_eq surj_pair)
  then have "head_ok lo live sh'" using D(4) F(3) by (auto simp: head_ok_def split: list.splits)
  moreover have "entry_metas sh' \<subseteq>\<^sub>m entry_metas sh"
    unfolding map_le_def using entry_metas_same [OF r(4)] by (auto simp: entry_metas_def split: if_splits)
  ultimately show ?thesis using r by (simp add: shard_ok_def shard_inv_def)
qed

text \<open>A shared read describes its entry, and its result is a payload of the key with the checksum of the
  entry.\<close>

definition reads_ok :: "(object_key_hash \<Rightarrow> u64 \<Rightarrow> byte list \<Rightarrow> bool) \<Rightarrow> (byte list \<Rightarrow> u64) \<Rightarrow> disk_cache_inner \<Rightarrow> object_key_hash \<Rightarrow> bool" where
  "reads_ok P xxh d k \<longleftrightarrow> (\<forall>e rid r. entries_by_key (entry_index (cache_shards d ! shard_of k d)) k = Some e \<longrightarrow> shared_read e = Some rid \<longrightarrow>
    payload_reads d rid = Some r \<longrightarrow>
    read_len r = entry_payload_len e \<and> read_checksum r = entry_payload_checksum e \<and> read_address r = entry_payload_address e \<and>
    (\<forall>b c. read_result r = Some (Inr (b, c)) \<longrightarrow> P k (entry_payload_checksum e) b \<and> xxh b = entry_payload_checksum e))"

lemma buffered_get_P:
  assumes "buffer_ok P b" and "buffered_get k b = Some bytes"
  shows "\<exists>cs. P k cs bytes"
proof -
  from assms(2) obtain e where "find (\<lambda>e. write_key e = k) (rev (buffered_entries b)) = Some e" "bytes = entry_bytes (buffer b) e"
    by (auto simp: buffered_get_def buffered_entry_def entry_bytes_def)
  then show ?thesis using find_in_set [of "\<lambda>e. write_key e = k" "rev (buffered_entries b)" e] assms(1) by (auto simp: buffer_ok_def buffer_packed_def)
qed

lemma read_and_verify_payload_ok:
  assumes room: "file_room lo hi f" "CHUNK_BYTES dvd capacity f" and ok: "shard_ok ex lo hi live sh" "payloads_ok P f sh"
    and em: "entry_metas sh k = Some em" "no_wrap em"
    and r: "read_len r = payload_len em" "read_checksum r = payload_checksum em" "read_address r = payload_address em"
    and v: "read_and_verify_payload xxh oc bc r f = (f1, res)"
  shows "image f1 = image f" and "capacity f1 = capacity f"
    and "res = Inr (b, c) \<Longrightarrow> P k (payload_checksum em) b \<and> xxh b = payload_checksum em"
proof -
  show "image f1 = image f" "capacity f1 = capacity f"
    using v by (auto simp: read_and_verify_payload_def read_payload_def measure_io_def split: prod.splits sum.splits if_splits)
  assume res: "res = Inr (b, c)"
  then obtain t where t: "oc = IoOk t"
    using v by (cases oc) (auto simp: read_and_verify_payload_def read_payload_def measure_io_def read_slice_def queue_read_def Let_def split: if_splits)
  note I = entry_inside_shard [OF ok(1) em]
  have len: "max (unat (payload_len em)) 1 \<le> payload_disk_bytes (unat (payload_len em))"
    using aligned_len [of "unat (payload_len em)"] em(2) by (simp add: no_wrap_def)
  have rm: "hi * CHUNK_BYTES \<le> capacity f" "capacity f \<le> i64_max" using room(1) by (simp_all add: file_room_def)
  have "unat (payload_address em) + max (unat (payload_len em)) 1 \<le> capacity f" using I(2) len rm(1) by linarith
  moreover have "4096 dvd capacity f" using room(2) dvd_trans [of 4096 CHUNK_BYTES] by (simp add: CHUNK_BYTES_def)
  ultimately have "read_slice (IoOk t) bc (unat (payload_address em)) (unat (payload_len em)) f
      = Inr (stored_payload f em, bc (payload_disk_bytes (unat (payload_address em) mod 4096 + unat (payload_len em))))"
    using read_slice_ok [of "unat (payload_address em)" "unat (payload_len em)" f t bc] rm(2) by (simp add: stored_payload_def)
  then have "b = stored_payload f em" "xxh b = payload_checksum em"
    using v res r t by (auto simp: read_and_verify_payload_def read_payload_def measure_io_def split: if_splits)
  then show "P k (payload_checksum em) b \<and> xxh b = payload_checksum em" using ok(2) em by (simp add: payloads_ok_def)
qed

lemma disk_good_update_shard:
  assumes good: "disk_good P d" and i: "i < length (cache_shards d)" and cap: "capacity f = capacity (cache_file d)" "image f = image (cache_file d)"
    and sh: "shard_good False (shard_lo d i) (shard_hi d i) {#} P (cache_file d) sh"
  shows "disk_good P (d\<lparr>cache_file := f, cache_metrics := dm, cache_shards := (cache_shards d)[i := sh], payload_reads := rs\<rparr>)"
proof -
  let ?d = "d\<lparr>cache_file := f, cache_metrics := dm, cache_shards := (cache_shards d)[i := sh], payload_reads := rs\<rparr>"
  have range: "shard_lo ?d j = shard_lo d j" "shard_hi ?d j = shard_hi d j" for j using cap by (simp_all add: shard_lo_def shard_hi_def)
  have "payloads_ok P f s = payloads_ok P (cache_file d) s" for s using cap(2) by (simp add: payloads_ok_def stored_payload_def)
  then have same: "shard_good False lo hi {#} P f s = shard_good False lo hi {#} P (cache_file d) s" for lo hi s by (simp add: shard_good_def)
  show ?thesis using good i sh cap(1) by (auto simp: disk_good_def range same file_room_def nth_list_update)
qed

lemma begin_read_ok:
  assumes good: "disk_good P d" and reads: "reads_ok P xxh d k" and fresh: "payload_reads d fresh = None"
    and b: "begin_read fresh k d = Some (d1, rid)"
  shows "\<exists>e r. entries_by_key (entry_index (cache_shards d1 ! shard_of k d)) k = Some e \<and> shared_read e = Some rid \<and> payload_reads d1 rid = Some r
    \<and> disk_good P d1 \<and> reads_ok P xxh d1 k \<and> shard_of k d1 = shard_of k d \<and> cache_file d1 = cache_file d \<and> cache_metrics d1 = cache_metrics d"
proof -
  let ?i = "shard_of k d" and ?sh = "cache_shards d ! shard_of k d"
  note i = shard_of_less [OF good, of k]
  obtain e where e: "entries_by_key (entry_index ?sh) k = Some e" using b by (auto simp: begin_read_def Let_def split: option.splits)
  define e1 where "e1 = fst (snd (share_read fresh e (payload_reads d)))"
  define rs where "rs = snd (snd (share_read fresh e (payload_reads d)))"
  define sh1 where "sh1 = ?sh\<lparr>entry_index := (entry_index ?sh)\<lparr>entries_by_key := (entries_by_key (entry_index ?sh))(k \<mapsto> e1)\<rparr>\<rparr>"
  have d1: "d1 = d\<lparr>cache_shards := (cache_shards d)[?i := sh1], payload_reads := rs\<rparr>" and rid: "rid = fst (share_read fresh e (payload_reads d))"
    using b e by (auto simp: begin_read_def Let_def sh1_def e1_def rs_def split: prod.splits)
  have e1: "e1 = e\<lparr>shared_read := Some rid\<rparr>" and live: "rs rid \<noteq> None"
    by (auto simp: e1_def rid rs_def share_read_def split: option.splits)
  note S = disk_good_shard [OF good i]
  have "shard_good False (shard_lo d ?i) (shard_hi d ?i) {#} P (cache_file d) sh1"
    using S share_read_shard_ok [OF _ e, of False "shard_lo d ?i" "shard_hi d ?i" "{#}" "Some rid"]
    by (auto simp: shard_good_def sh1_def e1 payloads_ok_def)
  then have "disk_good P (d\<lparr>cache_file := cache_file d, cache_metrics := cache_metrics d, cache_shards := (cache_shards d)[?i := sh1], payload_reads := rs\<rparr>)"
    by (rule disk_good_update_shard [OF good i refl refl])
  then have good1: "disk_good P d1" by (simp add: d1)
  have of1: "shard_of k d1 = ?i" by (simp add: d1 shard_of_def)
  have ent: "entries_by_key (entry_index (cache_shards d1 ! ?i)) k = Some e1" using i by (simp add: d1 sh1_def)
  have "reads_ok P xxh d1 k"
    unfolding reads_ok_def of1 ent
  proof (intro allI impI, goal_cases)
    case (1 v j r)
    then have v: "v = e1" "j = rid" "rs rid = Some r" by (auto simp: e1 d1)
    show ?case
    proof (cases "payload_reads d rid")
      case None
      then have "r = new_payload_read e" using v(3) by (auto simp: rs_def rid share_read_def split: option.splits if_splits)
      then show ?thesis using v by (simp add: e1 new_payload_read_def)
    next
      case (Some r0)
      then have "rid \<noteq> fresh" using fresh by auto
      then have "shared_read e = Some rid" "rs = payload_reads d" by (auto simp: rs_def rid share_read_def split: option.splits if_splits)
      then show ?thesis using reads e v unfolding reads_ok_def by (auto simp: e1)
    qed
  qed
  then show ?thesis using ent e1 live good1 of1 by (auto simp: d1)
qed

lemma removal_lookups:
  assumes "remove_entry_from_index k (dm, sh) = Some (dm', sh')"
  shows "finished_lookups dm' = finished_lookups dm"
proof -
  have take: "finished_lookups dm1 = finished_lookups dm" if "take_entry k (dm, idx) = Some ((dm1, idx1), eo)" for idx idx1 dm1 eo
    using that by (auto simp: take_entry_def Let_def finished_lookups_def split: option.splits if_splits)
  have rel: "finished_lookups dm2 = finished_lookups dm1" if "release_payload p (dm1, a) = Some (dm2, a1)" for p dm1 dm2 a a1
    using that by (auto simp: release_payload_def drop_reserved_chunks_def release_def finished_lookups_def Let_def split: option.splits if_splits)
  show ?thesis using assms by (auto simp: remove_entry_from_index_def release_entry_def split: option.splits dest!: take rel)
qed

text \<open>A late checksum failure removes the entry it read, and no other.\<close>

lemma remove_if_same_read_ok:
  assumes good: "disk_good P d"
  shows "\<exists>d'. remove_if_same_read k rid d = Some d' \<and> disk_good P d' \<and> payload_reads d' = payload_reads d \<and> shard_of k d' = shard_of k d
    \<and> finished_lookups (cache_metrics d') = finished_lookups (cache_metrics d)
    \<and> (\<forall>e. entries_by_key (entry_index (cache_shards d' ! shard_of k d)) k = Some e \<longrightarrow>
        entries_by_key (entry_index (cache_shards d ! shard_of k d)) k = Some e \<and> shared_read e \<noteq> Some rid)"
proof -
  let ?i = "shard_of k d" and ?sh = "cache_shards d ! shard_of k d"
  note i = shard_of_less [OF good, of k]
  show ?thesis
  proof (cases "\<exists>e. entries_by_key (entry_index ?sh) k = Some e \<and> shared_read e = Some rid")
    case False
    then have "remove_if_same_read k rid d = Some d" by (auto simp: remove_if_same_read_def Let_def split: option.splits)
    then show ?thesis using good False by auto
  next
    case True
    then obtain e where e: "entries_by_key (entry_index ?sh) k = Some e" "shared_read e = Some rid" by blast
    note S = disk_good_shard [OF good i]
    then have ok: "shard_ok False (shard_lo d ?i) (shard_hi d ?i) {#} ?sh" by (simp add: shard_good_def)
    from remove_entry_shard_ok [OF ok, of k "cache_metrics d"] obtain dm' sh' where
      r: "remove_entry_from_index k (cache_metrics d, ?sh) = Some (dm', sh')" "shard_ok False (shard_lo d ?i) (shard_hi d ?i) {#} sh'"
        "entry_metas sh' \<subseteq>\<^sub>m entry_metas ?sh" "small_entry_buffer sh' = small_entry_buffer ?sh" by blast
    have sub: "entry_metas ?sh j = Some em" if "entry_metas sh' j = Some em" for j em using r(3) that by (metis domI map_le_def)
    then have "shard_good False (shard_lo d ?i) (shard_hi d ?i) {#} P (cache_file d) sh'"
      using r(2,4) S by (auto simp: shard_good_def payloads_ok_def)
    then have "disk_good P (d\<lparr>cache_file := cache_file d, cache_metrics := dm', cache_shards := (cache_shards d)[?i := sh'], payload_reads := payload_reads d\<rparr>)"
      by (rule disk_good_update_shard [OF good i refl refl])
    moreover have "remove_if_same_read k rid d = Some (d\<lparr>cache_metrics := dm', cache_shards := (cache_shards d)[?i := sh']\<rparr>)"
      using e r(1) by (simp add: remove_if_same_read_def Let_def)
    moreover obtain dm2 sh2 where "remove_entry_from_index k (cache_metrics d, ?sh) = Some (dm2, sh2)"
      "same_entries (entries_by_key (entry_index sh2)) ((entries_by_key (entry_index ?sh))(k := None))"
      using remove_entry_present [OF shard_ok_D(1,2) [OF ok] e(1), of "cache_metrics d"] by metis
    then have "entries_by_key (entry_index sh') k = None" using r(1) same_entries_dom by (metis (no_types, lifting) Pair_inject domIff fun_upd_same option.inject)
    ultimately show ?thesis using i removal_lookups [OF r(1)] by (auto simp: shard_of_def)
  qed
qed

lemma complete_read_ok:
  assumes good: "disk_good P d" and reads: "reads_ok P xxh d k"
    and e: "entries_by_key (entry_index (cache_shards d ! shard_of k d)) k = Some e" "shared_read e = Some rid" "payload_reads d rid = Some r"
    and sane: "no_wrap (entry_meta k e)"
  shows "\<exists>d' res. complete_read xxh admitted oc bc k rid r d = Some (d', res) \<and> disk_good P d' \<and> reads_ok P xxh d' k
    \<and> finished_lookups (cache_metrics d') = finished_lookups (cache_metrics d) \<and> (\<forall>b c. res = Inr (Inr (b, c)) \<longrightarrow> (\<exists>cs. P k cs b \<and> xxh b = cs))"
proof (cases "read_result r \<noteq> None \<or> \<not> admitted")
  case True
  then show ?thesis using good reads e by (auto simp: complete_read_def reads_ok_def split: option.splits)
next
  case False
  let ?i = "shard_of k d" and ?sh = "cache_shards d ! shard_of k d"
  note i = shard_of_less [OF good, of k]
  note S = disk_good_shard [OF good i]
  have rr: "read_len r = entry_payload_len e" "read_checksum r = entry_payload_checksum e" "read_address r = entry_payload_address e"
    using reads e unfolding reads_ok_def by blast+
  obtain f1 res where v: "read_and_verify_payload xxh oc bc r (cache_file d) = (f1, res)" by fastforce
  have em: "entry_metas ?sh k = Some (entry_meta k e)" using e(1) by (simp add: entry_metas_def)
  have dvd: "CHUNK_BYTES dvd capacity (cache_file d)" using good by (simp add: disk_good_def)
  have ok: "shard_ok False (shard_lo d ?i) (shard_hi d ?i) {#} ?sh" "payloads_ok P (cache_file d) ?sh" using S by (simp_all add: shard_good_def)
  note V = read_and_verify_payload_ok [OF conjunct1 [OF S] dvd ok em sane _ _ _ v]
  have img: "image f1 = image (cache_file d)" "capacity f1 = capacity (cache_file d)"
    and val: "\<And>b c. res = Inr (b, c) \<Longrightarrow> P k (entry_payload_checksum e) b \<and> xxh b = entry_payload_checksum e"
    using V rr by (simp_all add: entry_meta_def)
  let ?d1 = "d\<lparr>cache_file := f1\<rparr>" and ?set = "\<lambda>d. d\<lparr>payload_reads := (payload_reads d)(rid \<mapsto> r\<lparr>read_result := Some res\<rparr>)\<rparr>"
  have "disk_good P (d\<lparr>cache_file := f1, cache_metrics := cache_metrics d, cache_shards := (cache_shards d)[?i := ?sh], payload_reads := payload_reads d\<rparr>)"
    using img S by (intro disk_good_update_shard [OF good i]) simp_all
  then have good1: "disk_good P ?d1" by simp
  have set_good: "disk_good P (d'\<lparr>payload_reads := rs\<rparr>) = disk_good P d'" for d' rs by (simp add: disk_good_def shard_lo_def shard_hi_def)
  show ?thesis
  proof (cases "res = Inl ChecksumFailed")
    case True
    from remove_if_same_read_ok [OF good1, of k rid] obtain d2 where d2: "remove_if_same_read k rid ?d1 = Some d2" "disk_good P d2"
      "payload_reads d2 = payload_reads d" "shard_of k d2 = ?i" "finished_lookups (cache_metrics d2) = finished_lookups (cache_metrics d)"
      "\<forall>e. entries_by_key (entry_index (cache_shards d2 ! ?i)) k = Some e \<longrightarrow> entries_by_key (entry_index ?sh) k = Some e \<and> shared_read e \<noteq> Some rid"
      by (auto simp: shard_of_def)
    have "reads_ok P xxh (?set d2) k" using d2(4,6) e(1,2) by (auto simp: reads_ok_def shard_of_def)
    moreover have "complete_read xxh admitted oc bc k rid r d = Some (?set d2, Inr res)" using False v True d2(1) by (auto simp: complete_read_def)
    ultimately show ?thesis using set_good d2 True by auto
  next
    case other: False
    have "reads_ok P xxh (?set ?d1) k" using e rr val unfolding reads_ok_def by (auto simp: shard_of_def)
    moreover have "complete_read xxh admitted oc bc k rid r d = Some (?set ?d1, Inr res)" using False v other by (auto simp: complete_read_def)
    ultimately show ?thesis using set_good good1 val by auto
  qed
qed


subsection \<open>Opening\<close>

text \<open>A recovered chain starts at the first chunk of the shard.\<close>

lemma reserve_at_chunk: "reserve_chunks_at n 1 s = Some (s1, r) \<Longrightarrow> fst (chunk_numbers r) = n"
  by (auto simp: reserve_chunks_at_def reserve_chunk_numbers_def Let_def split: option.splits prod.splits)

lemma loaded_chunks_extend:
  assumes "load_metadata_chunks xxh ocs address s f cs = Some y"
  shows "\<exists>ys. snd (snd (snd y)) = cs @ ys \<and> (ys \<noteq> [] \<longrightarrow> fst (chunk_numbers (reserved_chunk (hd ys))) = unat address div CHUNK_BYTES)"
  using assms
proof (induction rule: load_metadata_chunks.raw_induct [rotated, consumes 1, case_names step])
  case (step load xxh ocs address s f cs y)
  obtain a' s' f' cs' where y: "y = (a', s', f', cs')" by (metis surj_pair)
  note 2 = step(1) step(2) [unfolded y]
  have "\<exists>ys. cs' = cs @ ys \<and> (ys \<noteq> [] \<longrightarrow> fst (chunk_numbers (reserved_chunk (hd ys))) = unat address div CHUNK_BYTES)"
  proof (cases "cs' = cs")
    case False
    obtain s1 r where r: "reserve_chunks_at (unat address div CHUNK_BYTES) 1 s = Some (s1, r)"
      using 2 False by (auto split: if_splits option.splits)
    obtain f1 bytes where rd: "read_at (ocs 0) (unat address) CHUNK_BYTES f = (f1, Inr bytes)" "\<not> list_all (\<lambda>b. b = 0) bytes"
      using 2 False r by (auto split: if_splits option.splits prod.splits sum.splits)
    obtain dm2 r2 chunk nxt where m: "mark_recovered (fst s1) r = (dm2, r2)" "decode_metadata_chunk xxh r2 bytes = (chunk, nxt)" by fastforce
    have c: "fst (chunk_numbers (reserved_chunk chunk)) = unat address div CHUNK_BYTES"
      using reserve_at_chunk [OF r] m by (auto simp: mark_recovered_def decode_metadata_chunk_def Let_def)
    show ?thesis
    proof (cases nxt)
      case None
      then have "cs' = cs @ [chunk]" using 2(2) r rd m False by (auto split: if_splits)
      then show ?thesis using c by simp
    next
      case (Some a)
      then have "load xxh (\<lambda>n. ocs (Suc n)) a (dm2, snd s1) f1 (cs @ [chunk]) = Some (a', s', f', cs')" using 2(2) r rd m False by (auto split: if_splits)
      from 2(1) [OF this] obtain ys where "cs' = (cs @ [chunk]) @ ys" by auto
      then show ?thesis using c by (intro exI [of _ "chunk # ys"]) simp
    qed
  qed simp
  then show ?case by (simp add: y)
qed

lemma recover_slot_frame:
  assumes "recover_slot n i loc ((dm, sh), c, b) = Some ((dm', sh'), c', b')"
  shows "map reserved_chunk (chunks (metadata_pages sh')) = map reserved_chunk (chunks (metadata_pages sh)) \<and> small_entry_buffer sh' = small_entry_buffer sh"
  using assms
  by (auto simp: recover_slot_def insert_entry_def remove_entry_absent map_reserved_set_slot Let_def split: option.splits if_splits)

lemma recover_slots_frame:
  "recover_slots n i locs ((dm, sh), c, b) = Some ((dm', sh'), c', b') \<Longrightarrow>
    map reserved_chunk (chunks (metadata_pages sh')) = map reserved_chunk (chunks (metadata_pages sh)) \<and> small_entry_buffer sh' = small_entry_buffer sh"
proof (induction locs arbitrary: dm sh c b)
  case (Cons loc locs)
  then obtain dm1 sh1 c1 b1 where s: "recover_slot n i loc ((dm, sh), c, b) = Some ((dm1, sh1), c1, b1)"
    "recover_slots n i locs ((dm1, sh1), c1, b1) = Some ((dm', sh'), c', b')" by (auto split: option.splits)
  then show ?case using Cons.IH [OF s(2)] recover_slot_frame [OF s(1)] by simp
qed simp

lemma recovered_shard_ok:
  assumes new: "unrecovered lo hi {#} sh" and lo: "lo = fst (shard_disk_range (capacity f) num_shards i) div CHUNK_BYTES"
    and lim: "fst (shard_disk_range (capacity f) num_shards i) < u64_limit"
  shows "\<exists>f' dm' sh'. recover_shard xxh ocs num_shards i (f, dm, sh) = Some (f', dm', sh') \<and> shard_ok False lo hi {#} sh'
    \<and> image f' = image f \<and> capacity f' = capacity f \<and> small_entry_buffer sh' = small_entry_buffer sh"
proof -
  let ?start = "fst (shard_disk_range (capacity f) num_shards i)"
  from recover_shard_ok [OF new, of xxh ocs num_shards i f dm] obtain f' dm' sh' s m where
    r: "recover_shard xxh ocs num_shards i (f, dm, sh) = Some (f', dm', sh')" "shard_inv lo hi {#} sh'" "image f' = image f"
    and l: "load_metadata_chain xxh ocs (of_nat ?start) (dm, allocator sh) f = Some (s, f', m)" by blast
  have al: "alloc_inv lo hi {#} (snd (dm, allocator sh))" "payload_chunks (allocator sh) = Map.empty" using new by (simp_all add: unrecovered_def)
  have L: "capacity f' = capacity f" "payload_chunks (snd s) = Map.empty"
    using load_metadata_chain_ok [OF al(1), of xxh ocs "of_nat ?start" f] l al(2) by auto
  obtain dm1 a1 where s: "s = (dm1, a1)" by (cases s)
  obtain dm2 sh2 n b where rs: "recover_slots num_shards i (slot_locations (length (chunks m))) ((dm1, sh\<lparr>allocator := a1, metadata_pages := m\<rparr>), 0, 0)
      = Some ((dm2, sh2), n, b)" and sh': "sh' = sh2\<lparr>metadata_pages := reset_free_slots (metadata_pages sh2)\<rparr>"
    using r(1) l s by (auto simp: recover_shard_def Let_def split: option.splits prod.splits)
  note F = recover_slots_frame [OF rs]
  have reserved: "map reserved_chunk (chunks (metadata_pages sh')) = map reserved_chunk (chunks m)" using F by (simp add: sh' reset_free_slots_def)
  have "unat (of_nat ?start :: u64) = ?start" using lim by (simp add: unat_of_nat u64_limit_def)
  moreover obtain a cs where ld: "load_metadata_chunks xxh ocs (of_nat ?start) (dm, allocator sh) f [] = Some (a, s, f', cs)"
    and m: "m = (if a \<noteq> NO_CHUNK then set_last_chunk_link NO_CHUNK (default_metadata_chunks\<lparr>chunks := cs\<rparr>) else default_metadata_chunks\<lparr>chunks := cs\<rparr>)"
    using l by (auto simp: load_metadata_chain_def Let_def split: option.splits)
  ultimately have hd: "cs \<noteq> [] \<longrightarrow> fst (chunk_numbers (reserved_chunk (hd cs))) = lo" using loaded_chunks_extend [OF ld] by (simp add: lo)
  have "map reserved_chunk (chunks (set_last_chunk_link a m)) = map reserved_chunk (chunks m)" for a m by (rule map_set_last_chunk_link) simp
  then have cs: "map reserved_chunk (chunks m) = map reserved_chunk cs" by (simp add: m default_metadata_chunks_def)
  have "head_ok lo {#} sh'"
  proof (cases cs)
    case Nil
    then have "chunks m = []" using cs by simp
    then have "sh2 = sh\<lparr>allocator := a1, metadata_pages := m\<rparr>" using rs by (simp add: slot_locations_def)
    then have "payload_chunks (allocator sh') = Map.empty" using L(2) s by (simp add: sh')
    then show ?thesis using reserved cs Nil by (simp add: head_ok_def)
  next
    case (Cons c cs')
    then show ?thesis using reserved cs hd by (simp add: head_ok_def)
  qed
  then show ?thesis using r L(1) F by (auto simp: shard_ok_def sh')
qed

lemma new_shards_nth:
  "new_shards cap n is dm = (dm', shs) \<Longrightarrow> length shs = length is \<and>
    (\<forall>j < length is. \<exists>dm0. shs ! j = snd (new_disk_cache_shard (shard_disk_range cap n (is ! j)) dm0))"
proof (induction "is" arbitrary: dm dm' shs)
  case (Cons i "is")
  obtain dm1 sh where s: "new_disk_cache_shard (shard_disk_range cap n i) dm = (dm1, sh)" by fastforce
  obtain dm2 shs' where t: "new_shards cap n is dm1 = (dm2, shs')" by fastforce
  have shs: "shs = sh # shs'" using Cons.prems s t by simp
  show ?case
  proof (intro conjI allI impI)
    show "length shs = length (i # is)" using Cons.IH [OF t] shs by simp
    fix j assume "j < length (i # is)"
    then show "\<exists>dm0. shs ! j = snd (new_disk_cache_shard (shard_disk_range cap n ((i # is) ! j)) dm0)"
      using Cons.IH [OF t] shs s by (cases j) (auto, metis snd_conv)
  qed
qed simp

definition fresh_shard :: "disk_cache_inner \<Rightarrow> nat \<Rightarrow> bool" where
  "fresh_shard d j \<longleftrightarrow> unrecovered (shard_lo d j) (shard_hi d j) {#} (cache_shards d ! j) \<and> small_entry_buffer (cache_shards d ! j) = new_small_entry_buffer"

definition recovered_shard :: "disk_cache_inner \<Rightarrow> nat \<Rightarrow> bool" where
  "recovered_shard d j \<longleftrightarrow> shard_ok False (shard_lo d j) (shard_hi d j) {#} (cache_shards d ! j) \<and> small_entry_buffer (cache_shards d ! j) = new_small_entry_buffer"

lemma recover_shards_ok:
  assumes "distinct is" and "\<forall>j \<in> set is. j < length (cache_shards d) \<and> fresh_shard d j"
    and "\<forall>j < length (cache_shards d). fst (shard_disk_range (capacity (cache_file d)) (length (cache_shards d)) j) < u64_limit"
    and "\<forall>j < length (cache_shards d). j \<notin> set is \<longrightarrow> recovered_shard d j"
  shows "\<exists>d'. recover_shards xxh ocs is d = Some d' \<and> (\<forall>j < length (cache_shards d). recovered_shard d' j) \<and> length (cache_shards d') = length (cache_shards d)
    \<and> capacity (cache_file d') = capacity (cache_file d) \<and> reclaim_sample_size d' = reclaim_sample_size d \<and> payload_reads d' = payload_reads d"
  using assms
proof (induction "is" arbitrary: d)
  case (Cons i "is")
  let ?n = "length (cache_shards d)"
  have i: "i < ?n" "fresh_shard d i" using Cons.prems(2) by simp_all
  from recovered_shard_ok [of "shard_lo d i" "shard_hi d i" "cache_shards d ! i" "cache_file d" ?n i xxh "ocs i" "cache_metrics d"] i Cons.prems(3)
  obtain f' dm' sh' where r: "recover_shard xxh (ocs i) ?n i (cache_file d, cache_metrics d, cache_shards d ! i) = Some (f', dm', sh')"
    "shard_ok False (shard_lo d i) (shard_hi d i) {#} sh'" "image f' = image (cache_file d)" "capacity f' = capacity (cache_file d)"
    "small_entry_buffer sh' = new_small_entry_buffer" by (auto simp: fresh_shard_def shard_lo_def)
  let ?d = "d\<lparr>cache_file := f', cache_metrics := dm', cache_shards := (cache_shards d)[i := sh']\<rparr>"
  have range: "shard_lo ?d j = shard_lo d j" "shard_hi ?d j = shard_hi d j" for j using r(4) by (simp_all add: shard_lo_def shard_hi_def)
  have "\<forall>j \<in> set is. j < length (cache_shards ?d) \<and> fresh_shard ?d j"
    using Cons.prems(1,2) by (auto simp: fresh_shard_def range nth_list_update)
  moreover have "\<forall>j < length (cache_shards ?d). j \<notin> set is \<longrightarrow> recovered_shard ?d j"
  proof (intro allI impI)
    fix j assume "j < length (cache_shards ?d)" "j \<notin> set is"
    then show "recovered_shard ?d j" using Cons.prems(4) r(2,5) by (cases "j = i") (simp_all add: recovered_shard_def range)
  qed
  ultimately obtain d' where "recover_shards xxh ocs is ?d = Some d'" "\<forall>j < ?n. recovered_shard d' j" "length (cache_shards d') = ?n"
    "capacity (cache_file d') = capacity (cache_file d)" "reclaim_sample_size d' = reclaim_sample_size d" "payload_reads d' = payload_reads d"
    using Cons.IH [of ?d] Cons.prems(1,3) r(4) by auto
  then show ?case using r(1) i(1) by (auto simp: on_shard_def)
qed simp

text \<open>What recovery has found on disk.\<close>

definition found_on_disk :: "disk_cache_inner \<Rightarrow> object_key_hash \<Rightarrow> u64 \<Rightarrow> byte list \<Rightarrow> bool" where
  "found_on_disk d k c b \<longleftrightarrow> (\<exists>i < length (cache_shards d). \<exists>em. entry_metas (cache_shards d ! i) k = Some em
    \<and> c = payload_checksum em \<and> b = stored_payload (cache_file d) em)"

lemma num_shards_bounds:
  assumes "2 * CHUNK_BYTES \<le> cap" and "CHUNK_BYTES dvd cap"
  shows "0 < num_shards_for cap" and "num_shards_for cap \<le> 64" and "num_shards_for cap \<le> cap div CHUNK_BYTES - 1"
proof -
  obtain c where c: "cap = CHUNK_BYTES * c" using assms(2) by (rule dvdE)
  have pos: "0 < CHUNK_BYTES" by (simp add: CHUNK_BYTES_def)
  have c2: "2 \<le> c" using assms(1) c pos by (simp add: mult.commute)
  have "(cap - CHUNK_BYTES) div (128 * CHUNK_BYTES) = (c - 1) div 128"
  proof -
    have "cap - CHUNK_BYTES = (c - 1) * CHUNK_BYTES" using c by (simp add: diff_mult_distrib2 mult.commute)
    then show ?thesis using pos by (simp add: div_mult2_eq [symmetric] mult.commute)
  qed
  moreover have "(c - 1) div 128 \<le> c - 1" by (rule div_le_dividend)
  ultimately have "num_shards_for cap \<le> c - 1" using c2 unfolding num_shards_for_def by linarith
  then show "num_shards_for cap \<le> cap div CHUNK_BYTES - 1" using c pos by simp
qed (simp_all add: num_shards_for_def)

text \<open>Opening fails for an unsupported capacity and when the file or its header cannot be read or written.\<close>

definition opens_cleanly :: "(byte list \<Rightarrow> u64) \<Rightarrow> (string \<Rightarrow> nat \<Rightarrow> io_metrics \<Rightarrow> data_file data_file_result) \<Rightarrow> (nat \<Rightarrow> io_outcome) \<Rightarrow> nat
    \<Rightarrow> disk_cache_options \<Rightarrow> bool" where
  "opens_cleanly xxh open_file header_ocs requested options \<longleftrightarrow> 2 * CHUNK_BYTES \<le> requested \<and> requested \<le> i64_max \<and>
    (let cap = requested div CHUNK_BYTES * CHUNK_BYTES in
     case open_file (opt_file_name options) cap (opt_io_metrics options) of
       Inl _ \<Rightarrow> False
     | Inr f \<Rightarrow> \<exists>f'. clear_incompatible_metadata xxh header_ocs (opt_payload_version options) (num_shards_for cap) f = Some (f', Inr ()))"

lemma open_disk_cache_ok:
  assumes sample: "0 < opt_reclaim_sample_size options"
    and opens: "\<And>name cap m f. open_file name cap m = Inr f \<Longrightarrow> capacity f = cap"
  shows "\<exists>res. open_disk_cache xxh open_file header_ocs recover_ocs requested options = Some res \<and>
    (\<forall>d. res = Inr d \<longrightarrow> disk_good (found_on_disk d) d \<and> payload_reads d = Map.empty \<and>
      capacity (cache_file d) = requested div CHUNK_BYTES * CHUNK_BYTES) \<and>
    (isl res \<longleftrightarrow> \<not> opens_cleanly xxh open_file header_ocs requested options)"
proof (cases "requested < 2 * CHUNK_BYTES \<or> requested > i64_max")
  case True
  then show ?thesis using sample by (auto simp: open_disk_cache_def opens_cleanly_def)
next
  case False
  define cap where "cap = requested div CHUNK_BYTES * CHUNK_BYTES"
  define n where "n = num_shards_for cap"
  have pos: "0 < CHUNK_BYTES" by (simp add: CHUNK_BYTES_def)
  have "2 \<le> requested div CHUNK_BYTES" using False pos by (simp add: less_eq_div_iff_mult_less_eq)
  then have cap: "2 * CHUNK_BYTES \<le> cap" unfolding cap_def by (rule mult_le_mono1)
  have cap': "CHUNK_BYTES dvd cap" "cap \<le> i64_max" using False by (simp_all add: cap_def) (meson div_times_less_eq_dividend le_trans not_less)
  note N = num_shards_bounds [OF cap cap'(1), folded n_def]
  show ?thesis
  proof (cases "open_file (opt_file_name options) cap (opt_io_metrics options)")
    case (Inl e)
    then show ?thesis using sample False by (simp add: open_disk_cache_def opens_cleanly_def flip: cap_def)
  next
    case (Inr f)
    have fcap: "capacity f = cap" by (rule opens [OF Inr])
    from clear_incompatible_metadata_ok [of xxh header_ocs "opt_payload_version options" n f] obtain f1 r where
      h: "clear_incompatible_metadata xxh header_ocs (opt_payload_version options) n f = Some (f1, r)" "capacity f1 = cap" using fcap by auto
    obtain dm shs where ns: "new_shards cap n [0..<n] (opt_metrics options) = (dm, shs)" by fastforce
    let ?d = "\<lparr>cache_file = f1, cache_shards = shs, cache_metrics = dm, reclaim_sample_size = opt_reclaim_sample_size options, payload_reads = Map.empty\<rparr>"
    have len: "length shs = n" using new_shards_nth [OF ns] by simp
    have range: "shard_lo d j = fst (shard_disk_range cap n j) div CHUNK_BYTES" "shard_hi d j = snd (shard_disk_range cap n j) div CHUNK_BYTES"
      if "capacity (cache_file d) = cap" "length (cache_shards d) = n" for d j using that by (simp_all add: shard_lo_def shard_hi_def)
    have bnd: "fst (shard_disk_range cap n j) + CHUNK_BYTES \<le> snd (shard_disk_range cap n j)" "snd (shard_disk_range cap n j) \<le> cap"
      "CHUNK_BYTES dvd fst (shard_disk_range cap n j)" "CHUNK_BYTES dvd snd (shard_disk_range cap n j)" if "j < n" for j
      using shard_range_nonempty [OF N(1,3)] shard_range_bounds [OF N(1) cap that] by auto
    have "fresh_shard ?d j" if j: "j < n" for j
    proof -
      obtain dm0 where sh: "shs ! j = snd (new_disk_cache_shard (shard_disk_range cap n j) dm0)" using new_shards_nth [OF ns] j by auto
      have "fst (shard_disk_range cap n j) < snd (shard_disk_range cap n j)" using bnd(1) [OF j] pos by linarith
      from new_shard_unrecovered [OF bnd(3,4) [OF j] this, of dm0] show ?thesis
        using sh h(2) len by (simp add: fresh_shard_def range) (simp add: new_disk_cache_shard_def split: prod.splits)
    qed
    moreover have "fst (shard_disk_range cap n j) < u64_limit" if "j < n" for j
      using bnd(1,2) [OF that] cap'(2) pos by (simp add: i64_max_def u64_limit_def)
    ultimately obtain d' where d': "recover_shards xxh recover_ocs [0..<n] ?d = Some d'" "\<forall>j < n. recovered_shard d' j" "length (cache_shards d') = n"
      "capacity (cache_file d') = cap" "reclaim_sample_size d' = opt_reclaim_sample_size options" "payload_reads d' = Map.empty"
      using recover_shards_ok [of "[0..<n]" ?d xxh recover_ocs] len h(2) by auto
    have "file_room (shard_lo d' j) (shard_hi d' j) (cache_file d')" if j: "j < n" for j
    proof -
      note B = bnd [OF j]
      have "fst (shard_disk_range cap n j) div CHUNK_BYTES < snd (shard_disk_range cap n j) div CHUNK_BYTES"
        using div_le_mono [OF B(1), of CHUNK_BYTES] pos by simp
      then show ?thesis using B d'(3,4) cap'(2) by (simp add: file_room_def range)
    qed
    then have "disk_good (found_on_disk d') d'"
      using d' N(1) sample cap'(1) by (auto simp: disk_good_def shard_good_def recovered_shard_def payloads_ok_def found_on_disk_def)
    then show ?thesis using sample False Inr h ns d' fcap
      by (cases r) (auto simp: open_disk_cache_def opens_cleanly_def Let_def simp flip: cap_def n_def)
  qed
qed

text \<open>Lookups keep the cache consistent also when nothing is known of the shared reads.\<close>

lemma begin_read_good:
  assumes good: "disk_good P d" and b: "begin_read fresh k d = Some (d1, rid)"
  shows "disk_good P d1" and "payload_reads d1 rid \<noteq> None"
proof -
  let ?i = "shard_of k d" and ?sh = "cache_shards d ! shard_of k d"
  note i = shard_of_less [OF good, of k]
  obtain e where e: "entries_by_key (entry_index ?sh) k = Some e" using b by (auto simp: begin_read_def Let_def split: option.splits)
  let ?x = "share_read fresh e (payload_reads d)"
  have e1: "fst (snd ?x) = e\<lparr>shared_read := Some (fst ?x)\<rparr>" and live: "snd (snd ?x) (fst ?x) \<noteq> None"
    by (auto simp: share_read_def split: option.splits)
  let ?sh1 = "?sh\<lparr>entry_index := (entry_index ?sh)\<lparr>entries_by_key := (entries_by_key (entry_index ?sh))(k \<mapsto> fst (snd ?x))\<rparr>\<rparr>"
  have d1: "d1 = d\<lparr>cache_shards := (cache_shards d)[?i := ?sh1], payload_reads := snd (snd ?x)\<rparr>" "rid = fst ?x"
    using b e by (auto simp: begin_read_def Let_def split: prod.splits)
  have "shard_good False (shard_lo d ?i) (shard_hi d ?i) {#} P (cache_file d) ?sh1"
    using disk_good_shard [OF good i] share_read_shard_ok [OF _ e, of False "shard_lo d ?i" "shard_hi d ?i" "{#}" "Some (fst ?x)"]
    by (auto simp: shard_good_def e1 payloads_ok_def)
  from disk_good_update_shard [OF good i refl refl this, of "snd (snd ?x)" "cache_metrics d"] show "disk_good P d1" by (simp add: d1)
  show "payload_reads d1 rid \<noteq> None" using live by (simp add: d1)
qed

lemma get_good:
  assumes good: "disk_good P d"
  shows "\<exists>d' res. get_with_fallthrough xxh unlocked admitted oc bc fresh elapsed k d = Some (d', res) \<and> disk_good P d'"
proof -
  have rec: "disk_good P (d'\<lparr>cache_metrics := dm\<rparr>) = disk_good P d'" "disk_good P (d'\<lparr>payload_reads := rs\<rparr>) = disk_good P d'" for dm rs d'
    by (simp_all add: disk_good_def shard_lo_def shard_hi_def)
  have complete: "\<exists>d' res. complete_read xxh admitted oc bc k rid r d1 = Some (d', res) \<and> disk_good P d'" if g: "disk_good P d1" for d1 rid r
  proof -
    obtain f1 res where v: "read_and_verify_payload xxh oc bc r (cache_file d1) = (f1, res)" by fastforce
    then have f1: "image f1 = image (cache_file d1)" "capacity f1 = capacity (cache_file d1)"
      by (auto simp: read_and_verify_payload_def read_payload_def measure_io_def split: prod.splits sum.splits if_splits)
    note i = shard_of_less [OF g, of k]
    have "disk_good P (d1\<lparr>cache_file := f1, cache_metrics := cache_metrics d1, cache_shards := (cache_shards d1)[shard_of k d1 := cache_shards d1 ! shard_of k d1],
        payload_reads := payload_reads d1\<rparr>)"
      using f1 disk_good_shard [OF g i] by (intro disk_good_update_shard [OF g i]) simp_all
    then have g1: "disk_good P (d1\<lparr>cache_file := f1\<rparr>)" by simp
    from remove_if_same_read_ok [OF g1, of k rid] obtain d2 where "remove_if_same_read k rid (d1\<lparr>cache_file := f1\<rparr>) = Some d2" "disk_good P d2" by blast
    then show ?thesis using g g1 v rec(2) by (cases "read_result r") (auto simp: complete_read_def Let_def)
  qed
  show ?thesis
  proof (cases "if unlocked then buffered_get k (small_entry_buffer (cache_shards d ! shard_of k d)) else None")
    case (Some bytes)
    then show ?thesis using good rec by (simp add: get_with_fallthrough_def)
  next
    case None
    show ?thesis
    proof (cases "begin_read fresh k d")
      case absent: None
      then show ?thesis using None good rec by (simp add: get_with_fallthrough_def)
    next
      case (Some x)
      obtain d1 rid where x: "x = (d1, rid)" by (cases x)
      note B = begin_read_good [OF good Some [unfolded x]]
      obtain r where r: "payload_reads d1 rid = Some r" using B(2) by auto
      obtain d' res where c: "complete_read xxh admitted oc bc k rid r d1 = Some (d', res)" "disk_good P d'" using complete [OF B(1)] by blast
      show ?thesis
      proof (cases res)
        case (Inl u)
        then show ?thesis using None Some x r c rec by (simp add: get_with_fallthrough_def)
      next
        case (Inr v)
        then show ?thesis using None Some x r c rec by (cases v) (auto simp: get_with_fallthrough_def)
      qed
    qed
  qed
qed

lemma discard_pending_good:
  assumes "disk_good P d" shows "disk_good P (discard_pending d)"
proof -
  let ?step = "\<lambda>i d. let (dm, sh) = discard_buffer (cache_metrics d, cache_shards d ! i) in d\<lparr>cache_metrics := dm, cache_shards := (cache_shards d)[i := sh]\<rparr>"
  have step: "disk_good P (?step i d) \<and> length (cache_shards (?step i d)) = length (cache_shards d)" if g: "disk_good P d" and i: "i < length (cache_shards d)" for i d
  proof -
    let ?sh = "cache_shards d ! i"
    obtain dm sh where s: "discard_buffer (cache_metrics d, ?sh) = (dm, sh)" by fastforce
    then have sh: "sh = ?sh\<lparr>small_entry_buffer := (small_entry_buffer ?sh)\<lparr>buffered_entries := []\<rparr>\<rparr>" by (auto simp: discard_buffer_def Let_def)
    have "shard_good False (shard_lo d i) (shard_hi d i) {#} P (cache_file d) sh"
      using disk_good_shard [OF g i] by (simp add: sh shard_good_def buffer_ok_def buffer_packed_def next_offset_def last_opt_def CHUNK_BYTES_def)
    from disk_good_update_shard [OF g i refl refl this, of "payload_reads d" dm] show ?thesis by (simp add: s)
  qed
  have "\<forall>i \<in> set is. i < length (cache_shards d) \<Longrightarrow> disk_good P d \<Longrightarrow> disk_good P (fold ?step is d)" for "is" d
    using step by (induction "is" arbitrary: d) (simp_all del: split_paired_All)
  then show ?thesis using assms by (simp add: discard_pending_def)
qed

subsection \<open>Examples\<close>

definition example_open_file :: "string \<Rightarrow> nat \<Rightarrow> io_metrics \<Rightarrow> data_file data_file_result" where
  "example_open_file name cap m = Inr (zero_file cap)"

lemma example_opens: "opens_cleanly (\<lambda>_. 0) example_open_file (\<lambda>_. IoOk 0) 3145728 default_disk_cache_options"
proof -
  have n: "num_shards_for 3145728 = 1" by (simp add: num_shards_for_def CHUNK_BYTES_def)
  have "\<exists>f'. clear_incompatible_metadata (\<lambda>_. 0) (\<lambda>_. IoOk 0) 0 1 (zero_file 3145728) = Some (f', Inr ())"
    by (rule header_check_succeeds) (simp_all add: zero_file_def CHUNK_BYTES_def i64_max_def)
  then show ?thesis
    by (simp add: opens_cleanly_def example_open_file_def default_disk_cache_options_def n CHUNK_BYTES_def i64_max_def)
qed

definition example_inner :: disk_cache_inner where
  "example_inner = \<lparr>cache_file = zero_file 3145728, cache_shards = [snd (new_disk_cache_shard (1048576, 3145728) new_disk_metrics)],
    cache_metrics = new_disk_metrics, reclaim_sample_size = 1, payload_reads = Map.empty\<rparr>"

lemma example_inner_good: "disk_good P example_inner" and example_inner_empty: "entries_by_key (entry_index (cache_shards example_inner ! 0)) = Map.empty"
proof -
  let ?sh = "snd (new_disk_cache_shard (1048576, 3145728) new_disk_metrics)"
  have r: "shard_lo example_inner 0 = 1" "shard_hi example_inner 0 = 3"
    by (simp_all add: shard_lo_def shard_hi_def example_inner_def shard_disk_range_def zero_file_def CHUNK_BYTES_def)
  have none: "entries_by_key (entry_index ?sh) = Map.empty" using example_new_shard by (simp add: unrecovered_def new_disk_entry_index_def)
  have "small_entry_buffer ?sh = new_small_entry_buffer" by (simp add: new_disk_cache_shard_def split: prod.splits)
  moreover have "entry_metas ?sh = Map.empty" using none by (simp add: entry_metas_def [abs_def])
  ultimately have "shard_good False 1 3 {#} P (zero_file 3145728) ?sh"
    using unrecovered_shard_ok [OF example_new_shard, of False] by (simp add: shard_good_def payloads_ok_def)
  moreover have "file_room 1 3 (zero_file 3145728)" using example_file_fits by (simp add: file_room_def)
  ultimately show "disk_good P example_inner" using r by (simp add: disk_good_def) (simp add: example_inner_def zero_file_def CHUNK_BYTES_def)
  show "entries_by_key (entry_index (cache_shards example_inner ! 0)) = Map.empty" using none by (simp add: example_inner_def)
qed




end
