(* ===== verification/Write_Queue.thy ===== *)
theory Write_Queue
  imports Disk_Cache
begin

text \<open>
  Background writes, \<open>feuer-storage/src/disk_cache/write_queue.rs\<close>: a bounded queue in front of the disk cache
  and the task that writes its entries in order. \<open>queue_full_at\<close> is the bound of the channel and \<open>now\<close> the
  clock. The locale \<open>bounded_fifo\<close> is the contract of the queue.

  \<open>cache_step\<close> is the disk cache with its queue as a transition system: every call of the interface is a step,
  and a run is any sequence of them.
\<close>

definition MAX_QUEUED_ENTRIES :: nat where
  "MAX_QUEUED_ENTRIES = 512"

record pending_disk_write =
  pending_key :: object_key_hash
  pending_payload :: "byte list"
  entry_metrics :: completion

record write_queue =
  queued :: "pending_disk_write list"
  receiver_closed :: bool

definition empty_queue :: write_queue where
  "empty_queue = \<lparr>queued = [], receiver_closed = False\<rparr>"

definition enqueue_if_space_available ::
  "nat \<Rightarrow> object_key_hash \<Rightarrow> byte list \<Rightarrow> write_queue \<times> disk_metrics \<Rightarrow> write_queue \<times> disk_metrics" where
  "enqueue_if_space_available now k bytes s =
    (let (q, dm) = s in
     if receiver_closed q then (q, record_queue QueueClosed dm)
     else if length (queued q) \<ge> MAX_QUEUED_ENTRIES then (q, record_queue QueueFull dm)
     else
       let dm1 = record_queue Queued dm;
           dm2 = dm1\<lparr>queued_entries := queued_entries dm1 + 1, pending_bytes := pending_bytes dm1 + int (length bytes)\<rparr>
       in (q\<lparr>queued := queued q @ [\<lparr>pending_key = k, pending_payload = bytes,
             entry_metrics = QueuedWriteMetrics (length bytes) (Some now)\<rparr>]\<rparr>, dm2))"

text \<open>\<open>None\<close> where the write has already been dequeued, which panics.\<close>

fun finish_queue_wait :: "nat \<Rightarrow> completion \<times> disk_metrics \<Rightarrow> (completion \<times> disk_metrics) option" where
  "finish_queue_wait now (QueuedWriteMetrics n (Some queued_at), dm) =
    Some (QueuedWriteMetrics n None,
      dm\<lparr>queued_entries := queued_entries dm - 1, queue_duration := queue_duration dm @ [now - queued_at]\<rparr>)"
| "finish_queue_wait now (_, dm) = None"

text \<open>One iteration of \<open>write_queued\<close>; nothing happens while the queue is empty. An error of the write is only
  logged.\<close>

definition write_next_queued ::
  "(object_key_hash \<Rightarrow> nat \<Rightarrow> 's::linorder) \<Rightarrow> (byte list \<Rightarrow> u64) \<Rightarrow> bool \<Rightarrow> (nat \<Rightarrow> io_outcome) \<Rightarrow> nat
    \<Rightarrow> write_queue \<times> disk_cache_inner \<Rightarrow> (write_queue \<times> disk_cache_inner) option" where
  "write_next_queued score xxh unlocked ocs now s =
    (let (q, d) = s in
     case queued q of
       [] \<Rightarrow> Some s
     | w # ws \<Rightarrow>
         (case finish_queue_wait now (entry_metrics w, cache_metrics d) of
            None \<Rightarrow> None
          | Some (guard, dm1) \<Rightarrow>
              map_option (\<lambda>(d1, _). (q\<lparr>queued := ws\<rparr>, d1))
                (disk_write_key score xxh unlocked ocs (pending_key w) (pending_payload w) guard (d\<lparr>cache_metrics := dm1\<rparr>))))"

subsection \<open>A bounded queue\<close>

locale bounded_fifo =
  fixes items :: "'q \<Rightarrow> 'a list"
    and bound :: nat
    and offer :: "'a \<Rightarrow> 'q \<Rightarrow> 'q"
    and take_next :: "'q \<Rightarrow> 'q"
    and open_queue :: "'q \<Rightarrow> bool"
  assumes offer_items: "items (offer x q) = (if open_queue q \<and> length (items q) < bound then items q @ [x] else items q)"
    and take_items: "items (take_next q) = tl (items q)"
    and offer_open: "open_queue (offer x q) = open_queue q"
    and take_open: "open_queue (take_next q) = open_queue q"
begin

lemma bounded: "length (items q) \<le> bound \<Longrightarrow> length (items (offer x q)) \<le> bound"
  by (simp add: offer_items)

text \<open>What has been accepted leaves in order: after accepting \<open>xs\<close> and taking as many as were there before,
  the queue holds \<open>xs\<close>.\<close>

lemma offers_items:
  "open_queue q \<Longrightarrow> length (items q) + length xs \<le> bound \<Longrightarrow> items (fold offer xs q) = items q @ xs"
  by (induction xs arbitrary: q) (simp_all add: offer_items offer_open)

lemma takes_items: "items ((take_next ^^ n) q) = drop n (items q)"
  by (induction n arbitrary: q) (simp_all add: take_items drop_Suc tl_drop)

lemma fifo:
  assumes "open_queue q" and "length (items q) + length xs \<le> bound"
  shows "items ((take_next ^^ length (items q)) (fold offer xs q)) = xs"
  using offers_items [OF assms] by (simp add: takes_items)

end

definition queue_items :: "write_queue \<times> disk_metrics \<Rightarrow> (object_key_hash \<times> byte list) list" where
  "queue_items s = map (\<lambda>w. (pending_key w, pending_payload w)) (queued (fst s))"

interpretation wq: bounded_fifo queue_items MAX_QUEUED_ENTRIES "\<lambda>(k, b). enqueue_if_space_available 0 k b"
  "\<lambda>s. ((fst s)\<lparr>queued := tl (queued (fst s))\<rparr>, snd s)" "\<lambda>s. \<not> receiver_closed (fst s)"
  by unfold_locales (auto simp: queue_items_def enqueue_if_space_available_def map_tl Let_def split: prod.splits)

text \<open>Entries that wait have not been dequeued, and the gauge counts them relative to the rest of the metrics.\<close>

definition queue_ok :: "write_queue \<Rightarrow> bool" where
  "queue_ok q \<longleftrightarrow> length (queued q) \<le> MAX_QUEUED_ENTRIES \<and>
    (\<forall>w \<in> set (queued q). \<exists>t. entry_metrics w = QueuedWriteMetrics (length (pending_payload w)) (Some t))"

lemma queue_ok_enqueue: "queue_ok q \<Longrightarrow> queue_ok (fst (enqueue_if_space_available now k bytes (q, dm)))"
  by (auto simp: queue_ok_def enqueue_if_space_available_def Let_def)

lemma disk_good_metrics [simp]: "disk_good P (d\<lparr>cache_metrics := dm\<rparr>) = disk_good P d"
  by (simp add: disk_good_def shard_lo_def shard_hi_def)

lemma write_next_queued_ok:
  assumes good: "disk_good P d" and q: "queue_ok q"
    and P: "\<forall>w \<in> set (queued q). length (pending_payload w) + 4096 \<le> u64_limit \<and> P (pending_key w) (xxh (pending_payload w)) (pending_payload w)"
  shows "\<exists>d'. write_next_queued score xxh unlocked ocs now (q, d) = Some (q\<lparr>queued := tl (queued q)\<rparr>, d') \<and> disk_good P d'"
proof (cases "queued q")
  case Nil
  then have "q = q\<lparr>queued := tl (queued q)\<rparr>" by simp
  then show ?thesis using good Nil by (auto simp: write_next_queued_def)
next
  case (Cons w ws)
  obtain t where t: "entry_metrics w = QueuedWriteMetrics (length (pending_payload w)) (Some t)" using q Cons by (auto simp: queue_ok_def)
  define dm1 where "dm1 = (cache_metrics d)\<lparr>queued_entries := queued_entries (cache_metrics d) - 1,
    queue_duration := queue_duration (cache_metrics d) @ [now - t]\<rparr>"
  have good1: "disk_good P (d\<lparr>cache_metrics := dm1\<rparr>)" using good by simp
  have w: "length (pending_payload w) + 4096 \<le> u64_limit" "P (pending_key w) (xxh (pending_payload w)) (pending_payload w)" using P Cons by simp_all
  from disk_write_key_ok [where xxh = xxh and P = P, OF good1 w, of score unlocked ocs "QueuedWriteMetrics (length (pending_payload w)) None"] obtain d' r where
    "disk_write_key score xxh unlocked ocs (pending_key w) (pending_payload w) (QueuedWriteMetrics (length (pending_payload w)) None) (d\<lparr>cache_metrics := dm1\<rparr>) = Some (d', r)"
    "disk_good P d'" by blast
  then show ?thesis using Cons t by (simp add: write_next_queued_def dm1_def)
qed

subsection \<open>Runs of the disk cache\<close>

text \<open>\<open>W\<close> holds the payloads that clients write.\<close>

inductive cache_step ::
  "(object_key_hash \<Rightarrow> nat \<Rightarrow> 's::linorder) \<Rightarrow> (byte list \<Rightarrow> u64) \<Rightarrow> (object_key_hash \<times> byte list) set
    \<Rightarrow> write_queue \<times> disk_cache_inner \<Rightarrow> write_queue \<times> disk_cache_inner \<Rightarrow> bool"
  for score xxh W where
  put: "(k, bytes) \<in> W \<Longrightarrow> disk_write_key score xxh unlocked ocs k bytes completion d = Some (d', r) \<Longrightarrow> cache_step score xxh W (q, d) (q, d')"
| batch: "set es \<subseteq> W \<Longrightarrow> insert_batch score xxh unlocked ocss flush_ocs es d = Some (d', r) \<Longrightarrow> cache_step score xxh W (q, d) (q, d')"
| flush: "flush_cache score ocs d = Some (d', r) \<Longrightarrow> cache_step score xxh W (q, d) (q, d')"
| discard: "cache_step score xxh W (q, d) (q, discard_pending d)"
| lookup: "get_with_fallthrough xxh unlocked admitted oc bc fresh elapsed k d = Some (d', res) \<Longrightarrow> cache_step score xxh W (q, d) (q, d')"
| enqueue: "(k, bytes) \<in> W \<Longrightarrow> enqueue_if_space_available now k bytes (q, cache_metrics d) = (q', dm') \<Longrightarrow>
    cache_step score xxh W (q, d) (q', d\<lparr>cache_metrics := dm'\<rparr>)"
| dequeue: "write_next_queued score xxh unlocked ocs now (q, d) = Some (q', d') \<Longrightarrow> cache_step score xxh W (q, d) (q', d')"
| drop_reads: "cache_step score xxh W (q, d) (q, d\<lparr>payload_reads := payload_reads d |` held\<rparr>)"

definition system_ok :: "(object_key_hash \<Rightarrow> u64 \<Rightarrow> byte list \<Rightarrow> bool) \<Rightarrow> (object_key_hash \<times> byte list) set \<Rightarrow> write_queue \<times> disk_cache_inner \<Rightarrow> bool" where
  "system_ok P W s \<longleftrightarrow> disk_good P (snd s) \<and> queue_ok (fst s) \<and> set (map (\<lambda>w. (pending_key w, pending_payload w)) (queued (fst s))) \<subseteq> W"

lemma system_ok_step:
  assumes W: "\<forall>(k, b) \<in> W. length b + 4096 \<le> u64_limit \<and> P k (xxh b) b" and "cache_step score xxh W s s'" and "system_ok P W s"
  shows "system_ok P W s'"
  using assms(2,3)
proof (cases rule: cache_step.cases)
  case (put k bytes unlocked ocs completion d d' r q)
  then have "length bytes + 4096 \<le> u64_limit" "P k (xxh bytes) bytes" using W by auto
  then show ?thesis using disk_write_key_ok [where xxh = xxh and P = P and k = k and bytes = bytes and d = d and score = score and unlocked = unlocked and ocs = ocs and completion = completion]
      put assms(3) by (auto simp: system_ok_def)
next
  case (batch es unlocked ocss flush_ocs d d' r q)
  then have "\<forall>e \<in> set es. length (snd e) + 4096 \<le> u64_limit \<and> P (fst e) (xxh (snd e)) (snd e)" using W by fastforce
  then show ?thesis using insert_batch_ok [where xxh = xxh and P = P and es = es and d = d and score = score and unlocked = unlocked and ocs = ocss and flush_ocs = flush_ocs]
      batch assms(3) by (auto simp: system_ok_def)
next
  case (flush ocs d d' r q)
  then show ?thesis using flush_shards_ok [of P d "[0..<length (cache_shards d)]" score ocs 0] assms(3) by (auto simp: system_ok_def flush_cache_def)
next
  case (discard q d)
  then show ?thesis using assms(3) discard_pending_good by (auto simp: system_ok_def)
next
  case (lookup unlocked admitted oc bc fresh elapsed k d d' res q)
  then show ?thesis using assms(3) get_good [of P d xxh unlocked admitted oc bc fresh elapsed k] by (auto simp: system_ok_def)
next
  case (enqueue k bytes now q d q' dm')
  then have "queue_ok q'" using queue_ok_enqueue [of q now k bytes "cache_metrics d"] assms(3) by (auto simp: system_ok_def)
  moreover have "set (queued q') \<subseteq> set (queued q) \<union> {w. pending_key w = k \<and> pending_payload w = bytes}"
    using enqueue by (auto simp: enqueue_if_space_available_def Let_def split: if_splits)
  ultimately show ?thesis using enqueue assms(3) by (auto simp: system_ok_def)
next
  case (dequeue unlocked ocs now q d q' d')
  have ok: "disk_good P d" "queue_ok q" and sub: "set (map (\<lambda>w. (pending_key w, pending_payload w)) (queued q)) \<subseteq> W"
    using assms(3) dequeue(1) by (simp_all add: system_ok_def)
  have "\<forall>w \<in> set (queued q). length (pending_payload w) + 4096 \<le> u64_limit \<and> P (pending_key w) (xxh (pending_payload w)) (pending_payload w)"
    using W sub by fastforce
  from write_next_queued_ok [where xxh = xxh and P = P and score = score and unlocked = unlocked and ocs = ocs and now = now, OF ok this]
  have "q' = q\<lparr>queued := tl (queued q)\<rparr>" "disk_good P d'" using dequeue by auto
  moreover have "set (tl (queued q)) \<subseteq> set (queued q)" by (cases "queued q") auto
  ultimately show ?thesis using ok(2) sub dequeue by (auto simp: system_ok_def queue_ok_def)
next
  case (drop_reads q d held)
  have "disk_good P (d\<lparr>payload_reads := rs\<rparr>) = disk_good P d" for rs by (simp add: disk_good_def shard_lo_def shard_hi_def)
  then show ?thesis using drop_reads assms(3) by (simp add: system_ok_def)
qed

lemma system_ok_steps:
  "(cache_step score xxh W)\<^sup>*\<^sup>* s s' \<Longrightarrow> \<forall>(k, b) \<in> W. length b + 4096 \<le> u64_limit \<and> P k (xxh b) b \<Longrightarrow> system_ok P W s \<Longrightarrow> system_ok P W s'"
  by (induction rule: rtranclp_induct) (blast intro: system_ok_step)+





end
