(* ===== verification/Buffer_Pool.thy ===== *)
theory Buffer_Pool
  imports Feuer_Prelude
begin

text \<open>
  The aligned buffers and their pool, \<open>feuer-memory/src/buffer.rs\<close>, with the memory-tier metrics of
  \<open>feuer-memory/src/metrics.rs\<close>, on Linux. Backing memory carries its bytes; the pointer, the
  alignment and the release of memory are left out. The allocator and the kernel are a parameter
  (\<open>memory_env\<close>): whether an allocation succeeds, the page size, and \<open>mremap\<close>, which returns the
  remapped pages or fails. \<open>None\<close> is a panic: an index out of bounds, a subtraction below zero or a
  failed \<open>unwrap\<close>.

  The pool is correct when its idle bytes are the capacities of its idle buffers, every idle buffer
  is in the bucket of its capacity, and idle buffers only use what cached objects leave of the
  capacity. The gauges must follow these numbers and the buffers that are checked out.
\<close>

subsection \<open>Memory-tier metrics\<close>

text \<open>The gauges of the two arrays are indexed by bucket.\<close>

record memory_metrics =
  insertions :: nat
  redundant_insertions :: nat
  removals :: nat
  memory_eviction_triggering_insertions :: nat
  memory_used_bytes :: int
  memory_capacity_bytes :: int
  idle_buffer_bytes :: "nat \<Rightarrow> int"
  used_buffer_bytes :: "nat \<Rightarrow> int"
  memory_entries :: int

definition new_memory_metrics :: memory_metrics where
  "new_memory_metrics =
    \<lparr>insertions = 0, redundant_insertions = 0, removals = 0, memory_eviction_triggering_insertions = 0,
     memory_used_bytes = 0, memory_capacity_bytes = 0, idle_buffer_bytes = \<lambda>_. 0,
     used_buffer_bytes = \<lambda>_. 0, memory_entries = 0\<rparr>"

subsection \<open>Buckets\<close>

definition BUFFER_ALIGNMENT :: nat where
  "BUFFER_ALIGNMENT = 4096"

definition MAX_FIXED_BUFFER_BYTES :: nat where
  "MAX_FIXED_BUFFER_BYTES = 64 * 1024 * 1024"

definition BUFFER_SIZES :: "nat list" where
  "BUFFER_SIZES = [4 * 1024, 32 * 1024, 256 * 1024, 512 * 1024, 1024 * 1024, 2 * 1024 * 1024,
    3 * 1024 * 1024, 4 * 1024 * 1024, 8 * 1024 * 1024, 12 * 1024 * 1024, 16 * 1024 * 1024,
    24 * 1024 * 1024, 32 * 1024 * 1024, MAX_FIXED_BUFFER_BYTES]"

definition BUCKET_COUNT :: nat where
  "BUCKET_COUNT = length BUFFER_SIZES + 1"

text \<open>\<open>partition_point\<close> of an ordered array: the number of leading elements that satisfy the predicate.\<close>

definition partition_point :: "('a \<Rightarrow> bool) \<Rightarrow> 'a list \<Rightarrow> nat" where
  "partition_point p xs = length (takeWhile p xs)"

definition bucket_index :: "nat \<Rightarrow> nat" where
  "bucket_index len = partition_point (\<lambda>size. size < len) BUFFER_SIZES"

definition allocation_capacity :: "nat \<Rightarrow> nat" where
  "allocation_capacity len =
    (case vec_get BUFFER_SIZES (bucket_index len) of Some sz \<Rightarrow> sz | None \<Rightarrow> len)"

lemma partition_point_iff:
  assumes "sorted xs"
  shows "i < partition_point (\<lambda>x. x < l) xs \<longleftrightarrow> i < length xs \<and> xs ! i < (l :: 'a::linorder)"
  using assms
proof (induction xs arbitrary: i)
  case (Cons a xs)
  show ?case
  proof (cases "a < l")
    case True
    then show ?thesis using Cons by (cases i) (auto simp: partition_point_def)
  next
    case False
    then have "\<not> (a # xs) ! i < l" if "i < Suc (length xs)"
      using Cons.prems that by (cases i) (auto simp: not_less intro: order_trans)
    then show ?thesis using False by (auto simp: partition_point_def)
  qed
qed (simp add: partition_point_def)

lemma sorted_BUFFER_SIZES: "sorted BUFFER_SIZES"
  by (simp add: BUFFER_SIZES_def MAX_FIXED_BUFFER_BYTES_def)

lemma bucket_index_iff: "i < bucket_index len \<longleftrightarrow> i < length BUFFER_SIZES \<and> BUFFER_SIZES ! i < len"
  unfolding bucket_index_def by (rule partition_point_iff [OF sorted_BUFFER_SIZES])

lemma bucket_index_less [simp]: "bucket_index len < BUCKET_COUNT"
  using bucket_index_iff [of "length BUFFER_SIZES" len] by (simp add: BUCKET_COUNT_def)

lemma last_bucket: "bucket_index len = length BUFFER_SIZES \<longleftrightarrow> MAX_FIXED_BUFFER_BYTES < len"
  using bucket_index_iff [of 13 len] bucket_index_less [of len]
  by (auto simp: BUFFER_SIZES_def BUCKET_COUNT_def)

lemma allocation_capacity_ge: "len \<le> allocation_capacity len"
  using bucket_index_iff [of "bucket_index len" len] by (auto simp: allocation_capacity_def vec_get_def)

lemma allocation_capacity_pos: "0 < allocation_capacity len"
proof (cases "bucket_index len < length BUFFER_SIZES")
  case True
  moreover have "0 < BUFFER_SIZES ! i" if "i < length BUFFER_SIZES" for i
    using sorted_nth_mono [OF sorted_BUFFER_SIZES _ that, of 0] by (auto simp: BUFFER_SIZES_def)
  ultimately show ?thesis by (simp add: allocation_capacity_def vec_get_def)
next
  case False
  then have "bucket_index len = length BUFFER_SIZES"
    using bucket_index_less [of len] by (simp add: BUCKET_COUNT_def)
  then show ?thesis using False last_bucket [of len] by (simp add: allocation_capacity_def vec_get_def)
qed

lemma allocation_capacity_cases:
  "if MAX_FIXED_BUFFER_BYTES < len then allocation_capacity len = len
   else allocation_capacity len \<in> set BUFFER_SIZES"
proof (cases "bucket_index len < length BUFFER_SIZES")
  case True
  then show ?thesis using last_bucket [of len] by (auto simp: allocation_capacity_def vec_get_def)
next
  case False
  then have "bucket_index len = length BUFFER_SIZES"
    using bucket_index_less [of len] by (simp add: BUCKET_COUNT_def)
  then show ?thesis using False last_bucket [of len] by (simp add: allocation_capacity_def vec_get_def)
qed

lemma bucket_index_large: "MAX_FIXED_BUFFER_BYTES < len \<Longrightarrow> MAX_FIXED_BUFFER_BYTES < c \<Longrightarrow> bucket_index c = bucket_index len"
  using last_bucket [of len] last_bucket [of c] by linarith

lemma bucket_index_capacity: "bucket_index (allocation_capacity len) = bucket_index len"
proof (cases "bucket_index len < length BUFFER_SIZES")
  case True
  let ?b = "bucket_index len"
  have c: "allocation_capacity len = BUFFER_SIZES ! ?b" using True by (simp add: allocation_capacity_def vec_get_def)
  have "i < bucket_index (allocation_capacity len) \<longleftrightarrow> i < ?b" for i
  proof
    assume "i < ?b"
    then have "BUFFER_SIZES ! i < len" and "i < length BUFFER_SIZES" using bucket_index_iff by blast+
    then show "i < bucket_index (allocation_capacity len)"
      using bucket_index_iff [of i] allocation_capacity_ge [of len] by auto
  next
    assume "i < bucket_index (allocation_capacity len)"
    then have "i < length BUFFER_SIZES" "BUFFER_SIZES ! i < BUFFER_SIZES ! ?b"
      using bucket_index_iff [of i] c by auto
    then show "i < ?b" using sorted_nth_mono [OF sorted_BUFFER_SIZES, of ?b i] by (meson leD not_le_imp_less)
  qed
  then show ?thesis using nat_neq_iff by blast
next
  case False
  then show ?thesis by (simp add: allocation_capacity_def vec_get_def)
qed

text \<open>The capacity of a fresh buffer is the smallest fixed size that holds the length, and the length
  itself above the largest fixed size; a buffer of that capacity belongs to the bucket of the length.\<close>

theorem allocation_capacity_least:
  "len \<le> allocation_capacity len
   \<and> (if len \<le> MAX_FIXED_BUFFER_BYTES
      then List.member BUFFER_SIZES (allocation_capacity len)
        \<and> list_all (\<lambda>sz. sz < len \<or> allocation_capacity len \<le> sz) BUFFER_SIZES
      else allocation_capacity len = len)
   \<and> bucket_index (allocation_capacity len) = bucket_index len
   \<and> bucket_index len < BUCKET_COUNT"
proof -
  have "sz < len \<or> allocation_capacity len \<le> sz" if sz: "sz \<in> set BUFFER_SIZES" for sz
  proof (rule ccontr)
    assume n: "\<not> (sz < len \<or> allocation_capacity len \<le> sz)"
    obtain i where i: "i < length BUFFER_SIZES" "sz = BUFFER_SIZES ! i" using sz by (auto simp: in_set_conv_nth)
    have "\<not> i < bucket_index len" using n unfolding i(2) bucket_index_iff by (simp only: de_Morgan_disj simp_thms)
    moreover have "i < bucket_index (allocation_capacity len)"
      using n i(1) unfolding i(2) bucket_index_iff by (simp only: de_Morgan_disj not_le simp_thms)
    ultimately show False by (simp only: bucket_index_capacity)
  qed
  then have "list_all (\<lambda>sz. sz < len \<or> allocation_capacity len \<le> sz) BUFFER_SIZES"
    by (simp only: list_all_iff) blast
  moreover have "if len \<le> MAX_FIXED_BUFFER_BYTES then List.member BUFFER_SIZES (allocation_capacity len)
      else allocation_capacity len = len"
    using allocation_capacity_cases [of len] by (cases "len \<le> MAX_FIXED_BUFFER_BYTES") (simp_all add: not_le)
  ultimately show ?thesis using allocation_capacity_ge bucket_index_capacity bucket_index_less
    by (cases "len \<le> MAX_FIXED_BUFFER_BYTES") (simp_all only: if_True if_False simp_thms)
qed

subsection \<open>Backing memory\<close>

text \<open>A large buffer's mapping has whole pages, of which the first \<open>large_length\<close> bytes are its memory.\<close>

record large_buffer =
  mapping :: "byte list"
  large_length :: nat

datatype buffer_memory = FixedMemory "byte list" | LargeMemory large_buffer

datatype allocation_error = LengthExceedsLimit | AllocationFailed

record memory_env =
  alloc_succeeds :: "nat \<Rightarrow> bool"
  mremap :: "byte list \<Rightarrow> nat \<Rightarrow> byte list option"
  page_size :: nat

fun memory_capacity :: "buffer_memory \<Rightarrow> nat" where
  "memory_capacity (FixedMemory bs) = length bs"
| "memory_capacity (LargeMemory lb) = large_length lb"

fun memory_bytes :: "buffer_memory \<Rightarrow> byte list" where
  "memory_bytes (FixedMemory bs) = bs"
| "memory_bytes (LargeMemory lb) = take (large_length lb) (mapping lb)"

text \<open>\<open>Layout::from_size_align\<close> accepts sizes whose rounded value stays within \<open>isize\<close>.\<close>

definition buffer_layout :: "nat \<Rightarrow> allocation_error + nat" where
  "buffer_layout cap = (if next_multiple_of cap BUFFER_ALIGNMENT \<le> i64_max then Inr cap else Inl LengthExceedsLimit)"

definition allocate_zeroed_large :: "memory_env \<Rightarrow> nat \<Rightarrow> allocation_error + large_buffer" where
  "allocate_zeroed_large env len =
    (case buffer_layout len of
       Inl e \<Rightarrow> Inl e
     | Inr sz \<Rightarrow> if alloc_succeeds env sz
         then Inr \<lparr>mapping = replicate (next_multiple_of sz (page_size env)) 0, large_length = len\<rparr>
         else Inl AllocationFailed)"

definition resize_for_reuse :: "memory_env \<Rightarrow> nat \<Rightarrow> large_buffer \<Rightarrow> large_buffer \<times> (allocation_error + unit)" where
  "resize_for_reuse env new_capacity lb =
    (let old_capacity = large_length lb in
     if new_capacity \<le> old_capacity \<and> old_capacity - new_capacity < div_ceil new_capacity 10
     then (lb, Inr ())
     else case buffer_layout new_capacity of
       Inl e \<Rightarrow> (lb, Inl e)
     | Inr sz \<Rightarrow>
         (case mremap env (mapping lb) sz of
            None \<Rightarrow> (lb, Inl AllocationFailed)
          | Some resized \<Rightarrow>
              let e = min (next_multiple_of old_capacity (page_size env)) new_capacity
              in (\<lparr>mapping = (if old_capacity < new_capacity
                     then copy_into old_capacity (replicate (e - old_capacity) 0) resized else resized),
                   large_length = new_capacity\<rparr>, Inr ())))"

text \<open>What Linux documents of \<open>mremap\<close> on an anonymous mapping: it keeps the pages that fit and
  appends zeroed pages.\<close>

definition mremap_keeps_pages :: "memory_env \<Rightarrow> bool" where
  "mremap_keeps_pages env \<longleftrightarrow> 0 < page_size env \<and>
    (\<forall>m n m1. mremap env m n = Some m1 \<longrightarrow>
       m1 = take (next_multiple_of n (page_size env)) (m @ replicate (next_multiple_of n (page_size env)) 0))"

definition mapping_ok :: "memory_env \<Rightarrow> large_buffer \<Rightarrow> bool" where
  "mapping_ok env lb \<longleftrightarrow> length (mapping lb) = next_multiple_of (large_length lb) (page_size env)"

lemma length_large_bytes: "mapping_ok env lb \<Longrightarrow> length (memory_bytes (LargeMemory lb)) = large_length lb"
  using next_multiple_of_ge [of "large_length lb" "page_size env"] by (simp add: mapping_ok_def)

lemma allocate_zeroed_large_ok:
  "allocate_zeroed_large env len = Inr lb \<Longrightarrow> mapping_ok env lb \<and> large_length lb = len
    \<and> memory_bytes (LargeMemory lb) = replicate len 0"
  using next_multiple_of_ge [of len "page_size env"]
  by (auto simp: allocate_zeroed_large_def buffer_layout_def mapping_ok_def min_def split: if_splits)

text \<open>The bytes of a grown mapping, with the rest of the last retained page cleared.\<close>

lemma grown_bytes:
  assumes "length m = next_multiple_of old pg" and "old < new" and "0 < pg"
    and r: "r = take (next_multiple_of new pg) (m @ replicate (next_multiple_of new pg) 0)"
    and e: "e = min (next_multiple_of old pg) new"
  shows "length (copy_into old (replicate (e - old) 0) r) = next_multiple_of new pg"
    and "take new (copy_into old (replicate (e - old) 0) r) = take new (take old m @ replicate new (0 :: byte))"
proof -
  have o: "old \<le> next_multiple_of old pg" and n: "new \<le> next_multiple_of new pg"
    by (rule next_multiple_of_ge)+
  have lr: "length r = next_multiple_of new pg" using r by simp
  have fits: "old + length (replicate (e - old) (0 :: byte)) \<le> length r"
    using o n assms(2) e lr by simp
  show len: "length (copy_into old (replicate (e - old) 0) r) = next_multiple_of new pg"
    using fits lr by simp
  show "take new (copy_into old (replicate (e - old) 0) r) = take new (take old m @ replicate new (0 :: byte))"
  proof (rule nth_equalityI)
    show "length (take new (copy_into old (replicate (e - old) 0) r)) = length (take new (take old m @ replicate new 0))"
      using len n o assms(1,2) by simp
  next
    fix i assume "i < length (take new (copy_into old (replicate (e - old) 0) r))"
    then have i: "i < new" by simp
    have ri: "i < length r" using i n lr by linarith
    have at: "r ! i = (if i < length m then m ! i else 0)"
    proof -
      have b: "i < next_multiple_of new pg" using ri lr by simp
      have "r ! i = (m @ replicate (next_multiple_of new pg) 0) ! i" unfolding r using b by (rule nth_take)
      also have "\<dots> = (if i < length m then m ! i else 0)"
        using b by (simp add: nth_append less_imp_diff_less)
      finally show ?thesis .
    qed
    show "take new (copy_into old (replicate (e - old) 0) r) ! i = take new (take old m @ replicate new 0) ! i"
    proof (cases "i < old")
      case True
      have "copy_into old (replicate (e - old) 0) r ! i = m ! i"
        using nth_copy_into [OF fits ri] at True o assms(1) by simp
      moreover have "(take old m @ replicate new 0) ! i = m ! i"
        using True o assms(1) by (simp add: nth_append)
      ultimately show ?thesis using i by (simp only: nth_take)
    next
      case False
      have l: "length (take old m) = old" using assms(1) o by simp
      have "copy_into old (replicate (e - old) 0) r ! i = 0"
      proof (cases "i < e")
        case True
        then have "old \<le> i \<and> i < old + length (replicate (e - old) (0 :: byte))" using False by simp
        moreover have "i - old < e - old" using True False by linarith
        then have "replicate (e - old) (0 :: byte) ! (i - old) = 0" by (rule nth_replicate)
        ultimately show ?thesis using nth_copy_into [OF fits ri] by (simp only: if_True simp_thms)
      next
        case e': False
        then have "\<not> i < length m" using e i assms(1) by simp
        then have "r ! i = 0" using at by simp
        moreover have "\<not> i < old + length (replicate (e - old) (0 :: byte))" using e' False by simp
        ultimately show ?thesis using nth_copy_into [OF fits ri] by (simp only: simp_thms if_False)
      qed
      moreover have "(take old m @ replicate new 0) ! i = 0"
      proof -
        have "i - old < new" using i by linarith
        then show ?thesis unfolding nth_append l using False by (simp only: if_False nth_replicate)
      qed
      ultimately show ?thesis using i by (simp only: nth_take)
    qed
  qed
qed

lemma resize_for_reuse_ok:
  assumes env: "mremap_keeps_pages env" and lb: "mapping_ok env lb"
    and r: "resize_for_reuse env new lb = (lb1, Inr ())" and pos: "0 < new"
  shows "mapping_ok env lb1 \<and> new \<le> large_length lb1 \<and> large_length lb1 - new < div_ceil new 10
    \<and> memory_bytes (LargeMemory lb1) =
        take (large_length lb1) (memory_bytes (LargeMemory lb) @ replicate (large_length lb1) 0)"
proof (cases "new \<le> large_length lb \<and> large_length lb - new < div_ceil new 10")
  case True
  then have "lb1 = lb" using r by (simp add: resize_for_reuse_def Let_def)
  then show ?thesis using True lb length_large_bytes [OF lb] by simp
next
  case False
  let ?old = "large_length lb" and ?pg = "page_size env"
  have pg: "0 < ?pg" using env by (simp add: mremap_keeps_pages_def)
  have c: "0 < div_ceil new 10" using pos div_ceil_mult [of 10 new] by (cases "div_ceil new 10") auto
  obtain m1 where m1: "mremap env (mapping lb) new = Some m1"
    and lb1: "lb1 = \<lparr>mapping = (if ?old < new
       then copy_into ?old (replicate (min (next_multiple_of ?old ?pg) new - ?old) 0) m1 else m1), large_length = new\<rparr>"
    using r False by (auto simp: resize_for_reuse_def Let_def buffer_layout_def split: if_splits option.splits)
  have keeps: "m1 = take (next_multiple_of new ?pg) (mapping lb @ replicate (next_multiple_of new ?pg) 0)"
    using env m1 by (simp add: mremap_keeps_pages_def)
  have len: "length (mapping lb) = next_multiple_of ?old ?pg" using lb by (simp add: mapping_ok_def)
  show ?thesis
  proof (cases "?old < new")
    case True
    note g = grown_bytes [OF len True pg keeps refl]
    show ?thesis using g True c by (simp add: lb1 mapping_ok_def)
  next
    case False
    have "new \<le> next_multiple_of new ?pg" and "?old \<le> next_multiple_of ?old ?pg" by (rule next_multiple_of_ge)+
    then have "take new m1 = take new (take ?old (mapping lb) @ replicate new 0)"
      using False len by (simp add: keeps min_def)
    then show ?thesis using False c keeps by (simp add: lb1 mapping_ok_def)
  qed
qed

text \<open>C34: Resizing an idle large buffer keeps its bytes up to the smaller of both capacities and clears
  every byte it adds, including the rest of the last retained page; it leaves less than a tenth of the
  requested capacity spare, and a failed resize changes nothing.\<close>

theorem resize_for_reuse_keeps_bytes:
  assumes "mremap_keeps_pages env" and "mapping_ok env lb" and "0 < new"
  shows "case resize_for_reuse env new lb of
      (lb1, Inl _) \<Rightarrow> lb1 = lb
    | (lb1, Inr _) \<Rightarrow> mapping_ok env lb1 \<and> new \<le> large_length lb1 \<and> large_length lb1 - new < div_ceil new 10
        \<and> memory_bytes (LargeMemory lb1) =
            take (large_length lb1) (memory_bytes (LargeMemory lb) @ replicate (large_length lb1) 0)"
proof (cases "resize_for_reuse env new lb")
  case (Pair lb1 r)
  then show ?thesis using resize_for_reuse_ok [OF assms(1,2) _ assms(3), of lb1]
    by (cases r) (auto simp: resize_for_reuse_def Let_def split: if_splits sum.splits option.splits)
qed

definition example_env :: memory_env where
  "example_env = \<lparr>alloc_succeeds = \<lambda>_. True,
     mremap = (\<lambda>m n. Some (take (next_multiple_of n 4) (m @ replicate (next_multiple_of n 4) 0))),
     page_size = 4\<rparr>"

theorem resize_for_reuse_keeps_bytes_witness:
  "resize_for_reuse example_env 6 \<lparr>mapping = [1, 2, 3, 4], large_length = 3\<rparr>
      = (\<lparr>mapping = [1, 2, 3, 0, 0, 0, 0, 0], large_length = 6\<rparr>, Inr ())
   \<and> memory_bytes (LargeMemory \<lparr>mapping = [1, 2, 3, 0, 0, 0, 0, 0], large_length = 6\<rparr>)
      = take 6 (memory_bytes (LargeMemory \<lparr>mapping = [1, 2, 3, 4], large_length = 3\<rparr>) @ replicate 6 0)"
proof -
  have layout: "buffer_layout 6 = Inr 6"
    by (simp add: buffer_layout_def next_multiple_of_def BUFFER_ALIGNMENT_def i64_max_def)
  have r: "resize_for_reuse example_env 6 \<lparr>mapping = [1, 2, 3, 4], large_length = 3\<rparr>
      = (\<lparr>mapping = [1, 2, 3, 0, 0, 0, 0, 0], large_length = 6\<rparr>, Inr ())"
    unfolding resize_for_reuse_def layout by code_simp
  have "mremap_keeps_pages example_env" and "mapping_ok example_env \<lparr>mapping = [1, 2, 3, 4], large_length = 3\<rparr>"
    by (simp_all add: mremap_keeps_pages_def example_env_def mapping_ok_def next_multiple_of_def)
  from resize_for_reuse_keeps_bytes [OF this, of 6] show ?thesis by (simp only: r) simp
qed

subsection \<open>Buffers\<close>

text \<open>\<open>pooled\<close>: the buffer refers to the pool it was taken from.\<close>

record aligned_buffer =
  memory :: buffer_memory
  exposed_length :: nat
  pooled :: bool

abbreviation buffer_capacity :: "aligned_buffer \<Rightarrow> nat" where
  "buffer_capacity b \<equiv> memory_capacity (memory b)"

definition allocate_zeroed :: "memory_env \<Rightarrow> nat \<Rightarrow> allocation_error + aligned_buffer" where
  "allocate_zeroed env len =
    (if MAX_FIXED_BUFFER_BYTES < len
     then case allocate_zeroed_large env len of
       Inl e \<Rightarrow> Inl e
     | Inr lb \<Rightarrow> Inr \<lparr>memory = LargeMemory lb, exposed_length = len, pooled = False\<rparr>
     else case buffer_layout len of
       Inl e \<Rightarrow> Inl e
     | Inr sz \<Rightarrow> if alloc_succeeds env sz
         then Inr \<lparr>memory = FixedMemory (replicate sz 0), exposed_length = len, pooled = False\<rparr>
         else Inl AllocationFailed)"

definition buffer_bytes :: "aligned_buffer \<Rightarrow> byte list" where
  "buffer_bytes b = take (exposed_length b) (memory_bytes (memory b))"

subsection \<open>The pool\<close>

record buffer_pool =
  pool_capacity :: nat
  pool_used :: nat
  pool_idle :: nat
  idle_buffers :: "aligned_buffer list list"

type_synonym pool_state = "memory_metrics \<times> buffer_pool"

definition new_buffer_pool :: "nat \<Rightarrow> memory_metrics \<Rightarrow> pool_state" where
  "new_buffer_pool cap mm =
    (mm\<lparr>memory_capacity_bytes := memory_capacity_bytes mm + int cap\<rparr>,
     \<lparr>pool_capacity = cap, pool_used = 0, pool_idle = 0, idle_buffers = replicate BUCKET_COUNT []\<rparr>)"

definition unpooled :: pool_state where
  "unpooled = new_buffer_pool 0 new_memory_metrics"

definition decrease_idle_buffer_metrics :: "nat \<Rightarrow> nat \<Rightarrow> memory_metrics \<Rightarrow> memory_metrics" where
  "decrease_idle_buffer_metrics index n mm =
    mm\<lparr>idle_buffer_bytes := (idle_buffer_bytes mm)(index := idle_buffer_bytes mm index - int n),
       memory_used_bytes := memory_used_bytes mm - int n\<rparr>"

definition take_idle_buffer :: "nat \<Rightarrow> pool_state \<Rightarrow> (pool_state \<times> aligned_buffer option) option" where
  "take_idle_buffer index s =
    (let (mm, p) = s in
     if length (idle_buffers p) \<le> index then None
     else if idle_buffers p ! index = [] then Some (s, None)
     else let b = last (idle_buffers p ! index);
              cap = buffer_capacity b
          in if pool_idle p < cap then None
             else Some ((decrease_idle_buffer_metrics index cap mm,
               p\<lparr>pool_idle := pool_idle p - cap,
                 idle_buffers := (idle_buffers p)[index := butlast (idle_buffers p ! index)]\<rparr>), Some b))"

definition allocate_buffer :: "memory_env \<Rightarrow> nat \<Rightarrow> pool_state \<Rightarrow> (pool_state \<times> (allocation_error + aligned_buffer)) option" where
  "allocate_buffer env len s =
    (let index = bucket_index len; cap = allocation_capacity len in
     case take_idle_buffer index s of
       None \<Rightarrow> None
     | Some ((mm, p), idle) \<Rightarrow>
         if cap = 0 then None
         else let taken = (case idle of
             Some b \<Rightarrow> (case memory b of
                 LargeMemory lb \<Rightarrow> (case resize_for_reuse env cap lb of
                     (_, Inl e) \<Rightarrow> Inl e
                   | (lb1, Inr _) \<Rightarrow> Inr (b\<lparr>memory := LargeMemory lb1\<rparr>))
               | FixedMemory _ \<Rightarrow> Inr b)
           | None \<Rightarrow> allocate_zeroed env cap)
         in case taken of
             Inl e \<Rightarrow> Some ((mm, p), Inl e)
           | Inr b \<Rightarrow>
               let b1 = b\<lparr>exposed_length := len, pooled := True\<rparr>
               in Some ((mm\<lparr>used_buffer_bytes := (used_buffer_bytes mm)
                     (index := used_buffer_bytes mm index + int (buffer_capacity b1))\<rparr>, p), Inr b1))"

text \<open>\<open>AlignedBuffer::drop\<close>. The pool is \<open>None\<close> when it is gone.\<close>

definition drop_aligned_buffer :: "aligned_buffer \<Rightarrow> memory_metrics \<times> buffer_pool option
    \<Rightarrow> (memory_metrics \<times> buffer_pool option) option" where
  "drop_aligned_buffer b s =
    (let (mm, po) = s in
     if pooled b
     then let index = bucket_index (buffer_capacity b);
              cap = buffer_capacity b;
              mm1 = mm\<lparr>used_buffer_bytes := (used_buffer_bytes mm)(index := used_buffer_bytes mm index - int cap)\<rparr>
          in case po of
               None \<Rightarrow> Some (mm1, None)
             | Some p \<Rightarrow>
                 let idle_limit = pool_capacity p - pool_used p
                 in if pool_idle p + cap \<le> idle_limit
                    then if length (idle_buffers p) \<le> index then None
                      else Some (mm1\<lparr>idle_buffer_bytes := (idle_buffer_bytes mm1)
                              (index := idle_buffer_bytes mm1 index + int cap),
                            memory_used_bytes := memory_used_bytes mm1 + int cap\<rparr>,
                         Some (p\<lparr>idle_buffers := (idle_buffers p)[index :=
                                idle_buffers p ! index @ [b\<lparr>pooled := False\<rparr>]],
                              pool_idle := pool_idle p + cap\<rparr>))
                    else Some (mm1, po)
     else Some s)"

definition pool_used_bytes :: "buffer_pool \<Rightarrow> nat" where
  "pool_used_bytes p = pool_used p + pool_idle p"

lemma take_idle_buffer_shrinks:
  "take_idle_buffer index s = Some (s1, Some b) \<Longrightarrow>
    length (idle_buffers (snd s1) ! index) < length (idle_buffers (snd s) ! index)"
  by (auto simp: take_idle_buffer_def Let_def split: prod.splits if_splits)

text \<open>The loop of \<open>add_used_bytes\<close> over one bucket, and over all buckets from the largest.\<close>

function free_bucket :: "nat \<Rightarrow> nat \<Rightarrow> pool_state \<Rightarrow> pool_state option" where
  "free_bucket remaining_capacity index s =
    (if remaining_capacity < pool_idle (snd s)
     then case take_idle_buffer index s of
       None \<Rightarrow> None
     | Some (s1, None) \<Rightarrow> Some s1
     | Some (s1, Some _) \<Rightarrow> free_bucket remaining_capacity index s1
     else Some s)"
  by pat_completeness auto

termination
  by (relation "measure (\<lambda>(_, index, s). length (idle_buffers (snd s) ! index))")
    (auto dest: take_idle_buffer_shrinks)

declare free_bucket.simps [simp del]

fun free_buckets :: "nat \<Rightarrow> nat list \<Rightarrow> pool_state \<Rightarrow> pool_state option" where
  "free_buckets remaining_capacity [] s = Some s"
| "free_buckets remaining_capacity (index # rest) s =
    (case free_bucket remaining_capacity index s of
       None \<Rightarrow> None
     | Some s1 \<Rightarrow> free_buckets remaining_capacity rest s1)"

definition add_used_bytes :: "nat \<Rightarrow> pool_state \<Rightarrow> pool_state option" where
  "add_used_bytes n s =
    (let (mm, p) = s;
         p1 = p\<lparr>pool_used := pool_used p + n\<rparr>;
         mm1 = mm\<lparr>memory_used_bytes := memory_used_bytes mm + int n\<rparr>
     in free_buckets (pool_capacity p1 - pool_used p1) (rev [0..<BUCKET_COUNT]) (mm1, p1))"

definition remove_used_bytes :: "nat \<Rightarrow> pool_state \<Rightarrow> pool_state option" where
  "remove_used_bytes n s =
    (let (mm, p) = s in
     if pool_used p < n then None
     else Some (mm\<lparr>memory_used_bytes := memory_used_bytes mm - int n\<rparr>, p\<lparr>pool_used := pool_used p - n\<rparr>))"

definition bucket_bytes :: "aligned_buffer list \<Rightarrow> nat" where
  "bucket_bytes bs = sum_list (map buffer_capacity bs)"

fun drop_buckets :: "nat \<Rightarrow> aligned_buffer list list \<Rightarrow> memory_metrics \<Rightarrow> memory_metrics" where
  "drop_buckets index [] mm = mm"
| "drop_buckets index (bs # rest) mm =
    drop_buckets (Suc index) rest (decrease_idle_buffer_metrics index (bucket_bytes bs) mm)"

definition drop_buffer_pool :: "pool_state \<Rightarrow> memory_metrics" where
  "drop_buffer_pool s =
    (let (mm, p) = s; mm1 = drop_buckets 0 (idle_buffers p) mm
     in mm1\<lparr>memory_capacity_bytes := memory_capacity_bytes mm1 - int (pool_capacity p)\<rparr>)"

subsection \<open>Invariant of the pool\<close>

text \<open>Pooled buffers are fixed buffers of one of the fixed sizes, or large mappings.\<close>

definition buffer_ok :: "memory_env \<Rightarrow> aligned_buffer \<Rightarrow> bool" where
  "buffer_ok env b = (case memory b of
     FixedMemory bs \<Rightarrow> List.member BUFFER_SIZES (length bs)
   | LargeMemory lb \<Rightarrow> MAX_FIXED_BUFFER_BYTES < large_length lb \<and> mapping_ok env lb)"

text \<open>\<open>checked_out\<close> lists the pooled buffers in use.\<close>

definition gauges_ok :: "aligned_buffer list \<Rightarrow> pool_state \<Rightarrow> bool" where
  "gauges_ok checked_out s =
    (let (mm, p) = s in
     memory_used_bytes mm = int (pool_used p + pool_idle p)
     \<and> (\<forall>i < BUCKET_COUNT. idle_buffer_bytes mm i = int (bucket_bytes (idle_buffers p ! i)))
     \<and> (\<forall>i. used_buffer_bytes mm i = int (bucket_bytes (filter (\<lambda>b. bucket_index (buffer_capacity b) = i) checked_out)))
     \<and> memory_capacity_bytes mm = int (pool_capacity p))"

definition pool_core :: "memory_env \<Rightarrow> buffer_pool \<Rightarrow> bool" where
  "pool_core env p \<longleftrightarrow> length (idle_buffers p) = BUCKET_COUNT
    \<and> (\<forall>i < BUCKET_COUNT. \<forall>b \<in> set (idle_buffers p ! i).
        bucket_index (buffer_capacity b) = i \<and> \<not> pooled b \<and> buffer_ok env b)
    \<and> pool_idle p = sum_list (map bucket_bytes (idle_buffers p))"

definition pool_ok :: "memory_env \<Rightarrow> aligned_buffer list \<Rightarrow> pool_state \<Rightarrow> bool" where
  "pool_ok env checked_out s \<longleftrightarrow> pool_core env (snd s) \<and> gauges_ok checked_out s
    \<and> pool_idle (snd s) \<le> pool_capacity (snd s) - pool_used (snd s)
    \<and> (\<forall>b \<in> set checked_out. pooled b \<and> buffer_ok env b)"

text \<open>The parts of the metrics the pool does not touch.\<close>

definition counters :: "memory_metrics \<Rightarrow> nat \<times> nat \<times> nat \<times> nat \<times> int" where
  "counters mm = (insertions mm, redundant_insertions mm, removals mm,
     memory_eviction_triggering_insertions mm, memory_entries mm)"

lemma bucket_bytes_simps [simp]:
  "bucket_bytes [] = 0" "bucket_bytes (b # bs) = buffer_capacity b + bucket_bytes bs"
  "bucket_bytes (as @ bs) = bucket_bytes as + bucket_bytes bs"
  by (simp_all add: bucket_bytes_def)

lemma bucket_le_idle:
  assumes "pool_core env p" and "i < BUCKET_COUNT"
  shows "bucket_bytes (idle_buffers p ! i) \<le> pool_idle p"
  using assms member_le_sum_list [of "bucket_bytes (idle_buffers p ! i)" "map bucket_bytes (idle_buffers p)"]
  by (simp add: pool_core_def)

lemma take_idle_buffer_ok:
  assumes core: "pool_core env (snd s)" and g: "gauges_ok out s" and i: "index < BUCKET_COUNT"
  obtains (empty) "take_idle_buffer index s = Some (s, None)" and "idle_buffers (snd s) ! index = []"
  | (taken) s1 b bs where "take_idle_buffer index s = Some (s1, Some b)"
      and "idle_buffers (snd s) ! index = bs @ [b]" and "pool_core env (snd s1)" and "gauges_ok out s1"
      and "pool_idle (snd s) = pool_idle (snd s1) + buffer_capacity b"
      and "idle_buffers (snd s1) = (idle_buffers (snd s))[index := bs]"
      and "pool_used (snd s1) = pool_used (snd s)" and "pool_capacity (snd s1) = pool_capacity (snd s)"
      and "counters (fst s1) = counters (fst s)"
proof -
  obtain mm p where s: "s = (mm, p)" by (cases s)
  have len: "length (idle_buffers p) = BUCKET_COUNT" using core s by (simp add: pool_core_def)
  show ?thesis
  proof (cases "idle_buffers p ! index" rule: rev_cases)
    case Nil
    then show ?thesis using empty s i len by (simp add: take_idle_buffer_def Let_def)
  next
    case (snoc bs b)
    let ?cap = "buffer_capacity b"
    let ?p = "p\<lparr>pool_idle := pool_idle p - ?cap, idle_buffers := (idle_buffers p)[index := bs]\<rparr>"
    let ?s = "(decrease_idle_buffer_metrics index ?cap mm, ?p)"
    have le: "?cap \<le> pool_idle p" using bucket_le_idle [OF core i] s snoc by simp
    have t: "take_idle_buffer index s = Some (?s, Some b)"
      using le s i len snoc by (simp add: take_idle_buffer_def Let_def)
    have sum: "sum_list (map bucket_bytes ((idle_buffers p)[index := bs])) + ?cap
        = sum_list (map bucket_bytes (idle_buffers p))"
      using sum_list_update [of index "map bucket_bytes (idle_buffers p)" "bucket_bytes bs"]
        elem_le_sum_list [of index "map bucket_bytes (idle_buffers p)"] i len snoc
      by (simp add: map_update)
    have c: "pool_core env ?p" unfolding pool_core_def
    proof (intro conjI allI impI ballI)
      fix j b' assume j: "j < BUCKET_COUNT" "b' \<in> set (idle_buffers ?p ! j)"
      then have "b' \<in> set (idle_buffers p ! j)" using snoc i len by (cases "j = index") auto
      then show "bucket_index (buffer_capacity b') = j" and "\<not> pooled b'" and "buffer_ok env b'"
        using core s j(1) by (auto simp: pool_core_def)
    qed (use sum core s len in \<open>auto simp: pool_core_def\<close>)
    have "gauges_ok out ?s" using g s snoc i len le
      by (auto simp: gauges_ok_def decrease_idle_buffer_metrics_def nth_list_update)
    then show ?thesis using taken [OF t _ _ _ _ _ _ _ _, of bs] snoc c s le
      by (simp add: counters_def decrease_idle_buffer_metrics_def)
  qed
qed

text \<open>What freeing idle buffers keeps.\<close>

definition freed_from :: "memory_env \<Rightarrow> aligned_buffer list \<Rightarrow> pool_state \<Rightarrow> pool_state \<Rightarrow> bool" where
  "freed_from env out s s1 \<longleftrightarrow> pool_core env (snd s1) \<and> gauges_ok out s1
    \<and> pool_used (snd s1) = pool_used (snd s) \<and> pool_capacity (snd s1) = pool_capacity (snd s)
    \<and> counters (fst s1) = counters (fst s)
    \<and> (\<forall>j < BUCKET_COUNT. idle_buffers (snd s) ! j = [] \<longrightarrow> idle_buffers (snd s1) ! j = [])"

lemma freed_from_trans: "freed_from env out s s1 \<Longrightarrow> freed_from env out s1 s2 \<Longrightarrow> freed_from env out s s2"
  by (simp add: freed_from_def)

lemma free_bucket_stop: "pool_idle (snd s) \<le> remaining \<Longrightarrow> free_bucket remaining index s = Some s"
  by (subst free_bucket.simps) simp

lemma free_bucket_empty:
  "remaining < pool_idle (snd s) \<Longrightarrow> take_idle_buffer index s = Some (s1, None)
    \<Longrightarrow> free_bucket remaining index s = Some s1"
  by (subst free_bucket.simps) simp

lemma free_bucket_step:
  "remaining < pool_idle (snd s) \<Longrightarrow> take_idle_buffer index s = Some (s1, Some b)
    \<Longrightarrow> free_bucket remaining index s = free_bucket remaining index s1"
  by (subst free_bucket.simps) simp

lemma free_bucket_ok:
  assumes "pool_core env (snd s)" and "gauges_ok out s" and "index < BUCKET_COUNT"
  shows "\<exists>s1. free_bucket remaining index s = Some s1 \<and> freed_from env out s s1
    \<and> (pool_idle (snd s1) \<le> remaining \<or> idle_buffers (snd s1) ! index = [])"
  using assms
proof (induction remaining index s rule: free_bucket.induct)
  case (1 remaining index s)
  show ?case
  proof (cases "remaining < pool_idle (snd s)")
    case False
    then have "free_bucket remaining index s = Some s" by (simp add: free_bucket_stop)
    then show ?thesis using 1(2,3) False by (simp add: freed_from_def)
  next
    case True
    show ?thesis using 1(2-4)
    proof (cases rule: take_idle_buffer_ok)
      case empty
      then show ?thesis using 1(2,3) free_bucket_empty [OF True empty(1)] by (simp add: freed_from_def)
    next
      case (taken s1 b bs)
      have "length (idle_buffers (snd s)) = BUCKET_COUNT" using 1(2) by (simp add: pool_core_def)
      then have f: "freed_from env out s s1" using taken 1(4)
        by (auto simp: freed_from_def nth_list_update)
      have "free_bucket remaining index s = free_bucket remaining index s1"
        by (rule free_bucket_step [OF True taken(1)])
      then show ?thesis
        using 1(1) [OF True taken(1) refl refl taken(3,4) 1(4)] freed_from_trans [OF f] by auto
    qed
  qed
qed

lemma free_buckets_ok:
  assumes "pool_core env (snd s)" and "gauges_ok out s" and "\<forall>i \<in> set is. i < BUCKET_COUNT"
  shows "\<exists>s1. free_buckets remaining is s = Some s1 \<and> freed_from env out s s1
    \<and> (pool_idle (snd s1) \<le> remaining \<or> (\<forall>i \<in> set is. idle_buffers (snd s1) ! i = []))"
  using assms
proof (induction "is" arbitrary: s)
  case Nil
  then show ?case by (simp add: freed_from_def)
next
  case (Cons i rest)
  obtain s1 where s1: "free_bucket remaining i s = Some s1" "freed_from env out s s1"
      "pool_idle (snd s1) \<le> remaining \<or> idle_buffers (snd s1) ! i = []"
    using free_bucket_ok [OF Cons.prems(1,2), of i remaining] Cons.prems(3) by auto
  have "pool_core env (snd s1)" "gauges_ok out s1" using s1(2) by (auto simp: freed_from_def)
  then obtain s2 where s2: "free_buckets remaining rest s1 = Some s2" "freed_from env out s1 s2"
      "pool_idle (snd s2) \<le> remaining \<or> (\<forall>i \<in> set rest. idle_buffers (snd s2) ! i = [])"
    using Cons.IH [of s1] Cons.prems(3) by auto
  have "pool_idle (snd s2) \<le> remaining \<or> idle_buffers (snd s2) ! i = []"
  proof (cases "pool_idle (snd s1) \<le> remaining")
    case True
    then have "free_buckets remaining is' s1 = Some s1" for is'
      by (induction is') (simp_all add: free_bucket_stop)
    then show ?thesis using s2(1) True by auto
  next
    case False
    then show ?thesis using s1(3) s2(2) Cons.prems(3) by (auto simp: freed_from_def)
  qed
  then show ?case using s1(1) s2 freed_from_trans [OF s1(2) s2(2)] by auto
qed

lemma add_used_bytes_ok:
  assumes "pool_ok env out (mm, p)"
  shows "\<exists>mm1 p1. add_used_bytes n (mm, p) = Some (mm1, p1) \<and> pool_ok env out (mm1, p1)
    \<and> pool_used p1 = pool_used p + n \<and> pool_capacity p1 = pool_capacity p \<and> counters mm1 = counters mm"
proof -
  let ?s = "(mm\<lparr>memory_used_bytes := memory_used_bytes mm + int n\<rparr>, p\<lparr>pool_used := pool_used p + n\<rparr>)"
  let ?r = "pool_capacity p - (pool_used p + n)"
  have c: "pool_core env (snd ?s)" and g: "gauges_ok out ?s"
    using assms by (auto simp: pool_ok_def pool_core_def gauges_ok_def)
  obtain mm1 p1 where s1: "free_buckets ?r (rev [0..<BUCKET_COUNT]) ?s = Some (mm1, p1)"
      "freed_from env out ?s (mm1, p1)"
      "pool_idle p1 \<le> ?r \<or> (\<forall>i < BUCKET_COUNT. idle_buffers p1 ! i = [])"
    using free_buckets_ok [OF c g, of "rev [0..<BUCKET_COUNT]" ?r] by auto
  have core: "pool_core env p1" using s1(2) by (simp add: freed_from_def)
  have "pool_idle p1 \<le> ?r"
  proof (cases "\<forall>i < BUCKET_COUNT. idle_buffers p1 ! i = []")
    case True
    then have "\<forall>x \<in> set (idle_buffers p1). x = []" using core by (auto simp: pool_core_def in_set_conv_nth)
    then have "\<forall>x \<in> set (map bucket_bytes (idle_buffers p1)). x = 0" by auto
    then have "sum_list (map bucket_bytes (idle_buffers p1)) = 0" by (simp only: sum_list_eq_0_iff)
    moreover have "pool_idle p1 = sum_list (map bucket_bytes (idle_buffers p1))" using core by (simp only: pool_core_def)
    ultimately show ?thesis by linarith
  next
    case False
    then show ?thesis using s1(3) by blast
  qed
  then show ?thesis using s1(1,2) assms
    by (auto simp: add_used_bytes_def pool_ok_def freed_from_def counters_def)
qed

lemma remove_used_bytes_ok:
  assumes "pool_ok env out (mm, p)" and "n \<le> pool_used p"
  shows "\<exists>mm1 p1. remove_used_bytes n (mm, p) = Some (mm1, p1) \<and> pool_ok env out (mm1, p1)
    \<and> pool_used p1 = pool_used p - n \<and> pool_capacity p1 = pool_capacity p \<and> counters mm1 = counters mm"
  using assms
  by (auto simp: remove_used_bytes_def pool_ok_def pool_core_def gauges_ok_def counters_def)

text \<open>What callers get from \<open>allocate\<close>: a pooled buffer in the bucket of the requested length, with room
  for it and little more.\<close>

definition fits_request :: "memory_env \<Rightarrow> nat \<Rightarrow> aligned_buffer \<Rightarrow> bool" where
  "fits_request env len b \<longleftrightarrow> pooled b \<and> buffer_ok env b \<and> exposed_length b = len
    \<and> allocation_capacity len \<le> buffer_capacity b
    \<and> (if len \<le> MAX_FIXED_BUFFER_BYTES then buffer_capacity b = allocation_capacity len
       else buffer_capacity b - len < div_ceil len 10)
    \<and> bucket_index (buffer_capacity b) = bucket_index len"

lemma buffer_ok_fixed: "memory b = FixedMemory bs \<Longrightarrow> buffer_ok env b \<Longrightarrow> buffer_capacity b \<le> MAX_FIXED_BUFFER_BYTES
    \<and> allocation_capacity (buffer_capacity b) = buffer_capacity b"
proof -
  assume m: "memory b = FixedMemory bs" and ok: "buffer_ok env b"
  then have sz: "buffer_capacity b \<in> set BUFFER_SIZES" by (simp add: buffer_ok_def)
  then have max: "buffer_capacity b \<le> MAX_FIXED_BUFFER_BYTES" by (auto simp: BUFFER_SIZES_def MAX_FIXED_BUFFER_BYTES_def)
  have "allocation_capacity (buffer_capacity b) \<le> buffer_capacity b"
  proof -
    obtain i where i: "i < length BUFFER_SIZES" "buffer_capacity b = BUFFER_SIZES ! i"
      using sz by (auto simp: in_set_conv_nth)
    have "bucket_index (buffer_capacity b) \<le> i"
      using bucket_index_iff [of i "buffer_capacity b"] i(2) by linarith
    then have "BUFFER_SIZES ! bucket_index (buffer_capacity b) \<le> BUFFER_SIZES ! i"
      using sorted_nth_mono [OF sorted_BUFFER_SIZES _ i(1)] by blast
    then show ?thesis using \<open>bucket_index (buffer_capacity b) \<le> i\<close> i
      by (simp add: allocation_capacity_def vec_get_def)
  qed
  then show ?thesis using max allocation_capacity_ge [of "buffer_capacity b"] by simp
qed

lemma allocation_capacity_bucket:
  "bucket_index a = bucket_index b \<Longrightarrow> a \<le> MAX_FIXED_BUFFER_BYTES \<Longrightarrow> allocation_capacity a = allocation_capacity b"
  using last_bucket [of a] bucket_index_less [of b]
  by (auto simp: allocation_capacity_def vec_get_def BUCKET_COUNT_def)

text \<open>The buffer found by \<open>allocate\<close>, before it is handed out.\<close>

lemma reused_buffer_ok:
  assumes env: "mremap_keeps_pages env" and b: "buffer_ok env b" and i: "bucket_index (buffer_capacity b) = bucket_index len"
  shows "case memory b of
      FixedMemory _ \<Rightarrow> fits_request env len (b\<lparr>exposed_length := len, pooled := True\<rparr>)
    | LargeMemory lb \<Rightarrow> (\<forall>lb1. resize_for_reuse env (allocation_capacity len) lb = (lb1, Inr ()) \<longrightarrow>
        fits_request env len (b\<lparr>memory := LargeMemory lb1, exposed_length := len, pooled := True\<rparr>))"
proof (cases "memory b")
  case (FixedMemory bs)
  note f = buffer_ok_fixed [OF FixedMemory b]
  have cap: "allocation_capacity len = buffer_capacity b" using allocation_capacity_bucket [OF i] f by simp
  have "len \<le> MAX_FIXED_BUFFER_BYTES"
    using last_bucket [of len] last_bucket [of "buffer_capacity b"] i f by linarith
  then show ?thesis using FixedMemory b i cap by (simp add: fits_request_def buffer_ok_def)
next
  case (LargeMemory lb)
  have big: "MAX_FIXED_BUFFER_BYTES < large_length lb" and map: "mapping_ok env lb"
    using b LargeMemory by (auto simp: buffer_ok_def)
  have len: "MAX_FIXED_BUFFER_BYTES < len"
    using last_bucket [of len] last_bucket [of "large_length lb"] big i LargeMemory by simp
  then have cap: "allocation_capacity len = len" using allocation_capacity_cases [of len] by simp
  have "fits_request env len (b\<lparr>memory := LargeMemory lb1, exposed_length := len, pooled := True\<rparr>)"
    if r: "resize_for_reuse env (allocation_capacity len) lb = (lb1, Inr ())" for lb1
  proof -
    have ok: "mapping_ok env lb1" "len \<le> large_length lb1" "large_length lb1 - len < div_ceil len 10"
      using resize_for_reuse_ok [OF env map r allocation_capacity_pos] cap by auto
    then have big1: "MAX_FIXED_BUFFER_BYTES < large_length lb1" using len by linarith
    then have "bucket_index (large_length lb1) = bucket_index len" by (rule bucket_index_large [OF len])
    then show ?thesis using ok len cap big1 by (simp add: fits_request_def buffer_ok_def)
  qed
  then show ?thesis using LargeMemory by simp
qed

lemma allocate_zeroed_ok:
  assumes "allocate_zeroed env (allocation_capacity len) = Inr b"
  shows "fits_request env len (b\<lparr>exposed_length := len, pooled := True\<rparr>)
    \<and> memory_bytes (memory b) = replicate (allocation_capacity len) 0"
proof (cases "MAX_FIXED_BUFFER_BYTES < allocation_capacity len")
  case True
  have len: "MAX_FIXED_BUFFER_BYTES < len"
    using allocation_capacity_cases [of len] True
    by (auto simp: BUFFER_SIZES_def MAX_FIXED_BUFFER_BYTES_def split: if_splits)
  then have cap: "allocation_capacity len = len" using allocation_capacity_cases [of len] by simp
  obtain lb where lb: "allocate_zeroed_large env len = Inr lb"
      "b = \<lparr>memory = LargeMemory lb, exposed_length = len, pooled = False\<rparr>"
    using assms len cap by (auto simp: allocate_zeroed_def split: sum.splits)
  have "0 < div_ceil len 10" using len div_ceil_mult [of 10 len] by (cases "div_ceil len 10") auto
  then show ?thesis using lb(2) allocate_zeroed_large_ok [OF lb(1)] len cap
    by (auto simp: fits_request_def buffer_ok_def)
next
  case False
  have len: "\<not> MAX_FIXED_BUFFER_BYTES < len" using False allocation_capacity_ge [of len] by linarith
  then have "allocation_capacity len \<in> set BUFFER_SIZES" using allocation_capacity_cases [of len] by simp
  then show ?thesis using assms False len bucket_index_capacity [of len]
    by (auto simp: allocate_zeroed_def fits_request_def buffer_ok_def buffer_layout_def split: if_splits)
qed

lemma allocate_buffer_ok:
  assumes env: "mremap_keeps_pages env" and ok: "pool_ok env out (mm, p)"
  obtains (failed) mm1 p1 e where "allocate_buffer env len (mm, p) = Some ((mm1, p1), Inl e)"
      and "pool_ok env out (mm1, p1)" and "pool_used p1 = pool_used p" and "pool_capacity p1 = pool_capacity p"
      and "counters mm1 = counters mm"
  | (allocated) mm1 p1 b where "allocate_buffer env len (mm, p) = Some ((mm1, p1), Inr b)"
      and "pool_ok env (b # out) (mm1, p1)" and "fits_request env len b"
      and "pool_used p1 = pool_used p" and "pool_capacity p1 = pool_capacity p" and "counters mm1 = counters mm"
proof -
  let ?i = "bucket_index len" and ?cap = "allocation_capacity len"
  have core: "pool_core env (snd (mm, p))" and g: "gauges_ok out (mm, p)" using ok by (auto simp: pool_ok_def)
  have cap: "?cap \<noteq> 0" using allocation_capacity_pos [of len] by simp
  have use: "pool_ok env (b # out) (mm1\<lparr>used_buffer_bytes := (used_buffer_bytes mm1)
        (?i := used_buffer_bytes mm1 ?i + int (buffer_capacity b))\<rparr>, p1)"
    if "pool_ok env out (mm1, p1)" and "fits_request env len b" for mm1 p1 b
    using that by (auto simp: pool_ok_def gauges_ok_def fits_request_def)
  have c: "counters (mm1\<lparr>used_buffer_bytes := u\<rparr>) = counters mm1" for mm1 u by (simp add: counters_def)
  show ?thesis using core g bucket_index_less [of len]
  proof (cases rule: take_idle_buffer_ok)
    case empty
    show ?thesis
    proof (cases "allocate_zeroed env ?cap")
      case (Inl e)
      then show ?thesis using failed [of mm p e] empty cap ok by (simp add: allocate_buffer_def Let_def)
    next
      case (Inr b)
      note f = allocate_zeroed_ok [OF Inr, THEN conjunct1]
      show ?thesis
        by (rule allocated [OF _ use [OF ok f] f]) (use empty Inr cap in \<open>simp_all add: allocate_buffer_def Let_def c\<close>)
    qed
  next
    case (taken s1 b bs)
    obtain mm1 p1 where s1: "s1 = (mm1, p1)" by (cases s1)
    have ok1: "pool_ok env out (mm1, p1)" using taken s1 ok by (auto simp: pool_ok_def)
    have "b \<in> set (idle_buffers p ! ?i)" using taken(2) by simp
    then have b: "buffer_ok env b" "bucket_index (buffer_capacity b) = ?i"
      using core bucket_index_less [of len] unfolding pool_core_def snd_conv by blast+
    note r = reused_buffer_ok [OF env b]
    show ?thesis
    proof (cases "memory b")
      case (FixedMemory bs)
      then have f: "fits_request env len (b\<lparr>exposed_length := len, pooled := True\<rparr>)" using r by simp
      show ?thesis
        by (rule allocated [OF _ use [OF ok1 f] f])
          (use taken s1 cap FixedMemory in \<open>simp_all add: allocate_buffer_def Let_def c\<close>)
    next
      case (LargeMemory lb)
      show ?thesis
      proof (cases "resize_for_reuse env ?cap lb")
        case (Pair lb1 res)
        show ?thesis
        proof (cases res)
          case (Inl e)
          then show ?thesis using failed [of mm1 p1 e] taken s1 cap LargeMemory Pair ok1
            by (simp add: allocate_buffer_def Let_def)
        next
          case (Inr u)
          then have f: "fits_request env len (b\<lparr>memory := LargeMemory lb1, exposed_length := len, pooled := True\<rparr>)"
            using r LargeMemory Pair by simp
          show ?thesis
            by (rule allocated [OF _ use [OF ok1 f] f])
              (use taken s1 cap LargeMemory Pair Inr in \<open>simp_all add: allocate_buffer_def Let_def c\<close>)
        qed
      qed
    qed
  qed
qed

lemma gauges_drop:
  assumes "gauges_ok (xs @ b # ys) (mm, p)"
  shows "gauges_ok (xs @ ys) (mm\<lparr>used_buffer_bytes := (used_buffer_bytes mm)(bucket_index (buffer_capacity b) :=
      used_buffer_bytes mm (bucket_index (buffer_capacity b)) - int (buffer_capacity b))\<rparr>, p)"
  using assms by (auto simp: gauges_ok_def)

lemma idle_push_ok:
  assumes core: "pool_core env p" and b: "buffer_ok env b"
  shows "pool_core env (p\<lparr>idle_buffers := (idle_buffers p)[bucket_index (buffer_capacity b) :=
      idle_buffers p ! bucket_index (buffer_capacity b) @ [b\<lparr>pooled := False\<rparr>]], pool_idle := pool_idle p + buffer_capacity b\<rparr>)"
    (is "pool_core env ?p")
  unfolding pool_core_def
proof (intro conjI allI impI ballI)
  let ?i = "bucket_index (buffer_capacity b)" and ?b = "b\<lparr>pooled := False\<rparr>"
  have len: "length (idle_buffers p) = BUCKET_COUNT" using core by (simp add: pool_core_def)
  then show "length (idle_buffers ?p) = BUCKET_COUNT" by simp
  have "sum_list (map bucket_bytes ((idle_buffers p)[?i := idle_buffers p ! ?i @ [?b]]))
      = sum_list (map bucket_bytes (idle_buffers p)) + buffer_capacity b"
    using sum_list_update [of ?i "map bucket_bytes (idle_buffers p)" "bucket_bytes (idle_buffers p ! ?i @ [?b])"]
      elem_le_sum_list [of ?i "map bucket_bytes (idle_buffers p)"] len by (simp add: map_update)
  then show "pool_idle ?p = sum_list (map bucket_bytes (idle_buffers ?p))" using core by (simp add: pool_core_def)
  fix j c assume j: "j < BUCKET_COUNT" "c \<in> set (idle_buffers ?p ! j)"
  have old: "bucket_index (buffer_capacity c) = j \<and> \<not> pooled c \<and> buffer_ok env c" if "c \<in> set (idle_buffers p ! j)"
    using core j(1) that by (simp add: pool_core_def)
  have new: "buffer_ok env ?b" using b by (simp add: buffer_ok_def)
  have "bucket_index (buffer_capacity c) = j \<and> \<not> pooled c \<and> buffer_ok env c"
  proof (cases "j = ?i \<and> c = ?b")
    case True
    then show ?thesis using new by simp
  next
    case False
    then have "c \<in> set (idle_buffers p ! j)" using j len by (cases "j = ?i") auto
    then show ?thesis by (rule old)
  qed
  then show "bucket_index (buffer_capacity c) = j" and "\<not> pooled c" and "buffer_ok env c" by blast+
qed

lemma drop_aligned_buffer_ok:
  assumes ok: "pool_ok env (xs @ b # ys) (mm, p)"
  shows "\<exists>mm1 p1. drop_aligned_buffer b (mm, Some p) = Some (mm1, Some p1) \<and> pool_ok env (xs @ ys) (mm1, p1)
    \<and> pool_used p1 = pool_used p \<and> pool_capacity p1 = pool_capacity p \<and> counters mm1 = counters mm"
proof -
  let ?i = "bucket_index (buffer_capacity b)" and ?cap = "buffer_capacity b"
  let ?mm = "mm\<lparr>used_buffer_bytes := (used_buffer_bytes mm)(?i := used_buffer_bytes mm ?i - int ?cap)\<rparr>"
  have b: "pooled b" "buffer_ok env b" using ok by (auto simp: pool_ok_def)
  have core: "pool_core env p" and g: "gauges_ok (xs @ ys) (?mm, p)"
    using ok gauges_drop [of xs b ys mm p] by (auto simp: pool_ok_def)
  have len: "length (idle_buffers p) = BUCKET_COUNT" using core by (simp add: pool_core_def)
  show ?thesis
  proof (cases "pool_idle p + ?cap \<le> pool_capacity p - pool_used p")
    case False
    then show ?thesis using ok b(1) g by (simp add: drop_aligned_buffer_def Let_def pool_ok_def counters_def)
  next
    case True
    let ?p = "p\<lparr>idle_buffers := (idle_buffers p)[?i := idle_buffers p ! ?i @ [b\<lparr>pooled := False\<rparr>]],
      pool_idle := pool_idle p + ?cap\<rparr>"
    let ?mm1 = "?mm\<lparr>idle_buffer_bytes := (idle_buffer_bytes ?mm)(?i := idle_buffer_bytes ?mm ?i + int ?cap),
      memory_used_bytes := memory_used_bytes ?mm + int ?cap\<rparr>"
    have d: "drop_aligned_buffer b (mm, Some p) = Some (?mm1, Some ?p)"
      using True b(1) len by (simp add: drop_aligned_buffer_def Let_def not_le)
    have "gauges_ok (xs @ ys) (?mm1, ?p)"
      using g len by (auto simp: gauges_ok_def nth_list_update)
    moreover have "pool_core env ?p" by (rule idle_push_ok [OF core b(2)])
    ultimately show ?thesis using d ok True by (simp add: pool_ok_def counters_def)
  qed
qed

subsection \<open>Runs of the pool\<close>

text \<open>The pool as its clients use it: a state with the buffers that are checked out.\<close>

inductive pool_step :: "memory_env \<Rightarrow> pool_state \<times> aligned_buffer list \<Rightarrow> pool_state \<times> aligned_buffer list \<Rightarrow> bool"
  for env :: memory_env where
  pool_allocate: "allocate_buffer env len s = Some (s1, Inr b) \<Longrightarrow> pool_step env (s, out) (s1, b # out)"
| pool_allocate_error: "allocate_buffer env len s = Some (s1, Inl e) \<Longrightarrow> pool_step env (s, out) (s1, out)"
| pool_release: "drop_aligned_buffer b (mm, Some p) = Some (mm1, Some p1)
    \<Longrightarrow> pool_step env ((mm, p), xs @ b # ys) ((mm1, p1), xs @ ys)"
| pool_charge: "add_used_bytes n s = Some s1 \<Longrightarrow> pool_step env (s, out) (s1, out)"
| pool_discharge: "n \<le> pool_used (snd s) \<Longrightarrow> remove_used_bytes n s = Some s1 \<Longrightarrow> pool_step env (s, out) (s1, out)"

inductive pool_run :: "memory_env \<Rightarrow> nat \<Rightarrow> pool_state \<times> aligned_buffer list \<Rightarrow> bool"
  for env :: memory_env and cap :: nat where
  pool_start: "pool_run env cap (new_buffer_pool cap new_memory_metrics, [])"
| pool_next: "pool_run env cap s \<Longrightarrow> pool_step env s s1 \<Longrightarrow> pool_run env cap s1"

lemma new_buffer_pool_ok: "pool_ok env [] (new_buffer_pool cap new_memory_metrics)"
  by (auto simp: pool_ok_def pool_core_def gauges_ok_def new_buffer_pool_def new_memory_metrics_def sum_list_replicate)

lemma pool_step_ok:
  assumes env: "mremap_keeps_pages env" and step: "pool_step env (s, out) (s1, out1)" and ok: "pool_ok env out s"
  shows "pool_ok env out1 s1 \<and> pool_capacity (snd s1) = pool_capacity (snd s)"
  using step ok
proof (cases rule: pool_step.cases)
  case (pool_allocate len b)
  obtain mm p where s: "s = (mm, p)" by (cases s)
  from env ok [unfolded s] show ?thesis
    by (cases rule: allocate_buffer_ok [where len = len]) (use pool_allocate s in auto)
next
  case (pool_allocate_error len e)
  obtain mm p where s: "s = (mm, p)" by (cases s)
  from env ok [unfolded s] show ?thesis
    by (cases rule: allocate_buffer_ok [where len = len]) (use pool_allocate_error s in auto)
next
  case (pool_release b mm p mm1 p1 xs ys)
  then show ?thesis using drop_aligned_buffer_ok [of env xs b ys mm p] ok by auto
next
  case (pool_charge n)
  then show ?thesis using add_used_bytes_ok [of env out "fst s" "snd s" n] ok by auto
next
  case (pool_discharge n)
  then show ?thesis using remove_used_bytes_ok [of env out "fst s" "snd s" n] ok by auto
qed

lemma pool_run_ok:
  assumes env: "mremap_keeps_pages env" and run: "pool_run env cap so"
  shows "pool_ok env (snd so) (fst so) \<and> pool_capacity (snd (fst so)) = cap"
  using run
proof (induction rule: pool_run.induct)
  case pool_start
  then show ?case using new_buffer_pool_ok by (simp add: new_buffer_pool_def)
next
  case (pool_next s s1)
  then show ?case using pool_step_ok [OF env, of "fst s" "snd s" "fst s1" "snd s1"] by auto
qed

text \<open>C15: However a pool is used, its gauges are the exact byte counts of cached objects, idle buffers and
  checked-out buffers per bucket, idle buffers use only what cached objects leave of the capacity,
  no operation panics, and an allocation gives a buffer that holds the requested length with less than
  a tenth of spare capacity above the fixed sizes.\<close>

theorem buffer_pool_runs_accounted:
  assumes env: "mremap_keeps_pages env" and run: "pool_run env cap ((mm, p), out)"
  shows "memory_used_bytes mm = int (pool_used_bytes p)
    \<and> (pool_idle p = 0 \<or> pool_used_bytes p \<le> cap)
    \<and> pool_idle p = sum_list (map bucket_bytes (idle_buffers p))
    \<and> (\<forall>i < BUCKET_COUNT. idle_buffer_bytes mm i = int (bucket_bytes (idle_buffers p ! i)))
    \<and> (\<forall>i. used_buffer_bytes mm i = int (bucket_bytes (filter (\<lambda>b. bucket_index (buffer_capacity b) = i) out)))
    \<and> (\<forall>len. \<exists>s1 r. allocate_buffer env len (mm, p) = Some (s1, r) \<and> (\<forall>b. r = Inr b \<longrightarrow> fits_request env len b))
    \<and> (\<forall>n. add_used_bytes n (mm, p) \<noteq> None)
    \<and> (\<forall>b. b \<in> set out \<longrightarrow> drop_aligned_buffer b (mm, Some p) \<noteq> None)"
proof -
  have ok: "pool_ok env out (mm, p)" and cap: "pool_capacity p = cap" using pool_run_ok [OF env run] by auto
  have alloc: "\<exists>s1 r. allocate_buffer env len (mm, p) = Some (s1, r) \<and> (\<forall>b. r = Inr b \<longrightarrow> fits_request env len b)" for len
    using env ok by (cases rule: allocate_buffer_ok [where len = len]) auto
  have drop: "drop_aligned_buffer b (mm, Some p) \<noteq> None" if b: "b \<in> set out" for b
  proof -
    obtain xs ys where "out = xs @ b # ys" using split_list [OF b] by blast
    then show ?thesis using drop_aligned_buffer_ok [of env xs b ys mm p] ok by auto
  qed
  have add: "add_used_bytes n (mm, p) \<noteq> None" for n using add_used_bytes_ok [OF ok, of n] by auto
  have "pool_idle p = 0 \<or> pool_used_bytes p \<le> cap" using ok cap by (auto simp: pool_ok_def pool_used_bytes_def)
  then show ?thesis using ok alloc drop add
    by (auto simp: pool_ok_def pool_core_def gauges_ok_def pool_used_bytes_def)
qed

lemma example_env_ok: "mremap_keeps_pages example_env"
  by (simp add: mremap_keeps_pages_def example_env_def)

lemma example_pool_run: "\<exists>mm p. pool_run example_env 8 ((mm, p), []) \<and> pool_used p = 5"
proof -
  obtain mm p where s: "new_buffer_pool 8 new_memory_metrics = (mm, p)" by (cases "new_buffer_pool 8 new_memory_metrics")
  then have ok: "pool_ok example_env [] (mm, p)" and p: "pool_used p = 0"
    using new_buffer_pool_ok [of example_env 8] by (auto simp: new_buffer_pool_def)
  obtain mm1 p1 where a: "add_used_bytes 5 (mm, p) = Some (mm1, p1)" "pool_used p1 = 5"
    using add_used_bytes_ok [OF ok, of 5] p by auto
  have "pool_run example_env 8 ((mm1, p1), [])"
    using pool_next [OF pool_start, of example_env 8] pool_charge [OF a(1)] s by auto
  then show ?thesis using a(2) by blast
qed

theorem buffer_pool_runs_accounted_witness:
  "\<exists>mm p. pool_run example_env 8 ((mm, p), []) \<and> pool_used p = 5
    \<and> memory_used_bytes mm = int (pool_used_bytes p) \<and> add_used_bytes 7 (mm, p) \<noteq> None"
proof -
  obtain mm p where r: "pool_run example_env 8 ((mm, p), [])" "pool_used p = 5" using example_pool_run by blast
  then show ?thesis using buffer_pool_runs_accounted [OF example_env_ok r(1)] by blast
qed

subsection \<open>The end of a pool\<close>

fun drop_checked_out :: "aligned_buffer list \<Rightarrow> memory_metrics \<Rightarrow> memory_metrics option" where
  "drop_checked_out [] mm = Some mm"
| "drop_checked_out (b # bs) mm =
    (case drop_aligned_buffer b (mm, None) of None \<Rightarrow> None | Some (mm1, _) \<Rightarrow> drop_checked_out bs mm1)"

lemma drop_buckets_effect:
  "drop_buckets k bss mm = mm\<lparr>
     idle_buffer_bytes := (\<lambda>i. idle_buffer_bytes mm i
       - (if k \<le> i \<and> i < k + length bss then int (bucket_bytes (bss ! (i - k))) else 0)),
     memory_used_bytes := memory_used_bytes mm - int (sum_list (map bucket_bytes bss))\<rparr>"
proof (induction bss arbitrary: k mm)
  case Nil
  have "(if k \<le> i \<and> i < k + length [] then int (bucket_bytes ([] ! (i - k))) else 0) = 0" for i by simp
  then show ?case unfolding drop_buckets.simps by (simp only: diff_zero list.map sum_list.Nil of_nat_0) simp
next
  case (Cons bs bss)
  have "(if Suc k \<le> i \<and> i < Suc k + length bss then int (bucket_bytes (bss ! (i - Suc k))) else 0)
      + (if i = k then int (bucket_bytes bs) else 0)
    = (if k \<le> i \<and> i < k + length (bs # bss) then int (bucket_bytes ((bs # bss) ! (i - k))) else 0)" for i
    by (cases "i \<le> k") (auto simp: nth_Cons' le_less)
  then have "(\<lambda>i. ((idle_buffer_bytes mm)(k := idle_buffer_bytes mm k - int (bucket_bytes bs))) i
      - (if Suc k \<le> i \<and> i < Suc k + length bss then int (bucket_bytes (bss ! (i - Suc k))) else 0))
    = (\<lambda>i. idle_buffer_bytes mm i
      - (if k \<le> i \<and> i < k + length (bs # bss) then int (bucket_bytes ((bs # bss) ! (i - k))) else 0))"
    by (intro ext) (simp add: fun_upd_def algebra_simps split: if_splits)
  then show ?case unfolding drop_buckets.simps Cons.IH by (simp add: decrease_idle_buffer_metrics_def)
qed

lemma drop_checked_out_effect:
  assumes "\<forall>b \<in> set out. pooled b"
  shows "\<exists>mm1. drop_checked_out out mm = Some mm1
    \<and> (\<forall>i. used_buffer_bytes mm1 i = used_buffer_bytes mm i
        - int (bucket_bytes (filter (\<lambda>b. bucket_index (buffer_capacity b) = i) out)))
    \<and> idle_buffer_bytes mm1 = idle_buffer_bytes mm \<and> memory_used_bytes mm1 = memory_used_bytes mm
    \<and> memory_capacity_bytes mm1 = memory_capacity_bytes mm \<and> counters mm1 = counters mm"
  using assms
proof (induction out arbitrary: mm)
  case (Cons b out)
  let ?i = "bucket_index (buffer_capacity b)"
  let ?mm = "mm\<lparr>used_buffer_bytes := (used_buffer_bytes mm)(?i := used_buffer_bytes mm ?i - int (buffer_capacity b))\<rparr>"
  have "drop_checked_out (b # out) mm = drop_checked_out out ?mm"
    using Cons.prems by (simp add: drop_aligned_buffer_def Let_def)
  then show ?case using Cons.IH [of ?mm] Cons.prems by (auto simp: counters_def)
qed simp

text \<open>When the pool is dropped after its cached objects, and the buffers still checked out are dropped
  later, every gauge returns to zero.\<close>

lemma buffer_pool_drop_clears_gauges:
  assumes ok: "pool_ok env out (mm, p)" and used: "pool_used p = 0"
  shows "\<exists>mm1. drop_checked_out out (drop_buffer_pool (mm, p)) = Some mm1
    \<and> memory_used_bytes mm1 = 0 \<and> memory_capacity_bytes mm1 = 0
    \<and> (\<forall>i < BUCKET_COUNT. idle_buffer_bytes mm1 i = 0) \<and> (\<forall>i. used_buffer_bytes mm1 i = 0)
    \<and> counters mm1 = counters mm"
proof -
  have d: "drop_buffer_pool (mm, p) = mm\<lparr>
     idle_buffer_bytes := (\<lambda>i. idle_buffer_bytes mm i
       - (if i < BUCKET_COUNT then int (bucket_bytes (idle_buffers p ! i)) else 0)),
     memory_used_bytes := memory_used_bytes mm - int (pool_idle p),
     memory_capacity_bytes := memory_capacity_bytes mm - int (pool_capacity p)\<rparr>"
    using ok by (simp add: drop_buffer_pool_def Let_def drop_buckets_effect pool_ok_def pool_core_def cong: if_cong)
  have p: "\<forall>b \<in> set out. pooled b" using ok by (simp add: pool_ok_def)
  then show ?thesis using drop_checked_out_effect [OF p, of "drop_buffer_pool (mm, p)"] ok used
    unfolding d by (auto simp: pool_ok_def gauges_ok_def counters_def)
qed

end
