(* ===== verification/Memory_Store.thy ===== *)
theory Memory_Store
  imports Buffer_Pool Candidate_Index Retention "HOL-Library.Product_Lexorder"
begin

text \<open>
  The memory tier, \<open>feuer-memory/src/store.rs\<close> and \<open>store/shard.rs\<close>: shards with their eviction
  candidates, all charging one buffer pool. A shard operation takes the metrics, the pool and the
  shard, and returns them; \<open>None\<close> is a panic. \<open>score\<close> is the retention scorer applied to the current
  request histories, with scores of any linear order (\<open>f64::total_cmp\<close>), and \<open>fx\<close> is the hash that
  selects a shard.
\<close>

subsection \<open>Shards\<close>

record memory_entry =
  entry_bytes :: "byte list"
  allocation_charge :: nat
  candidate_position :: nat

datatype insert_result = Inserted | AlreadyPresent | EvictedButDidNotInsert

record memory_shard =
  shard_capacity :: nat
  shard_used :: nat
  memory_entries_by_key :: "object_key_hash \<rightharpoonup> memory_entry"
  memory_candidates :: "object_key_hash list"
  memory_sample_start :: nat

type_synonym memory_state = "pool_state \<times> memory_shard"

definition new_memory_shard :: "nat \<Rightarrow> memory_shard" where
  "new_memory_shard cap = \<lparr>shard_capacity = cap, shard_used = 0, memory_entries_by_key = Map.empty,
     memory_candidates = [], memory_sample_start = 0\<rparr>"

definition memory_get :: "object_key_hash \<Rightarrow> memory_shard \<Rightarrow> byte list option" where
  "memory_get k sh = map_option entry_bytes (memory_entries_by_key sh k)"

definition memory_contains :: "object_key_hash \<Rightarrow> memory_shard \<Rightarrow> bool" where
  "memory_contains k sh \<longleftrightarrow> memory_entries_by_key sh k \<noteq> None"

definition entry_count :: "memory_shard \<Rightarrow> nat" where
  "entry_count sh = length (memory_candidates sh)"

definition add_memory_entry :: "object_key_hash \<Rightarrow> byte list \<Rightarrow> nat \<Rightarrow> memory_state \<Rightarrow> memory_state option" where
  "add_memory_entry k bs charge s =
    (let (ps, sh) = s in
     case add_used_bytes charge ps of
       None \<Rightarrow> None
     | Some (mm, p) \<Rightarrow>
         Some ((mm\<lparr>memory_entries := memory_entries mm + 1\<rparr>, p),
           sh\<lparr>shard_used := shard_used sh + charge,
              memory_candidates := memory_candidates sh @ [k],
              memory_entries_by_key := (memory_entries_by_key sh)(k \<mapsto>
                \<lparr>entry_bytes = bs, allocation_charge = charge, candidate_position = length (memory_candidates sh)\<rparr>)\<rparr>))"

definition remove_memory_entry :: "object_key_hash \<Rightarrow> memory_state \<Rightarrow> (memory_state \<times> bool) option" where
  "remove_memory_entry k s =
    (let (ps, sh) = s in
     case memory_entries_by_key sh k of
       None \<Rightarrow> Some (s, False)
     | Some e \<Rightarrow>
         let m1 = (memory_entries_by_key sh)(k := None);
             i = candidate_position e;
             cs = swap_remove i (memory_candidates sh);
             repaired = (case vec_get cs i of
                 None \<Rightarrow> Some m1
               | Some moved \<Rightarrow> (case m1 moved of
                     None \<Rightarrow> None
                   | Some e1 \<Rightarrow> Some (m1(moved \<mapsto> e1\<lparr>candidate_position := i\<rparr>))))
         in if length (memory_candidates sh) \<le> i then None
            else case repaired of
              None \<Rightarrow> None
            | Some m2 \<Rightarrow>
                if shard_used sh < allocation_charge e then None
                else case remove_used_bytes (allocation_charge e) ps of
                  None \<Rightarrow> None
                | Some (mm, p) \<Rightarrow>
                    Some (((mm\<lparr>memory_entries := memory_entries mm - 1\<rparr>, p),
                      sh\<lparr>shard_used := shard_used sh - allocation_charge e, memory_candidates := cs,
                         memory_entries_by_key := m2\<rparr>), True))"

definition remove_from_shard :: "object_key_hash \<Rightarrow> memory_state \<Rightarrow> (memory_state \<times> bool) option" where
  "remove_from_shard k s =
    (case remove_memory_entry k s of
       None \<Rightarrow> None
     | Some (s1, False) \<Rightarrow> Some (s1, False)
     | Some (((mm, p), sh), True) \<Rightarrow> Some (((mm\<lparr>removals := removals mm + 1\<rparr>, p), sh), True))"

text \<open>The entry to evict: the lowest score in the sample, then the lowest key.\<close>

definition memory_victim :: "(object_key_hash \<Rightarrow> nat \<Rightarrow> 's::linorder) \<Rightarrow> (object_key_hash \<rightharpoonup> memory_entry)
    \<Rightarrow> object_key_hash list \<Rightarrow> object_key_hash option" where
  "memory_victim score m sample =
    (if list_all (\<lambda>k. m k \<noteq> None) sample
     then map_option snd (min_first (\<lambda>sk. sk) (map (\<lambda>k. (score k (length (entry_bytes (the (m k)))), k)) sample))
     else None)"

definition try_insert :: "(object_key_hash \<Rightarrow> nat \<Rightarrow> 's::linorder) \<Rightarrow> nat \<Rightarrow> object_key_hash \<Rightarrow> byte list \<Rightarrow> nat
    \<Rightarrow> memory_state \<Rightarrow> (memory_state \<times> insert_result) option" where
  "try_insert score sample_size k bs charge s =
    (let ((mm, p), sh) = s in
     if memory_entries_by_key sh k \<noteq> None
     then Some (((mm\<lparr>redundant_insertions := redundant_insertions mm + 1\<rparr>, p), sh), AlreadyPresent)
     else if shard_used sh \<le> shard_capacity sh - charge
     then case add_memory_entry k bs charge s of
       None \<Rightarrow> None
     | Some ((mm1, p1), sh1) \<Rightarrow> Some (((mm1\<lparr>insertions := insertions mm1 + 1\<rparr>, p1), sh1), Inserted)
     else let (start, sample) = sample_candidates (memory_sample_start sh) (memory_candidates sh) sample_size
          in case memory_victim score (memory_entries_by_key sh) sample of
               None \<Rightarrow> None
             | Some victim \<Rightarrow>
                 (case remove_memory_entry victim ((mm, p), sh\<lparr>memory_sample_start := start\<rparr>) of
                    None \<Rightarrow> None
                  | Some (s1, _) \<Rightarrow> Some (s1, EvictedButDidNotInsert)))"

definition drop_memory_shard :: "memory_state \<Rightarrow> pool_state option" where
  "drop_memory_shard s =
    (let ((mm, p), sh) = s
     in remove_used_bytes (shard_used sh) (mm\<lparr>memory_entries := memory_entries mm - int (entry_count sh)\<rparr>, p))"

subsection \<open>The insertion loop\<close>

lemma remove_memory_entry_shrinks:
  "remove_memory_entry k s = Some (s1, True) \<Longrightarrow>
    length (memory_candidates (snd s1)) < length (memory_candidates (snd s))"
  by (auto simp: remove_memory_entry_def Let_def split: prod.splits option.splits if_splits)

lemma memory_victim_present: "memory_victim score m sample = Some k \<Longrightarrow> k \<in> set sample \<and> m k \<noteq> None"
  by (auto simp: memory_victim_def list_all_iff dest!: min_first_Some split: if_splits)

lemma remove_memory_entry_present:
  "remove_memory_entry k s = Some (s1, r) \<Longrightarrow> memory_entries_by_key (snd s) k \<noteq> None \<Longrightarrow> r"
  by (auto simp: remove_memory_entry_def Let_def split: prod.splits option.splits if_splits)

lemma try_insert_shrinks:
  assumes "try_insert score n k bs charge s = Some (s1, EvictedButDidNotInsert)"
  shows "length (memory_candidates (snd s1)) < length (memory_candidates (snd s))"
proof -
  obtain mm p sh where s: "s = ((mm, p), sh)" by (cases s) auto
  obtain start sample where sc: "sample_candidates (memory_sample_start sh) (memory_candidates sh) n = (start, sample)"
    by (cases "sample_candidates (memory_sample_start sh) (memory_candidates sh) n")
  obtain victim r where v: "memory_victim score (memory_entries_by_key sh) sample = Some victim"
      "remove_memory_entry victim ((mm, p), sh\<lparr>memory_sample_start := start\<rparr>) = Some (s1, r)"
    using assms s sc by (auto simp: try_insert_def Let_def split: option.splits if_splits prod.splits)
  then have r using remove_memory_entry_present [OF v(2)] memory_victim_present [OF v(1)] by simp
  then show ?thesis using remove_memory_entry_shrinks [of victim "((mm, p), sh\<lparr>memory_sample_start := start\<rparr>)" s1] v(2) s by simp
qed

text \<open>\<open>MemoryCache::insert\<close> retries until the object is in the shard. The first result is whether it was
  inserted, the second whether an entry was evicted.\<close>

function insert_loop :: "(object_key_hash \<Rightarrow> nat \<Rightarrow> 's::linorder) \<Rightarrow> nat \<Rightarrow> object_key_hash \<Rightarrow> byte list \<Rightarrow> nat
    \<Rightarrow> memory_state \<Rightarrow> bool \<Rightarrow> (memory_state \<times> bool \<times> bool) option" where
  "insert_loop score n k bs charge s evicted_any_entry =
    (case try_insert score n k bs charge s of
       None \<Rightarrow> None
     | Some (s1, Inserted) \<Rightarrow> Some (s1, True, evicted_any_entry)
     | Some (s1, AlreadyPresent) \<Rightarrow> Some (s1, False, evicted_any_entry)
     | Some (s1, EvictedButDidNotInsert) \<Rightarrow> insert_loop score n k bs charge s1 True)"
  by pat_completeness auto

termination
  by (relation "measure (\<lambda>(_, _, _, _, _, s, _). length (memory_candidates (snd s)))")
    (auto dest: try_insert_shrinks)

declare insert_loop.simps [simp del]

subsection \<open>The cache\<close>

record memory_cache =
  memory_shards :: "memory_shard list"
  memory_pool :: pool_state
  reclaim_sample_size :: nat

definition shard_capacity_for :: "nat \<Rightarrow> nat \<Rightarrow> nat \<Rightarrow> nat" where
  "shard_capacity_for total_capacity num_shards i =
    total_capacity div num_shards + (if i < total_capacity mod num_shards then 1 else 0)"

definition default_shard_count :: "nat \<Rightarrow> nat" where
  "default_shard_count cap = max (cap div (8 * 1024 * 1024 * 1024)) 1"

definition with_shard_count :: "pool_state \<Rightarrow> nat \<Rightarrow> memory_cache option" where
  "with_shard_count ps num_shards =
    (if num_shards = 0 then None
     else Some \<lparr>memory_shards = map (\<lambda>i. new_memory_shard (shard_capacity_for (pool_capacity (snd ps)) num_shards i)) [0..<num_shards],
            memory_pool = ps, reclaim_sample_size = RECLAIM_SAMPLE_SIZE\<rparr>)"

definition memory_with_metrics :: "nat \<Rightarrow> memory_metrics \<Rightarrow> memory_cache option" where
  "memory_with_metrics cap mm = with_shard_count (new_buffer_pool cap mm) (default_shard_count cap)"

definition with_reclaim_sample_size :: "nat \<Rightarrow> memory_cache \<Rightarrow> memory_cache option" where
  "with_reclaim_sample_size n c = (if n = 0 then None else Some (c\<lparr>reclaim_sample_size := n\<rparr>))"

definition shard_index :: "(object_key_hash \<Rightarrow> u64) \<Rightarrow> object_key_hash \<Rightarrow> memory_cache \<Rightarrow> nat" where
  "shard_index fx k c = unat (fx k) mod length (memory_shards c)"

definition get_memory :: "(object_key_hash \<Rightarrow> u64) \<Rightarrow> object_key_hash \<Rightarrow> memory_cache \<Rightarrow> byte list option" where
  "get_memory fx k c = memory_get k (memory_shards c ! shard_index fx k c)"

definition contains_memory :: "(object_key_hash \<Rightarrow> u64) \<Rightarrow> object_key_hash \<Rightarrow> memory_cache \<Rightarrow> bool" where
  "contains_memory fx k c = memory_contains k (memory_shards c ! shard_index fx k c)"

definition insert_memory :: "(object_key_hash \<Rightarrow> u64) \<Rightarrow> (object_key_hash \<Rightarrow> nat \<Rightarrow> 's::linorder) \<Rightarrow> object_key_hash
    \<Rightarrow> byte list \<Rightarrow> nat \<Rightarrow> memory_cache \<Rightarrow> (memory_cache \<times> bool) option" where
  "insert_memory fx score k bs charge c =
    (if charge < length bs then None
     else let i = shard_index fx k c
          in case insert_loop score (reclaim_sample_size c) k bs charge (memory_pool c, memory_shards c ! i) False of
               None \<Rightarrow> None
             | Some (((mm, p), sh), inserted, evicted_any_entry) \<Rightarrow>
                 let mm1 = (if evicted_any_entry
                     then mm\<lparr>memory_eviction_triggering_insertions := memory_eviction_triggering_insertions mm + 1\<rparr>
                     else mm)
                 in Some (c\<lparr>memory_shards := (memory_shards c)[i := sh], memory_pool := (mm1, p)\<rparr>, inserted))"

definition remove_memory :: "(object_key_hash \<Rightarrow> u64) \<Rightarrow> object_key_hash \<Rightarrow> memory_cache \<Rightarrow> (memory_cache \<times> bool) option" where
  "remove_memory fx k c =
    (let i = shard_index fx k c
     in case remove_from_shard k (memory_pool c, memory_shards c ! i) of
          None \<Rightarrow> None
        | Some ((ps, sh), removed) \<Rightarrow>
            Some (c\<lparr>memory_shards := (memory_shards c)[i := sh], memory_pool := ps\<rparr>, removed))"

fun drop_memory_shards :: "memory_shard list \<Rightarrow> pool_state \<Rightarrow> pool_state option" where
  "drop_memory_shards [] ps = Some ps"
| "drop_memory_shards (sh # rest) ps =
    (case drop_memory_shard (ps, sh) of None \<Rightarrow> None | Some ps1 \<Rightarrow> drop_memory_shards rest ps1)"

subsection \<open>Invariant of a shard\<close>

interpretation mci: candidate_index candidate_position "\<lambda>i e. e\<lparr>candidate_position := i\<rparr>"
  by unfold_locales simp_all

text \<open>Usage is the sum of the charges and within the capacity, unless one oversized entry accounts for
  all of it.\<close>

definition memory_shard_ok :: "memory_shard \<Rightarrow> bool" where
  "memory_shard_ok sh \<longleftrightarrow> mci.consistent (memory_entries_by_key sh) (memory_candidates sh)
    \<and> shard_used sh = map_total allocation_charge (memory_entries_by_key sh)
    \<and> (\<forall>k e. memory_entries_by_key sh k = Some e \<longrightarrow> length (entry_bytes e) \<le> allocation_charge e)
    \<and> (shard_used sh \<le> shard_capacity sh
       \<or> (\<exists>k e. memory_entries_by_key sh k = Some e \<and> allocation_charge e = shard_used sh))"

text \<open>\<open>u\<close> bytes and \<open>n\<close> entries of the shared accounting belong to other shards.\<close>

definition memory_state_ok :: "memory_env \<Rightarrow> aligned_buffer list \<Rightarrow> nat \<Rightarrow> int \<Rightarrow> memory_state \<Rightarrow> bool" where
  "memory_state_ok env out u n s = (let ((mm, p), sh) = s in
     pool_ok env out (mm, p) \<and> memory_shard_ok sh \<and> pool_used p = u + shard_used sh
     \<and> memory_entries mm = n + int (entry_count sh))"

lemma new_memory_shard_ok: "memory_shard_ok (new_memory_shard cap)"
  by (simp add: memory_shard_ok_def new_memory_shard_def mci.consistent_empty)

lemma pool_ok_counters:
  "pool_ok env out (mm\<lparr>memory_entries := v\<rparr>, p) = pool_ok env out (mm, p)"
  "pool_ok env out (mm\<lparr>insertions := w\<rparr>, p) = pool_ok env out (mm, p)"
  "pool_ok env out (mm\<lparr>redundant_insertions := w\<rparr>, p) = pool_ok env out (mm, p)"
  "pool_ok env out (mm\<lparr>removals := w\<rparr>, p) = pool_ok env out (mm, p)"
  "pool_ok env out (mm\<lparr>memory_eviction_triggering_insertions := w\<rparr>, p) = pool_ok env out (mm, p)"
  by (simp_all add: pool_ok_def gauges_ok_def)

lemma add_memory_entry_ok:
  assumes ok: "memory_state_ok env out u n ((mm, p), sh)" and k: "memory_entries_by_key sh k = None"
    and room: "shard_used sh \<le> shard_capacity sh - charge" and len: "length bs \<le> charge"
  obtains mm1 p1 sh1 where "add_memory_entry k bs charge ((mm, p), sh) = Some ((mm1, p1), sh1)"
    and "memory_state_ok env out u n ((mm1, p1), sh1)"
    and "\<And>k'. memory_get k' sh1 = (if k' = k then Some bs else memory_get k' sh)"
    and "shard_capacity sh1 = shard_capacity sh" and "pool_capacity p1 = pool_capacity p"
    and "counters mm1 = counters (mm\<lparr>memory_entries := memory_entries mm + 1\<rparr>)"
proof -
  have c: "mci.consistent (memory_entries_by_key sh) (memory_candidates sh)"
    and used: "shard_used sh = map_total allocation_charge (memory_entries_by_key sh)"
    and pok: "pool_ok env out (mm, p)" using ok by (auto simp: memory_state_ok_def memory_shard_ok_def)
  obtain mm1 p1 where a: "add_used_bytes charge (mm, p) = Some (mm1, p1)" "pool_ok env out (mm1, p1)"
      "pool_used p1 = pool_used p + charge" "pool_capacity p1 = pool_capacity p" "counters mm1 = counters mm"
    using add_used_bytes_ok [OF pok] by blast
  let ?e = "\<lparr>entry_bytes = bs, allocation_charge = charge, candidate_position = length (memory_candidates sh)\<rparr>"
  let ?m = "(memory_entries_by_key sh)(k \<mapsto> ?e)"
  let ?sh = "sh\<lparr>shard_used := shard_used sh + charge, memory_candidates := memory_candidates sh @ [k],
    memory_entries_by_key := ?m\<rparr>"
  have c1: "mci.consistent ?m (memory_candidates sh @ [k])" using mci.consistent_push [OF c k, of ?e] by simp
  have t: "map_total allocation_charge ?m = shard_used sh + charge"
    using map_total_insert [OF mci.consistent_finite [OF c] k, of allocation_charge ?e] used by simp
  have soft: "shard_used sh + charge \<le> shard_capacity sh
      \<or> (\<exists>k' e. ?m k' = Some e \<and> allocation_charge e = shard_used sh + charge)"
  proof (cases "charge \<le> shard_capacity sh")
    case True
    then show ?thesis using room by linarith
  next
    case False
    then have "shard_used sh = 0" using room by linarith
    then have "?m k = Some ?e \<and> allocation_charge ?e = shard_used sh + charge" by simp
    then show ?thesis by blast
  qed
  have "memory_shard_ok ?sh"
    using c1 t soft len ok by (auto simp: memory_shard_ok_def memory_state_ok_def)
  then have "memory_state_ok env out u n ((mm1\<lparr>memory_entries := memory_entries mm1 + 1\<rparr>, p1), ?sh)"
    using ok a by (simp add: memory_state_ok_def pool_ok_counters entry_count_def counters_def)
  then show ?thesis using that [of "mm1\<lparr>memory_entries := memory_entries mm1 + 1\<rparr>" p1 ?sh] a
    by (auto simp: add_memory_entry_def memory_get_def counters_def)
qed

lemma repaired_get:
  assumes "\<And>k. map_option (candidate_position_update (\<lambda>_. 0)) (m1 k) = map_option (candidate_position_update (\<lambda>_. 0)) (m k)"
  shows "map_option entry_bytes (m1 k) = map_option entry_bytes (m k)"
    and "map_option allocation_charge (m1 k) = map_option allocation_charge (m k)"
  using mci.repair_total [of m1 m entry_bytes k] mci.repair_total [of m1 m allocation_charge k] assms by simp_all

lemma soft_capacity_remove:
  assumes "finite (dom m)" and "m k = Some e" and u: "used = map_total allocation_charge m"
    and soft: "used \<le> cap \<or> (\<exists>k e. m k = Some e \<and> allocation_charge e = used)"
  shows "used - allocation_charge e \<le> cap
    \<or> (\<exists>k'. (m(k := None)) k' \<noteq> None \<and> map_option allocation_charge ((m(k := None)) k') = Some (used - allocation_charge e))"
proof (cases "used \<le> cap")
  case False
  then obtain k0 e0 where k0: "m k0 = Some e0" "allocation_charge e0 = used" using soft by blast
  have t: "used = map_total allocation_charge (m(k := None)) + allocation_charge e"
    using map_total_remove [OF assms(1,2)] u by simp
  show ?thesis
  proof (cases "k0 = k")
    case True
    then show ?thesis using k0 assms(2) by simp
  next
    case False
    then have "(m(k := None)) k0 = Some e0" using k0 by simp
    moreover have "finite (dom (m(k := None)))" using assms(1) by simp
    ultimately have "allocation_charge e0 \<le> map_total allocation_charge (m(k := None))"
      using map_total_remove [of "m(k := None)" k0 e0 allocation_charge] by simp
    then have "allocation_charge e = 0" using t k0(2) by linarith
    then have "map_option allocation_charge ((m(k := None)) k0) = Some (used - allocation_charge e)"
      using k0 False by simp
    then show ?thesis by (metis option.map(1) option.distinct(1))
  qed
qed auto

lemma remove_memory_entry_ok:
  assumes ok: "memory_state_ok env out u n ((mm, p), sh)" and k: "memory_entries_by_key sh k = Some e"
  obtains mm1 p1 sh1 where "remove_memory_entry k ((mm, p), sh) = Some (((mm1, p1), sh1), True)"
    and "memory_state_ok env out u n ((mm1, p1), sh1)"
    and "\<And>k'. memory_get k' sh1 = (if k' = k then None else memory_get k' sh)"
    and "shard_capacity sh1 = shard_capacity sh" and "pool_capacity p1 = pool_capacity p"
    and "counters mm1 = counters (mm\<lparr>memory_entries := memory_entries mm - 1\<rparr>)"
proof -
  let ?m = "memory_entries_by_key sh" and ?cs = "memory_candidates sh"
  let ?i = "candidate_position e" and ?cs1 = "swap_remove (candidate_position e) (memory_candidates sh)"
  have c: "mci.consistent ?m ?cs" and used: "shard_used sh = map_total allocation_charge ?m"
    and soft: "shard_used sh \<le> shard_capacity sh \<or> (\<exists>k e. ?m k = Some e \<and> allocation_charge e = shard_used sh)"
    and fit: "\<And>k e. ?m k = Some e \<Longrightarrow> length (entry_bytes e) \<le> allocation_charge e"
    and pok: "pool_ok env out (mm, p)" and pu: "pool_used p = u + shard_used sh"
    and me: "memory_entries mm = n + int (entry_count sh)"
    using ok by (auto simp: memory_state_ok_def memory_shard_ok_def)
  obtain m2 where m2: "mci.repair ?i ?cs1 (?m(k := None)) = Some m2" "mci.consistent m2 ?cs1"
      "\<And>k'. map_option (candidate_position_update (\<lambda>_. 0)) (m2 k')
        = map_option (candidate_position_update (\<lambda>_. 0)) ((?m(k := None)) k')"
    using mci.consistent_remove [OF c k] by auto
  note get = repaired_get [of m2 "?m(k := None)", OF m2(3)]
  have i: "?i < length ?cs" using mci.consistent_entry [OF c k] by simp
  have fin: "finite (dom ?m)" by (rule mci.consistent_finite [OF c])
  have t: "shard_used sh = map_total allocation_charge (?m(k := None)) + allocation_charge e"
    using map_total_remove [OF fin k] used by simp
  have same_dom: "dom m2 = dom (?m(k := None))"
  proof (rule set_eqI)
    fix k' show "k' \<in> dom m2 \<longleftrightarrow> k' \<in> dom (?m(k := None))"
      using m2(3) [of k'] unfolding domIff by (cases "m2 k'"; cases "(?m(k := None)) k'") auto
  qed
  have t2: "map_total allocation_charge m2 = shard_used sh - allocation_charge e"
  proof -
    have "map_total allocation_charge m2 = map_total allocation_charge (?m(k := None))"
    proof (rule map_total_cong [OF same_dom])
      fix k' v v' assume "m2 k' = Some v" and "(?m(k := None)) k' = Some v'"
      then show "allocation_charge v = allocation_charge v'" using get(2) [of k'] by simp
    qed
    then show ?thesis using t by simp
  qed
  obtain mm1 p1 where r: "remove_used_bytes (allocation_charge e) (mm, p) = Some (mm1, p1)"
      "pool_ok env out (mm1, p1)" "pool_used p1 = pool_used p - allocation_charge e"
      "pool_capacity p1 = pool_capacity p" "counters mm1 = counters mm"
    using remove_used_bytes_ok [OF pok, of "allocation_charge e"] pu t by auto
  let ?mm1 = "mm1\<lparr>memory_entries := memory_entries mm1 - 1\<rparr>"
  let ?sh1 = "sh\<lparr>shard_used := shard_used sh - allocation_charge e, memory_candidates := ?cs1, memory_entries_by_key := m2\<rparr>"
  have rem: "remove_memory_entry k ((mm, p), sh) = Some (((?mm1, p1), ?sh1), True)"
    using k i t r(1) m2(1) unfolding remove_memory_entry_def mci.repair_def by (simp add: Let_def)
  have fit2: "length (entry_bytes e2) \<le> allocation_charge e2" if e2: "m2 k' = Some e2" for k' e2
  proof -
    obtain e1 where "(?m(k := None)) k' = Some e1" "entry_bytes e1 = entry_bytes e2" "allocation_charge e1 = allocation_charge e2"
      using get [of k'] e2 by (cases "(?m(k := None)) k'") (auto simp del: fun_upd_apply)
    then show ?thesis using fit [of k' e1] by (simp split: if_splits)
  qed
  have soft2: "shard_used sh - allocation_charge e \<le> shard_capacity sh
      \<or> (\<exists>k' e'. m2 k' = Some e' \<and> allocation_charge e' = shard_used sh - allocation_charge e)"
    using soft_capacity_remove [OF fin k used soft] unfolding get(2) [symmetric]
    by (auto simp only: map_option_eq_Some)
  have "memory_shard_ok ?sh1" using m2(2) t2 fit2 soft2 by (auto simp: memory_shard_ok_def)
  moreover have "int (entry_count ?sh1) = int (entry_count sh) - 1" using i by (simp add: entry_count_def)
  ultimately have "memory_state_ok env out u n ((?mm1, p1), ?sh1)"
    using r me pu t by (simp add: memory_state_ok_def pool_ok_counters counters_def)
  then show ?thesis using that [OF rem] r get(1) by (simp add: memory_get_def counters_def)
qed

subsection \<open>Insertion\<close>

lemma memory_victim_exists:
  assumes ok: "memory_shard_ok sh" and used: "0 < shard_used sh" and n: "0 < n"
    and sample: "sample = snd (sample_candidates (memory_sample_start sh) (memory_candidates sh) n)"
  shows "\<exists>v. memory_victim score (memory_entries_by_key sh) sample = Some v"
proof -
  let ?m = "memory_entries_by_key sh"
  have c: "mci.consistent ?m (memory_candidates sh)" using ok by (simp add: memory_shard_ok_def)
  have "dom ?m \<noteq> {}"
  proof
    assume "dom ?m = {}"
    then have "map_total allocation_charge ?m = 0" by (simp add: map_total_def)
    then show False using ok used by (simp add: memory_shard_ok_def)
  qed
  then have "memory_candidates sh \<noteq> []" using mci.consistent_dom [OF c] by auto
  then have "0 < length sample"
    using n length_sample [of "memory_sample_start sh" "memory_candidates sh" n] sample by (simp add: min_def)
  then have "sample \<noteq> []" by simp
  moreover have "list_all (\<lambda>k. ?m k \<noteq> None) sample"
    using set_sample [of "memory_sample_start sh" "memory_candidates sh" n] mci.consistent_dom [OF c] sample
    by (auto simp: list_all_iff)
  moreover have "min_first (\<lambda>sk. sk) (map (\<lambda>k. (score k (length (entry_bytes (the (?m k)))), k)) sample) \<noteq> None"
    using \<open>sample \<noteq> []\<close> by (simp only: min_first_None map_is_Nil_conv not_False_eq_True)
  ultimately show ?thesis unfolding memory_victim_def by (auto simp del: min_first_None)
qed

lemma try_insert_ok:
  fixes score :: "object_key_hash \<Rightarrow> nat \<Rightarrow> 's::linorder"
  assumes ok: "memory_state_ok env out u n ((mm, p), sh)" and size: "0 < sample_size" and len: "length bs \<le> charge"
  obtains (present) e where "memory_entries_by_key sh k = Some e"
      and "try_insert score sample_size k bs charge ((mm, p), sh)
        = Some (((mm\<lparr>redundant_insertions := redundant_insertions mm + 1\<rparr>, p), sh), AlreadyPresent)"
  | (inserted) mm1 p1 sh1 where "memory_entries_by_key sh k = None"
      and "try_insert score sample_size k bs charge ((mm, p), sh) = Some (((mm1, p1), sh1), Inserted)"
      and "memory_state_ok env out u n ((mm1, p1), sh1)"
      and "\<And>k'. memory_get k' sh1 = (if k' = k then Some bs else memory_get k' sh)"
      and "shard_capacity sh1 = shard_capacity sh" and "pool_capacity p1 = pool_capacity p"
      and "counters mm1 = counters (mm\<lparr>memory_entries := memory_entries mm + 1, insertions := insertions mm + 1\<rparr>)"
  | (evicting) victim mm1 p1 sh1 where "memory_entries_by_key sh k = None" and "\<not> shard_used sh \<le> shard_capacity sh - charge"
      and "try_insert score sample_size k bs charge ((mm, p), sh) = Some (((mm1, p1), sh1), EvictedButDidNotInsert)"
      and "memory_state_ok env out u n ((mm1, p1), sh1)" and "memory_get victim sh \<noteq> None"
      and "\<And>k'. memory_get k' sh1 = (if k' = victim then None else memory_get k' sh)"
      and "shard_capacity sh1 = shard_capacity sh" and "pool_capacity p1 = pool_capacity p"
      and "counters mm1 = counters (mm\<lparr>memory_entries := memory_entries mm - 1\<rparr>)"
proof (cases "memory_entries_by_key sh k")
  case (Some e)
  then show ?thesis using present by (simp add: try_insert_def)
next
  case None
  show ?thesis
  proof (cases "shard_used sh \<le> shard_capacity sh - charge")
    case True
    obtain mm1 p1 sh1 where a: "add_memory_entry k bs charge ((mm, p), sh) = Some ((mm1, p1), sh1)"
        "memory_state_ok env out u n ((mm1, p1), sh1)"
        "\<And>k'. memory_get k' sh1 = (if k' = k then Some bs else memory_get k' sh)"
        "shard_capacity sh1 = shard_capacity sh" "pool_capacity p1 = pool_capacity p"
        "counters mm1 = counters (mm\<lparr>memory_entries := memory_entries mm + 1\<rparr>)"
      using add_memory_entry_ok [OF ok None True len] by blast
    show ?thesis
      by (rule inserted [OF None, of "mm1\<lparr>insertions := insertions mm1 + 1\<rparr>" p1 sh1])
        (use a True None in \<open>simp_all add: try_insert_def memory_state_ok_def pool_ok_counters counters_def\<close>)
  next
    case False
    obtain start sample where sc: "sample_candidates (memory_sample_start sh) (memory_candidates sh) sample_size = (start, sample)"
      by (cases "sample_candidates (memory_sample_start sh) (memory_candidates sh) sample_size")
    have sok: "memory_shard_ok sh" using ok by (simp add: memory_state_ok_def)
    obtain v where v: "memory_victim score (memory_entries_by_key sh) sample = Some v"
      using memory_victim_exists [OF sok _ size, of sample score] False sc by auto
    then obtain e where e: "memory_entries_by_key sh v = Some e" using memory_victim_present by blast
    let ?sh = "sh\<lparr>memory_sample_start := start\<rparr>"
    have ok1: "memory_state_ok env out u n ((mm, p), ?sh)"
      using ok by (auto simp: memory_state_ok_def memory_shard_ok_def entry_count_def)
    have e1: "memory_entries_by_key ?sh v = Some e" using e by simp
    obtain mm1 p1 sh1 where r: "remove_memory_entry v ((mm, p), ?sh) = Some (((mm1, p1), sh1), True)"
        "memory_state_ok env out u n ((mm1, p1), sh1)"
        "\<And>k'. memory_get k' sh1 = (if k' = v then None else memory_get k' ?sh)"
        "shard_capacity sh1 = shard_capacity ?sh" "pool_capacity p1 = pool_capacity p"
        "counters mm1 = counters (mm\<lparr>memory_entries := memory_entries mm - 1\<rparr>)"
      using remove_memory_entry_ok [OF ok1 e1] by blast
    show ?thesis
      by (rule evicting [OF None False, of mm1 p1 sh1 v])
        (use r v e sc None False in \<open>simp_all add: try_insert_def memory_get_def\<close>)
  qed
qed

text \<open>What a completed insertion guarantees of the shard.\<close>

definition insertion_effect :: "object_key_hash \<Rightarrow> byte list \<Rightarrow> bool \<Rightarrow> memory_shard \<Rightarrow> memory_shard \<Rightarrow> bool" where
  "insertion_effect k bs inserted sh sh1 \<longleftrightarrow>
    inserted = (memory_get k sh = None)
    \<and> (if inserted then memory_get k sh1 = Some bs else sh1 = sh)
    \<and> (\<forall>k'. k' \<noteq> k \<longrightarrow> memory_get k' sh1 = None \<or> memory_get k' sh1 = memory_get k' sh)"

definition insertion_counts :: "bool \<Rightarrow> memory_metrics \<Rightarrow> memory_metrics \<Rightarrow> bool" where
  "insertion_counts inserted mm mm1 \<longleftrightarrow>
    insertions mm1 = insertions mm + (if inserted then 1 else 0)
    \<and> redundant_insertions mm1 = redundant_insertions mm + (if inserted then 0 else 1)
    \<and> removals mm1 = removals mm
    \<and> memory_eviction_triggering_insertions mm1 = memory_eviction_triggering_insertions mm"

lemma insert_loop_ok:
  fixes score :: "object_key_hash \<Rightarrow> nat \<Rightarrow> 's::linorder"
  assumes "memory_state_ok env out u n ((mm, p), sh)" and "0 < sample_size" and "length bs \<le> charge"
  shows "\<exists>mm1 p1 sh1 ins ev1. insert_loop score sample_size k bs charge ((mm, p), sh) ev = Some (((mm1, p1), sh1), ins, ev1)
    \<and> memory_state_ok env out u n ((mm1, p1), sh1) \<and> insertion_effect k bs ins sh sh1 \<and> insertion_counts ins mm mm1
    \<and> shard_capacity sh1 = shard_capacity sh \<and> pool_capacity p1 = pool_capacity p
    \<and> (ev1 \<longleftrightarrow> ev \<or> (\<exists>k'. memory_get k' sh \<noteq> None \<and> memory_get k' sh1 = None))"
  using assms
proof (induction "length (memory_candidates sh)" arbitrary: mm p sh ev rule: less_induct)
  case less
  note unfold = insert_loop.simps [of score sample_size k bs charge "((mm, p), sh)" ev]
  show ?case using less.prems
  proof (cases rule: try_insert_ok [where score = score and k = k])
    case (present e)
    then have "insert_loop score sample_size k bs charge ((mm, p), sh) ev
        = Some (((mm\<lparr>redundant_insertions := redundant_insertions mm + 1\<rparr>, p), sh), False, ev)"
      unfolding unfold by simp
    moreover have "insertion_effect k bs False sh sh" using present(1) by (simp add: insertion_effect_def memory_get_def)
    moreover have "insertion_counts False mm (mm\<lparr>redundant_insertions := redundant_insertions mm + 1\<rparr>)"
      by (simp add: insertion_counts_def)
    moreover have "memory_state_ok env out u n ((mm\<lparr>redundant_insertions := redundant_insertions mm + 1\<rparr>, p), sh)"
      using less.prems(1) by (simp add: memory_state_ok_def pool_ok_counters)
    ultimately show ?thesis by blast
  next
    case (inserted mm1 p1 sh1)
    have k: "memory_get k sh = None" using inserted(1) by (simp add: memory_get_def)
    have "insert_loop score sample_size k bs charge ((mm, p), sh) ev = Some (((mm1, p1), sh1), True, ev)"
      using inserted(2) unfolding unfold by simp
    moreover have "insertion_effect k bs True sh sh1" using k inserted(4) by (simp add: insertion_effect_def)
    moreover have "insertion_counts True mm mm1" using inserted(7) by (simp add: insertion_counts_def counters_def)
    moreover have "\<not> (\<exists>k'. memory_get k' sh \<noteq> None \<and> memory_get k' sh1 = None)" using inserted(4) by (auto split: if_splits)
    ultimately show ?thesis using inserted(3,5,6) by blast
  next
    case (evicting v mm1 p1 sh1)
    have "length (memory_candidates sh1) < length (memory_candidates sh)"
      using try_insert_shrinks [OF evicting(3)] by simp
    then obtain mm2 p2 sh2 ins ev2 where
        l: "insert_loop score sample_size k bs charge ((mm1, p1), sh1) True = Some (((mm2, p2), sh2), ins, ev2)"
        "memory_state_ok env out u n ((mm2, p2), sh2)" "insertion_effect k bs ins sh1 sh2" "insertion_counts ins mm1 mm2"
        "shard_capacity sh2 = shard_capacity sh1" "pool_capacity p2 = pool_capacity p1" "ev2"
      using less.hyps [OF _ evicting(4) less.prems(2,3), where ev = True] by auto
    have step: "insert_loop score sample_size k bs charge ((mm, p), sh) ev = Some (((mm2, p2), sh2), ins, ev2)"
      using l(1) evicting(3) unfolding unfold by simp
    have k: "memory_get k sh = None" using evicting(1) by (simp add: memory_get_def)
    then have vk: "v \<noteq> k" using evicting(5) by auto
    have k1: "memory_get k sh1 = None" using evicting(6) [of k] k vk by simp
    then have ins: "ins" using l(3) by (simp add: insertion_effect_def)
    have v1: "memory_get v sh1 = None" using evicting(6) [of v] by simp
    then have v2: "memory_get v sh2 = None" using l(3) vk by (auto simp: insertion_effect_def)
    have others: "memory_get k' sh2 = None \<or> memory_get k' sh2 = memory_get k' sh" if "k' \<noteq> k" for k'
      using l(3) evicting(6) [of k'] that by (auto simp: insertion_effect_def split: if_splits)
    have "insertion_effect k bs ins sh sh2"
      using l(3) ins k others by (simp add: insertion_effect_def)
    moreover have "insertion_counts ins mm mm2" using l(4) evicting(9) by (simp add: insertion_counts_def counters_def)
    moreover have "shard_capacity sh2 = shard_capacity sh" "pool_capacity p2 = pool_capacity p"
      using l(5,6) evicting(7,8) by simp_all
    ultimately show ?thesis using step l(2,7) evicting(5) v2 by blast
  qed
qed

subsection \<open>Invariant of the cache\<close>

definition total_used :: "memory_shard list \<Rightarrow> nat" where
  "total_used shs = sum_list (map shard_used shs)"

definition total_entries :: "memory_shard list \<Rightarrow> nat" where
  "total_entries shs = sum_list (map entry_count shs)"

definition memory_cache_ok :: "(object_key_hash \<Rightarrow> u64) \<Rightarrow> memory_env \<Rightarrow> aligned_buffer list \<Rightarrow> memory_cache \<Rightarrow> bool" where
  "memory_cache_ok fx env out c \<longleftrightarrow>
    pool_ok env out (memory_pool c) \<and> memory_shards c \<noteq> [] \<and> 0 < reclaim_sample_size c
    \<and> (\<forall>sh \<in> set (memory_shards c). memory_shard_ok sh)
    \<and> pool_used (snd (memory_pool c)) = total_used (memory_shards c)
    \<and> memory_entries (fst (memory_pool c)) = int (total_entries (memory_shards c))
    \<and> sum_list (map shard_capacity (memory_shards c)) = pool_capacity (snd (memory_pool c))
    \<and> (\<forall>i < length (memory_shards c). \<forall>k. memory_get k (memory_shards c ! i) \<noteq> None \<longrightarrow> shard_index fx k c = i)"

lemma sum_list_replace:
  fixes xs :: "nat list"
  assumes "i < length xs"
  shows "sum_list (xs[i := v]) + xs ! i = sum_list xs + v" and "xs ! i \<le> sum_list xs"
  using sum_list_update [OF assms, of v] elem_le_sum_list [OF assms] by simp_all

lemma shard_index_less: "memory_shards c \<noteq> [] \<Longrightarrow> shard_index fx k c < length (memory_shards c)"
  by (simp add: shard_index_def)

lemma shard_index_update:
  "shard_index fx k (c\<lparr>memory_shards := (memory_shards c)[i := sh], memory_pool := ps\<rparr>) = shard_index fx k c"
  by (simp add: shard_index_def)

lemma memory_cache_shard:
  assumes ok: "memory_cache_ok fx env out c" and i: "i < length (memory_shards c)"
    and sh: "sh = memory_shards c ! i" and ps: "memory_pool c = (mm, p)"
  shows "memory_state_ok env out (total_used (memory_shards c) - shard_used sh)
    (int (total_entries (memory_shards c)) - int (entry_count sh)) ((mm, p), sh)"
proof -
  have "sh \<in> set (memory_shards c)" using i sh by simp
  moreover have "shard_used sh \<le> total_used (memory_shards c)"
    using sum_list_replace(2) [of i "map shard_used (memory_shards c)"] i sh by (simp add: total_used_def)
  ultimately show ?thesis using ok ps by (simp add: memory_cache_ok_def memory_state_ok_def)
qed

lemma memory_cache_put:
  assumes ok: "memory_cache_ok fx env out c" and i: "i < length (memory_shards c)" and sh: "sh = memory_shards c ! i"
    and st: "memory_state_ok env out1 (total_used (memory_shards c) - shard_used sh)
      (int (total_entries (memory_shards c)) - int (entry_count sh)) ((mm1, p1), sh1)"
    and cap: "shard_capacity sh1 = shard_capacity sh" "pool_capacity p1 = pool_capacity (snd (memory_pool c))"
    and keys: "\<And>k. memory_get k sh1 \<noteq> None \<Longrightarrow> memory_get k sh \<noteq> None \<or> shard_index fx k c = i"
  shows "memory_cache_ok fx env out1 (c\<lparr>memory_shards := (memory_shards c)[i := sh1], memory_pool := (mm1, p1)\<rparr>)"
    (is "memory_cache_ok fx env out1 ?c")
proof -
  let ?shs = "memory_shards c"
  have u: "total_used (?shs[i := sh1]) + shard_used sh = total_used ?shs + shard_used sh1"
      "shard_used sh \<le> total_used ?shs"
    using sum_list_replace(1) [of i "map shard_used ?shs" "shard_used sh1"]
      sum_list_replace(2) [of i "map shard_used ?shs"] i sh by (simp_all add: total_used_def map_update)
  have e: "total_entries (?shs[i := sh1]) + entry_count sh = total_entries ?shs + entry_count sh1"
    using sum_list_replace(1) [of i "map entry_count ?shs" "entry_count sh1"] i sh by (simp add: total_entries_def map_update)
  have cs: "(map shard_capacity ?shs)[i := shard_capacity sh1] = map shard_capacity ?shs"
    using cap(1) i sh by (simp add: list_update_same_conv)
  have idx: "shard_index fx k ?c = shard_index fx k c" for k by (simp add: shard_index_def)
  have place: "shard_index fx k c = j" if "j < length ?shs" and g: "memory_get k (?shs[i := sh1] ! j) \<noteq> None" for j k
  proof (cases "j = i")
    case True
    then have "memory_get k sh1 \<noteq> None" using g i by simp
    from keys [OF this] show ?thesis using True ok i sh by (auto simp: memory_cache_ok_def)
  next
    case False
    then show ?thesis using that ok by (simp add: memory_cache_ok_def)
  qed
  have shards: "\<forall>s \<in> set (?shs[i := sh1]). memory_shard_ok s"
    using ok st set_update_subset_insert [of ?shs i sh1] by (auto simp: memory_cache_ok_def memory_state_ok_def)
  show ?thesis using ok st u e cap cs idx place shards
    unfolding memory_cache_ok_def memory_state_ok_def by (simp add: map_update)
qed

lemma shard_capacity_sum:
  assumes "0 < n"
  shows "sum_list (map (shard_capacity_for t n) [0..<n]) = t"
proof -
  have eq: "sum_list (map (\<lambda>i. d + (if i < r then 1 else 0)) [0..<m]) = m * d + min m r" for m d r :: nat
    by (induction m) auto
  have "t mod n < n" using assms by simp
  then have "n * (t div n) + min n (t mod n) = t" by (simp add: min_def)
  then show ?thesis unfolding shard_capacity_for_def eq .
qed

lemma with_shard_count_ok:
  assumes "pool_ok env out ps" and "pool_used (snd ps) = 0" and "memory_entries (fst ps) = 0"
    and "with_shard_count ps n = Some c"
  shows "memory_cache_ok fx env out c"
proof -
  have n: "0 < n" and c: "c = \<lparr>memory_shards = map (\<lambda>i. new_memory_shard (shard_capacity_for (pool_capacity (snd ps)) n i)) [0..<n],
      memory_pool = ps, reclaim_sample_size = RECLAIM_SAMPLE_SIZE\<rparr>"
    using assms(4) by (auto simp: with_shard_count_def split: if_splits)
  have z: "sum_list (map (\<lambda>_. 0) xs) = (0 :: nat)" for xs :: "nat list" by (induction xs) auto
  have cap: "sum_list (map shard_capacity (memory_shards c)) = pool_capacity (snd ps)"
    using shard_capacity_sum [OF n, of "pool_capacity (snd ps)"]
    by (simp add: c comp_def new_memory_shard_def)
  have "total_used (memory_shards c) = 0" and "total_entries (memory_shards c) = 0"
    using z by (simp_all add: c total_used_def total_entries_def comp_def new_memory_shard_def entry_count_def)
  then show ?thesis using assms(1-3) n cap new_memory_shard_ok
    by (auto simp: memory_cache_ok_def c RECLAIM_SAMPLE_SIZE_def memory_get_def new_memory_shard_def)
qed



subsection \<open>Operations of the cache\<close>

lemma pool_bookkeeping:
  "memory_state_ok env out u n ((mm\<lparr>memory_eviction_triggering_insertions := w\<rparr>, p), sh) = memory_state_ok env out u n ((mm, p), sh)"
  "memory_state_ok env out u n ((mm\<lparr>removals := w\<rparr>, p), sh) = memory_state_ok env out u n ((mm, p), sh)"
  by (simp_all add: memory_state_ok_def pool_ok_counters)

text \<open>What an insertion does to the cache, seen through lookups.\<close>

definition cache_insertion :: "(object_key_hash \<Rightarrow> u64) \<Rightarrow> object_key_hash \<Rightarrow> byte list \<Rightarrow> bool \<Rightarrow> memory_cache \<Rightarrow> memory_cache \<Rightarrow> bool" where
  "cache_insertion fx k bs inserted c c1 \<longleftrightarrow>
    inserted = (get_memory fx k c = None)
    \<and> get_memory fx k c1 = (if inserted then Some bs else get_memory fx k c)
    \<and> (\<forall>k'. k' \<noteq> k \<longrightarrow> get_memory fx k' c1 = get_memory fx k' c
        \<or> inserted \<and> get_memory fx k' c1 = None \<and> shard_index fx k' c = shard_index fx k c)"

lemma insert_memory_ok:
  fixes score :: "object_key_hash \<Rightarrow> nat \<Rightarrow> 's::linorder"
  assumes ok: "memory_cache_ok fx env out c" and len: "length bs \<le> charge"
  obtains c1 inserted where "insert_memory fx score k bs charge c = Some (c1, inserted)"
    and "memory_cache_ok fx env out c1" and "cache_insertion fx k bs inserted c c1"
    and "pool_capacity (snd (memory_pool c1)) = pool_capacity (snd (memory_pool c))"
    and "insertions (fst (memory_pool c1)) + redundant_insertions (fst (memory_pool c1))
      = insertions (fst (memory_pool c)) + redundant_insertions (fst (memory_pool c)) + 1"
proof -
  let ?i = "shard_index fx k c" and ?shs = "memory_shards c"
  obtain mm p where ps: "memory_pool c = (mm, p)" by (cases "memory_pool c")
  have i: "?i < length ?shs" using ok shard_index_less by (auto simp: memory_cache_ok_def)
  have size: "0 < reclaim_sample_size c" using ok by (simp add: memory_cache_ok_def)
  obtain sh where sh: "sh = ?shs ! ?i" by blast
  let ?u = "total_used ?shs - shard_used sh" and ?n = "int (total_entries ?shs) - int (entry_count sh)"
  note st = memory_cache_shard [OF ok i sh ps]
  obtain mm1 p1 sh1 ins ev where l:
      "insert_loop score (reclaim_sample_size c) k bs charge ((mm, p), sh) False = Some (((mm1, p1), sh1), ins, ev)"
      "memory_state_ok env out ?u ?n ((mm1, p1), sh1)" "insertion_effect k bs ins sh sh1" "insertion_counts ins mm mm1"
      "shard_capacity sh1 = shard_capacity sh" "pool_capacity p1 = pool_capacity p"
    using insert_loop_ok [OF st size len, of score k False] by blast
  define mm2 where "mm2 = (if ev then mm1\<lparr>memory_eviction_triggering_insertions :=
      memory_eviction_triggering_insertions mm1 + 1\<rparr> else mm1)"
  let ?c1 = "c\<lparr>memory_shards := ?shs[?i := sh1], memory_pool := (mm2, p1)\<rparr>"
  have ins: "insert_memory fx score k bs charge c = Some (?c1, ins)"
    using l(1) len ps sh by (simp add: insert_memory_def Let_def mm2_def)
  have st2: "memory_state_ok env out ?u ?n ((mm2, p1), sh1)" using l(2) by (simp add: mm2_def pool_bookkeeping)
  have keys: "memory_get k' sh \<noteq> None \<or> shard_index fx k' c = ?i" if "memory_get k' sh1 \<noteq> None" for k'
    using l(3) that by (cases "k' = k") (auto simp: insertion_effect_def)
  have c1: "memory_cache_ok fx env out ?c1"
    by (rule memory_cache_put [OF ok i sh st2 l(5) _ keys]) (use l(6) ps in simp_all)
  have idx: "shard_index fx k' ?c1 = shard_index fx k' c" for k' by (simp add: shard_index_def)
  have get: "get_memory fx k' ?c1 = (if shard_index fx k' c = ?i then memory_get k' sh1 else get_memory fx k' c)" for k'
    using i by (simp add: get_memory_def idx)
  have get0: "get_memory fx k' c = memory_get k' sh" if "shard_index fx k' c = ?i" for k'
    using that sh by (simp add: get_memory_def)
  have others: "get_memory fx k' ?c1 = get_memory fx k' c
      \<or> ins \<and> get_memory fx k' ?c1 = None \<and> shard_index fx k' c = ?i" if "k' \<noteq> k" for k'
    using get [of k'] get0 [of k'] l(3) that by (auto simp: insertion_effect_def split: if_splits)
  have "cache_insertion fx k bs ins c ?c1" unfolding cache_insertion_def
    using others get [of k] get0 [of k] l(3) by (auto simp: insertion_effect_def split: if_splits)
  moreover have "insertions mm2 + redundant_insertions mm2 = insertions mm + redundant_insertions mm + 1"
    using l(4) by (auto simp: insertion_counts_def mm2_def)
  ultimately show ?thesis using that [OF ins c1] ps l(6) by simp
qed

lemma remove_memory_ok:
  assumes ok: "memory_cache_ok fx env out c"
  obtains c1 where "remove_memory fx k c = Some (c1, get_memory fx k c \<noteq> None)"
    and "memory_cache_ok fx env out c1" and "\<And>k'. get_memory fx k' c1 = (if k' = k then None else get_memory fx k' c)"
    and "pool_capacity (snd (memory_pool c1)) = pool_capacity (snd (memory_pool c))"
proof -
  let ?i = "shard_index fx k c" and ?shs = "memory_shards c"
  obtain mm p where ps: "memory_pool c = (mm, p)" by (cases "memory_pool c")
  have i: "?i < length ?shs" using ok shard_index_less by (auto simp: memory_cache_ok_def)
  obtain sh where sh: "sh = ?shs ! ?i" by blast
  let ?u = "total_used ?shs - shard_used sh" and ?n = "int (total_entries ?shs) - int (entry_count sh)"
  note st = memory_cache_shard [OF ok i sh ps]
  show ?thesis
  proof (cases "memory_entries_by_key sh k")
    case None
    then have g: "get_memory fx k c = None" using sh by (simp add: get_memory_def memory_get_def)
    have "remove_memory fx k c = Some (c\<lparr>memory_shards := ?shs[?i := sh], memory_pool := (mm, p)\<rparr>, False)"
      using None sh ps by (simp add: remove_memory_def remove_from_shard_def remove_memory_entry_def Let_def)
    moreover have "c\<lparr>memory_shards := ?shs[?i := sh], memory_pool := (mm, p)\<rparr> = c" using ps sh by simp
    ultimately have r: "remove_memory fx k c = Some (c, get_memory fx k c \<noteq> None)" by (simp only: g simp_thms)
    have "get_memory fx k' c = (if k' = k then None else get_memory fx k' c)" for k'
      using g by simp
    then show ?thesis by (rule that [OF r ok]) simp
  next
    case (Some e)
    obtain mm1 p1 sh1 where r: "remove_memory_entry k ((mm, p), sh) = Some (((mm1, p1), sh1), True)"
        "memory_state_ok env out ?u ?n ((mm1, p1), sh1)"
        "\<And>k'. memory_get k' sh1 = (if k' = k then None else memory_get k' sh)"
        "shard_capacity sh1 = shard_capacity sh" "pool_capacity p1 = pool_capacity p"
        "counters mm1 = counters (mm\<lparr>memory_entries := memory_entries mm - 1\<rparr>)"
      by (rule remove_memory_entry_ok [OF st Some]) (rule that, assumption+)
    let ?mm = "mm1\<lparr>removals := removals mm1 + 1\<rparr>"
    let ?c1 = "c\<lparr>memory_shards := ?shs[?i := sh1], memory_pool := (?mm, p1)\<rparr>"
    have g: "get_memory fx k c \<noteq> None" using Some sh by (simp add: get_memory_def memory_get_def)
    have rem: "remove_memory fx k c = Some (?c1, True)"
      using r(1) sh ps by (simp add: remove_memory_def remove_from_shard_def)
    have st2: "memory_state_ok env out ?u ?n ((?mm, p1), sh1)" using r(2) by (simp add: pool_bookkeeping)
    have c1: "memory_cache_ok fx env out ?c1"
      by (rule memory_cache_put [OF ok i sh st2 r(4)]) (use r(3,5) ps in \<open>auto split: if_splits\<close>)
    have "get_memory fx k' ?c1 = (if k' = k then None else get_memory fx k' c)" for k'
      using r(3) [of k'] i sh by (cases "shard_index fx k' c = ?i") (auto simp: get_memory_def shard_index_update)
    then show ?thesis using that [of ?c1] rem c1 g r(5) ps by simp
  qed
qed

text \<open>C25: Inserting into the memory cache always ends, whatever the scorer: an absent object is stored and
  found afterwards, an existing entry is kept and the supplied bytes are discarded, and other keys
  keep their bytes or are evicted, and only from the shard of the inserted key.\<close>

theorem memory_insert_effect:
  fixes score :: "object_key_hash \<Rightarrow> nat \<Rightarrow> 's::linorder"
  assumes "memory_cache_ok fx env out c" and "length bs \<le> charge"
  shows "\<exists>c1 inserted. insert_memory fx score k bs charge c = Some (c1, inserted)
    \<and> memory_cache_ok fx env out c1
    \<and> inserted = (get_memory fx k c = None)
    \<and> get_memory fx k c1 = (if inserted then Some bs else get_memory fx k c)
    \<and> (\<forall>k'. k' \<noteq> k \<longrightarrow> get_memory fx k' c1 = get_memory fx k' c
        \<or> inserted \<and> get_memory fx k' c1 = None \<and> shard_index fx k' c = shard_index fx k c)"
proof -
  obtain c1 inserted where "insert_memory fx score k bs charge c = Some (c1, inserted)"
      "memory_cache_ok fx env out c1" "cache_insertion fx k bs inserted c c1"
    by (rule insert_memory_ok [OF assms, of score k]) (rule that, assumption+)
  then show ?thesis unfolding cache_insertion_def by blast
qed

definition example_memory :: memory_cache where
  "example_memory = the (with_shard_count (new_buffer_pool 10 new_memory_metrics) 1)"

lemma example_memory_ok: "memory_cache_ok fx example_env [] example_memory"
  by (rule with_shard_count_ok [of _ _ "new_buffer_pool 10 new_memory_metrics" 1])
    (auto simp: example_memory_def with_shard_count_def new_buffer_pool_ok, auto simp: new_buffer_pool_def new_memory_metrics_def)

theorem memory_insert_effect_witness:
  "\<exists>c1 inserted. insert_memory (\<lambda>_. 0) (\<lambda>_ _. 0 :: nat) 7 [1, 2, 3] 4 example_memory = Some (c1, inserted)
    \<and> inserted \<and> get_memory (\<lambda>_. 0) 7 c1 = Some [1, 2, 3]"
proof -
  have g: "get_memory (\<lambda>_. 0) 7 example_memory = None"
    by (simp add: example_memory_def with_shard_count_def get_memory_def memory_get_def new_memory_shard_def shard_index_def)
  show ?thesis using memory_insert_effect [OF example_memory_ok, of "[1, 2, 3]" 4 "\<lambda>_. 0" "\<lambda>_ _. 0 :: nat" 7] g by auto
qed

subsection \<open>Runs of the memory tier\<close>

text \<open>Any sequence of operations on the cache and its pool. Scores may change between operations, as
  histories do.\<close>

inductive memory_step :: "(object_key_hash \<Rightarrow> u64) \<Rightarrow> memory_env \<Rightarrow> memory_cache \<times> aligned_buffer list
    \<Rightarrow> memory_cache \<times> aligned_buffer list \<Rightarrow> bool" for fx :: "object_key_hash \<Rightarrow> u64" and env :: memory_env where
  step_insert: "length bs \<le> charge \<Longrightarrow> insert_memory fx (score :: object_key_hash \<Rightarrow> nat \<Rightarrow> rat) k bs charge c = Some (c1, r)
    \<Longrightarrow> memory_step fx env (c, out) (c1, out)"
| step_remove: "remove_memory fx k c = Some (c1, r) \<Longrightarrow> memory_step fx env (c, out) (c1, out)"
| step_allocate: "allocate_buffer env len (memory_pool c) = Some (ps, Inr b)
    \<Longrightarrow> memory_step fx env (c, out) (c\<lparr>memory_pool := ps\<rparr>, b # out)"
| step_allocate_error: "allocate_buffer env len (memory_pool c) = Some (ps, Inl e)
    \<Longrightarrow> memory_step fx env (c, out) (c\<lparr>memory_pool := ps\<rparr>, out)"
| step_release: "drop_aligned_buffer b (mm, Some p) = Some (mm1, Some p1) \<Longrightarrow> memory_pool c = (mm, p)
    \<Longrightarrow> memory_step fx env (c, xs @ b # ys) (c\<lparr>memory_pool := (mm1, p1)\<rparr>, xs @ ys)"

inductive memory_run :: "(object_key_hash \<Rightarrow> u64) \<Rightarrow> memory_env \<Rightarrow> nat \<Rightarrow> memory_cache \<times> aligned_buffer list \<Rightarrow> bool"
  for fx :: "object_key_hash \<Rightarrow> u64" and env :: memory_env and cap :: nat where
  memory_start: "memory_with_metrics cap new_memory_metrics = Some c \<Longrightarrow> memory_run fx env cap (c, [])"
| memory_next: "memory_run fx env cap s \<Longrightarrow> memory_step fx env s s1 \<Longrightarrow> memory_run fx env cap s1"

lemma memory_cache_pool:
  assumes "memory_cache_ok fx env out c" and "pool_ok env out1 (mm1, p1)"
    and "pool_used p1 = pool_used (snd (memory_pool c))" and "pool_capacity p1 = pool_capacity (snd (memory_pool c))"
    and "counters mm1 = counters (fst (memory_pool c))"
  shows "memory_cache_ok fx env out1 (c\<lparr>memory_pool := (mm1, p1)\<rparr>)"
  using assms by (simp add: memory_cache_ok_def counters_def shard_index_def)

lemma memory_step_ok:
  assumes env: "mremap_keeps_pages env" and step: "memory_step fx env (c, out) (c1, out1)"
    and ok: "memory_cache_ok fx env out c"
  shows "memory_cache_ok fx env out1 c1 \<and> pool_capacity (snd (memory_pool c1)) = pool_capacity (snd (memory_pool c))"
proof -
  obtain mm p where ps: "memory_pool c = (mm, p)" by (cases "memory_pool c")
  have pok: "pool_ok env out (mm, p)" using ok ps by (simp add: memory_cache_ok_def)
  show ?thesis using step
  proof (cases rule: memory_step.cases)
    case (step_insert bs charge score k r)
    obtain c' i where i: "insert_memory fx score k bs charge c = Some (c', i)" "memory_cache_ok fx env out c'"
        "pool_capacity (snd (memory_pool c')) = pool_capacity (snd (memory_pool c))"
      by (rule insert_memory_ok [OF ok step_insert(2), of score k]) (rule that, assumption+)
    then show ?thesis using i step_insert by simp
  next
    case (step_remove k r)
    obtain c' where r: "remove_memory fx k c = Some (c', get_memory fx k c \<noteq> None)" "memory_cache_ok fx env out c'"
        "pool_capacity (snd (memory_pool c')) = pool_capacity (snd (memory_pool c))"
      by (rule remove_memory_ok [OF ok, of k]) (rule that, assumption+)
    then show ?thesis using r step_remove by simp
  next
    case (step_allocate len ps b)
    from env pok show ?thesis
      by (cases rule: allocate_buffer_ok [where len = len])
        (use step_allocate \<open>memory_pool c = (mm, p)\<close> memory_cache_pool [OF ok] in auto)
  next
    case (step_allocate_error len ps e)
    from env pok show ?thesis
      by (cases rule: allocate_buffer_ok [where len = len])
        (use step_allocate_error \<open>memory_pool c = (mm, p)\<close> memory_cache_pool [OF ok] in auto)
  next
    case (step_release b mm' p' mm1 p1 xs ys)
    then have "pool_ok env (xs @ b # ys) (mm', p')" using pok ps by simp
    from drop_aligned_buffer_ok [OF this] show ?thesis
      using step_release memory_cache_pool [OF ok, of "xs @ ys" mm1 p1] by auto
  qed
qed

lemma memory_with_metrics_ok:
  assumes "memory_with_metrics cap new_memory_metrics = Some c"
  shows "memory_cache_ok fx env [] c \<and> pool_capacity (snd (memory_pool c)) = cap"
proof -
  have w: "with_shard_count (new_buffer_pool cap new_memory_metrics) (default_shard_count cap) = Some c"
    using assms by (simp add: memory_with_metrics_def)
  have "memory_cache_ok fx env [] c"
    by (rule with_shard_count_ok [OF new_buffer_pool_ok _ _ w]) (simp_all add: new_buffer_pool_def new_memory_metrics_def)
  moreover have "memory_pool c = new_buffer_pool cap new_memory_metrics"
    using w by (auto simp: with_shard_count_def split: if_splits)
  ultimately show ?thesis by (simp add: new_buffer_pool_def)
qed

lemma memory_run_ok:
  assumes env: "mremap_keeps_pages env" and run: "memory_run fx env cap s"
  shows "memory_cache_ok fx env (snd s) (fst s) \<and> pool_capacity (snd (memory_pool (fst s))) = cap"
  using run
proof (induction rule: memory_run.induct)
  case (memory_start c)
  then show ?case using memory_with_metrics_ok [OF memory_start, of fx env] by simp
next
  case (memory_next s s1)
  then show ?case using memory_step_ok [OF env, of fx "fst s" "snd s" "fst s1" "snd s1"] by auto
qed

text \<open>C6: Whatever sequence of insertions, removals, buffer allocations and releases the memory tier sees,
  the charged bytes are exactly the charges of the cached entries, a shard exceeds its share only
  when one oversized entry accounts for all its usage, idle buffers only fill what is left of the
  capacity, every payload fits its charge, and no operation panics.\<close>

theorem memory_cache_runs_safe:
  assumes env: "mremap_keeps_pages env" and run: "memory_run fx env cap (c, out)" and ps: "memory_pool c = (mm, p)"
  shows "pool_used p = sum_list (map (\<lambda>sh. map_total allocation_charge (memory_entries_by_key sh)) (memory_shards c))
    \<and> memory_used_bytes mm = int (pool_used p + pool_idle p)
    \<and> memory_entries mm = int (sum_list (map entry_count (memory_shards c)))
    \<and> (pool_idle p = 0 \<or> pool_used p + pool_idle p \<le> cap)
    \<and> (\<forall>sh \<in> set (memory_shards c). shard_used sh \<le> shard_capacity sh
        \<or> (\<exists>k e. memory_entries_by_key sh k = Some e \<and> allocation_charge e = shard_used sh))
    \<and> (\<forall>sh \<in> set (memory_shards c). \<forall>k e. memory_entries_by_key sh k = Some e \<longrightarrow> length (entry_bytes e) \<le> allocation_charge e)
    \<and> sum_list (map shard_capacity (memory_shards c)) = cap
    \<and> (\<forall>(score :: object_key_hash \<Rightarrow> nat \<Rightarrow> rat) k bs charge. length bs \<le> charge \<longrightarrow> insert_memory fx score k bs charge c \<noteq> None)
    \<and> (\<forall>k. remove_memory fx k c \<noteq> None)"
proof -
  have ok: "memory_cache_ok fx env out c" and cap: "pool_capacity p = cap"
    using memory_run_ok [OF env run] ps by auto
  have pok: "pool_ok env out (mm, p)" using ok ps by (simp add: memory_cache_ok_def)
  have shards: "\<forall>sh \<in> set (memory_shards c). memory_shard_ok sh" using ok by (simp add: memory_cache_ok_def)
  have used: "map shard_used (memory_shards c)
      = map (\<lambda>sh. map_total allocation_charge (memory_entries_by_key sh)) (memory_shards c)"
    using shards by (intro map_cong) (auto simp: memory_shard_ok_def)
  have ins: "insert_memory fx score k bs charge c \<noteq> None" if "length bs \<le> charge"
    for score :: "object_key_hash \<Rightarrow> nat \<Rightarrow> rat" and k bs charge
    by (rule insert_memory_ok [OF ok that, of score k]) simp
  have rem: "remove_memory fx k c \<noteq> None" for k by (rule remove_memory_ok [OF ok, of k]) simp
  have "pool_used p = sum_list (map (\<lambda>sh. map_total allocation_charge (memory_entries_by_key sh)) (memory_shards c))"
    using ok ps used by (simp add: memory_cache_ok_def total_used_def)
  moreover have "memory_used_bytes mm = int (pool_used p + pool_idle p)" "pool_idle p = 0 \<or> pool_used p + pool_idle p \<le> cap"
    using pok cap by (auto simp: pool_ok_def gauges_ok_def)
  moreover have "memory_entries mm = int (sum_list (map entry_count (memory_shards c)))"
      "sum_list (map shard_capacity (memory_shards c)) = cap"
    using ok ps cap by (simp_all add: memory_cache_ok_def total_entries_def)
  moreover have "\<forall>sh \<in> set (memory_shards c). shard_used sh \<le> shard_capacity sh
      \<or> (\<exists>k e. memory_entries_by_key sh k = Some e \<and> allocation_charge e = shard_used sh)"
      "\<forall>sh \<in> set (memory_shards c). \<forall>k e. memory_entries_by_key sh k = Some e \<longrightarrow> length (entry_bytes e) \<le> allocation_charge e"
    using shards unfolding memory_shard_ok_def by blast+
  ultimately show ?thesis using ins rem by blast
qed

lemma example_memory_start: "\<exists>c. memory_with_metrics 10 new_memory_metrics = Some c"
  by (simp add: memory_with_metrics_def with_shard_count_def default_shard_count_def)

lemma example_memory_run:
  "\<exists>c. memory_run (\<lambda>_. 0) example_env 10 (c, []) \<and> get_memory (\<lambda>_. 0) 7 c = Some [1, 2, 3]"
proof -
  obtain c where c: "memory_with_metrics 10 new_memory_metrics = Some c" using example_memory_start by blast
  have ok: "memory_cache_ok (\<lambda>_. 0) example_env [] c" using memory_with_metrics_ok [OF c] by blast
  have len: "length [1, 2, 3 :: byte] \<le> 4" by simp
  obtain c1 i where i: "insert_memory (\<lambda>_. 0) (\<lambda>_ _. 0 :: rat) 7 [1, 2, 3] 4 c = Some (c1, i)"
      "cache_insertion (\<lambda>_. 0) 7 [1, 2, 3] i c c1"
    by (rule insert_memory_ok [OF ok len, of "\<lambda>_ _. 0 :: rat" 7]) (rule that, assumption+)
  have "get_memory (\<lambda>_. 0) 7 c = None"
    using c by (auto simp: memory_with_metrics_def with_shard_count_def default_shard_count_def get_memory_def memory_get_def
        shard_index_def new_memory_shard_def)
  then have "get_memory (\<lambda>_. 0) 7 c1 = Some [1, 2, 3]" using i(2) by (simp add: cache_insertion_def)
  then show ?thesis using memory_next [OF memory_start [OF c] step_insert [OF len i(1)]] by blast
qed

theorem memory_cache_runs_safe_witness:
  "\<exists>c mm p. memory_run (\<lambda>_. 0) example_env 10 (c, []) \<and> memory_pool c = (mm, p)
    \<and> get_memory (\<lambda>_. 0) 7 c = Some [1, 2, 3] \<and> memory_used_bytes mm = int (pool_used p + pool_idle p)
    \<and> remove_memory (\<lambda>_. 0) 7 c \<noteq> None"
proof -
  obtain c where c: "memory_run (\<lambda>_. 0) example_env 10 (c, [])" "get_memory (\<lambda>_. 0) 7 c = Some [1, 2, 3]"
    using example_memory_run by blast
  obtain mm p where ps: "memory_pool c = (mm, p)" by (cases "memory_pool c")
  note safe = memory_cache_runs_safe [OF example_env_ok c(1) ps]
  have "memory_used_bytes mm = int (pool_used p + pool_idle p)" using safe by (elim conjE)
  moreover have "remove_memory (\<lambda>_. 0) 7 c \<noteq> None" using safe by (elim conjE) (erule spec)
  ultimately show ?thesis using c ps by (intro exI conjI)
qed

subsection \<open>The end of a memory cache\<close>

lemma drop_memory_shards_ok:
  assumes "pool_ok env out (mm, p)" and "total_used shs \<le> pool_used p"
  shows "\<exists>mm1 p1. drop_memory_shards shs (mm, p) = Some (mm1, p1) \<and> pool_ok env out (mm1, p1)
    \<and> pool_used p1 = pool_used p - total_used shs \<and> memory_entries mm1 = memory_entries mm - int (total_entries shs)"
  using assms
proof (induction shs arbitrary: mm p)
  case Nil
  then show ?case by (simp add: total_used_def total_entries_def)
next
  case (Cons sh shs)
  let ?mm = "mm\<lparr>memory_entries := memory_entries mm - int (entry_count sh)\<rparr>"
  have "pool_ok env out (?mm, p)" using Cons.prems(1) by (simp add: pool_ok_counters)
  moreover have le: "shard_used sh \<le> pool_used p" "total_used shs \<le> pool_used p - shard_used sh"
    using Cons.prems(2) by (auto simp: total_used_def)
  ultimately obtain mm1 p1 where r: "remove_used_bytes (shard_used sh) (?mm, p) = Some (mm1, p1)" "pool_ok env out (mm1, p1)"
      "pool_used p1 = pool_used p - shard_used sh" "counters mm1 = counters ?mm"
    using remove_used_bytes_ok by blast
  obtain mm2 p2 where d: "drop_memory_shards shs (mm1, p1) = Some (mm2, p2)" "pool_ok env out (mm2, p2)"
      "pool_used p2 = pool_used p1 - total_used shs" "memory_entries mm2 = memory_entries mm1 - int (total_entries shs)"
    using Cons.IH [OF r(2)] r(3) le by auto
  have "memory_entries mm1 = memory_entries mm - int (entry_count sh)" using r(4) by (simp add: counters_def)
  then show ?case using r(1,3) d le by (auto simp: drop_memory_shard_def total_used_def total_entries_def)
qed

text \<open>C31: When a memory cache is dropped, its shards and pool return every gauge to zero, and the buffers
  still held by readers do so when they are dropped later.\<close>

theorem memory_cache_drop_clears_gauges:
  assumes env: "mremap_keeps_pages env" and run: "memory_run fx env cap (c, out)"
  shows "\<exists>ps mm1. drop_memory_shards (memory_shards c) (memory_pool c) = Some ps
    \<and> drop_checked_out out (drop_buffer_pool ps) = Some mm1
    \<and> memory_used_bytes mm1 = 0 \<and> memory_capacity_bytes mm1 = 0 \<and> memory_entries mm1 = 0
    \<and> (\<forall>i < BUCKET_COUNT. idle_buffer_bytes mm1 i = 0) \<and> (\<forall>i. used_buffer_bytes mm1 i = 0)"
proof -
  have ok: "memory_cache_ok fx env out c" using memory_run_ok [OF env run] by simp
  obtain mm p where ps: "memory_pool c = (mm, p)" by (cases "memory_pool c")
  have pok: "pool_ok env out (mm, p)" and u: "pool_used p = total_used (memory_shards c)"
    and e: "memory_entries mm = int (total_entries (memory_shards c))"
    using ok ps by (auto simp: memory_cache_ok_def)
  obtain mm1 p1 where d: "drop_memory_shards (memory_shards c) (mm, p) = Some (mm1, p1)" "pool_ok env out (mm1, p1)"
      "pool_used p1 = 0" "memory_entries mm1 = 0"
    using drop_memory_shards_ok [OF pok, of "memory_shards c"] u e by auto
  show ?thesis using buffer_pool_drop_clears_gauges [OF d(2,3)] d(1,4) ps by (auto simp: counters_def)
qed

theorem memory_cache_drop_clears_gauges_witness:
  "\<exists>c ps mm1. get_memory (\<lambda>_. 0) 7 c = Some [1, 2, 3] \<and> drop_memory_shards (memory_shards c) (memory_pool c) = Some ps
    \<and> drop_checked_out [] (drop_buffer_pool ps) = Some mm1 \<and> memory_used_bytes mm1 = 0 \<and> memory_entries mm1 = 0"
proof -
  obtain c where c: "memory_run (\<lambda>_. 0) example_env 10 (c, [])" "get_memory (\<lambda>_. 0) 7 c = Some [1, 2, 3]"
    using example_memory_run by blast
  show ?thesis using memory_cache_drop_clears_gauges [OF example_env_ok c(1)] c(2) by blast
qed

end
