(* ===== verification/Historian.thy ===== *)
theory Historian
  imports Feuer_Prelude Complex_Main "HOL-Library.Multiset" "HOL-Library.AList"
begin

text \<open>
  The request histories of \<open>feuer-historian/src/lib.rs\<close>. A history map is an association list, a
  count is a rational number with \<open>f64\<close> rounding \<open>rnd\<close> after each operation, and the request clock is
  a \<open>nat\<close>. The decay works on the bits of an \<open>f32\<close>, which are kept as the integer they encode.
  The cleanup worker reads the clocks of all shards and then filters each shard, so the shards it
  filters may be newer than the clocks it read; \<open>fx\<close> is the hash that selects a shard.
\<close>

definition ACCESS_HISTORY_SHARDS :: nat where
  "ACCESS_HISTORY_SHARDS = 64"

definition DEFAULT_ACCESS_COUNT_HALF_LIFE :: nat where
  "DEFAULT_ACCESS_COUNT_HALF_LIFE = 262144"

definition DEFAULT_HISTORY_ENTRY_LIMIT :: nat where
  "DEFAULT_HISTORY_ENTRY_LIMIT = 2000000"

subsection \<open>Decayed counts\<close>

record decayed_request_count =
  stored_count :: rat
  last_update_clock :: nat

definition default_request_count :: decayed_request_count where
  "default_request_count = \<lparr>stored_count = 0, last_update_clock = 0\<rparr>"

text \<open>\<open>f32::from_bits\<close> of a positive, normal number: exponent and mantissa.\<close>

definition f32_from_bits :: "nat \<Rightarrow> rat" where
  "f32_from_bits bits = (1 + of_nat (bits mod 2 ^ 23) / 2 ^ 23) * 2 ^ (bits div 2 ^ 23) / 2 ^ 127"

definition decayed_count :: "(rat \<Rightarrow> rat) \<Rightarrow> nat \<Rightarrow> nat \<Rightarrow> decayed_request_count \<Rightarrow> rat" where
  "decayed_count rnd request_clock half_life c =
    (let requests_since_update = request_clock - last_update_clock c;
         half_lives_elapsed = rnd (rnd (of_nat requests_since_update) / rnd (of_nat half_life))
     in if 126 \<le> half_lives_elapsed then 0
        else let float_bits = nat \<lfloor>rnd (rnd (127 - half_lives_elapsed) * 2 ^ 23)\<rfloor>
             in rnd (stored_count c * f32_from_bits float_bits))"

definition add_request :: "(rat \<Rightarrow> rat) \<Rightarrow> nat \<Rightarrow> nat \<Rightarrow> decayed_request_count \<Rightarrow> decayed_request_count" where
  "add_request rnd request_clock half_life c =
    \<lparr>stored_count = rnd (decayed_count rnd request_clock half_life c + 1), last_update_clock = request_clock\<rparr>"

subsection \<open>Histories\<close>

type_synonym history_shard = "(object_key_hash \<times> decayed_request_count) list"

record object_access_histories =
  history_shards :: "history_shard list"
  request_count :: nat
  half_life :: nat

definition with_half_life :: "nat \<Rightarrow> object_access_histories" where
  "with_half_life hl = \<lparr>history_shards = replicate ACCESS_HISTORY_SHARDS [], request_count = 0, half_life = hl\<rparr>"

definition default_access_histories :: object_access_histories where
  "default_access_histories = with_half_life DEFAULT_ACCESS_COUNT_HALF_LIFE"

definition history_shard_index :: "(object_key_hash \<Rightarrow> u64) \<Rightarrow> object_key_hash \<Rightarrow> object_access_histories \<Rightarrow> nat" where
  "history_shard_index fx k h = unat (fx k) mod length (history_shards h)"

definition record_request :: "(object_key_hash \<Rightarrow> u64) \<Rightarrow> (rat \<Rightarrow> rat) \<Rightarrow> object_key_hash
    \<Rightarrow> object_access_histories \<Rightarrow> object_access_histories" where
  "record_request fx rnd k h =
    (let i = history_shard_index fx k h;
         shard = history_shards h ! i;
         request_clock = request_count h + 1;
         entry = (case map_of shard k of Some c \<Rightarrow> c | None \<Rightarrow> default_request_count)
     in h\<lparr>history_shards := (history_shards h)[i := AList.update k (add_request rnd request_clock (half_life h) entry) shard],
          request_count := request_clock\<rparr>)"

definition decayed_request_count_of :: "(object_key_hash \<Rightarrow> u64) \<Rightarrow> (rat \<Rightarrow> rat) \<Rightarrow> object_key_hash
    \<Rightarrow> object_access_histories \<Rightarrow> rat" where
  "decayed_request_count_of fx rnd k h =
    (case map_of (history_shards h ! history_shard_index fx k h) k of
       Some c \<Rightarrow> decayed_count rnd (request_count h) (half_life h) c
     | None \<Rightarrow> 0)"

text \<open>\<open>remove_oldest\<close>: the cutoff from the clocks that were read, and the filter of the shards.\<close>

definition shard_clocks :: "history_shard \<Rightarrow> nat list" where
  "shard_clocks shard = map (last_update_clock \<circ> snd) shard"

definition history_cutoff :: "nat \<Rightarrow> history_shard list \<Rightarrow> nat option" where
  "history_cutoff limit shards =
    (if sum_list (map length shards) \<le> limit then None
     else let clocks = concat (map shard_clocks shards);
              entries_to_keep = limit - limit div 10;
              entries_to_remove = length clocks - entries_to_keep
          in Some (sort clocks ! (entries_to_remove - 1)))"

definition retain_newer :: "nat \<Rightarrow> history_shard list \<Rightarrow> history_shard list" where
  "retain_newer cutoff shards = map (filter (\<lambda>(_, c). cutoff < last_update_clock c)) shards"

definition remove_oldest :: "nat \<Rightarrow> history_shard list \<Rightarrow> history_shard list \<Rightarrow> history_shard list" where
  "remove_oldest limit seen shards =
    (case history_cutoff limit seen of None \<Rightarrow> shards | Some cutoff \<Rightarrow> retain_newer cutoff shards)"

subsection \<open>Decay\<close>

text \<open>What the proofs use of \<open>f64\<close> rounding: it is monotone and exact on integers below \<open>2 ^ 53\<close>.\<close>

definition f64_rounding :: "(rat \<Rightarrow> rat) \<Rightarrow> bool" where
  "f64_rounding rnd \<longleftrightarrow> (\<forall>x y. x \<le> y \<longrightarrow> rnd x \<le> rnd y) \<and> (\<forall>n < 2 ^ 53. rnd (of_nat n) = of_nat n)"

lemma rnd_mono: "f64_rounding rnd \<Longrightarrow> x \<le> y \<Longrightarrow> rnd x \<le> rnd y"
  by (simp add: f64_rounding_def)

lemma rnd_nat: "f64_rounding rnd \<Longrightarrow> n < 2 ^ 53 \<Longrightarrow> rnd (of_nat n) = of_nat n"
  by (simp add: f64_rounding_def)

lemma rnd_0: "f64_rounding rnd \<Longrightarrow> rnd 0 = 0"
  using rnd_nat [of rnd 0] by simp

lemma f32_from_bits_normal:
  assumes "m < 2 ^ 23"
  shows "f32_from_bits (e * 2 ^ 23 + m) = (1 + of_nat m / 2 ^ 23) * 2 ^ e / 2 ^ 127"
  using assms by (simp add: f32_from_bits_def)

lemma f32_from_bits_mono:
  assumes "a \<le> b"
  shows "f32_from_bits a \<le> f32_from_bits b"
proof -
  let ?s = "2 ^ 23 :: nat"
  have less: "f32_from_bits a \<le> f32_from_bits b" if e: "a div ?s < b div ?s"
  proof -
    have "of_nat (a mod ?s) \<le> (2 ^ 23 :: rat)"
      using mod_less_divisor [of ?s a] of_nat_mono [of "a mod ?s" ?s] by simp
    then have "(1 + of_nat (a mod ?s) / 2 ^ 23) \<le> (2 :: rat)" by simp
    then have "(1 + of_nat (a mod ?s) / 2 ^ 23) * 2 ^ (a div ?s) \<le> (2 :: rat) * 2 ^ (a div ?s)"
      by (rule mult_right_mono) simp
    also have "\<dots> = 2 ^ Suc (a div ?s)" by simp
    also have "\<dots> \<le> 2 ^ (b div ?s)" using e by (intro power_increasing) simp_all
    also have "\<dots> \<le> (1 + of_nat (b mod ?s) / 2 ^ 23) * (2 :: rat) ^ (b div ?s)" by simp
    finally show ?thesis unfolding f32_from_bits_def by (simp add: divide_right_mono)
  qed
  show ?thesis
  proof (cases "a div ?s = b div ?s")
    case True
    have "a mod ?s \<le> b mod ?s" using assms True by (metis add_le_cancel_left div_mult_mod_eq)
    then have "of_nat (a mod ?s) / (2 ^ 23 :: rat) \<le> of_nat (b mod ?s) / 2 ^ 23"
      by (intro divide_right_mono of_nat_mono) simp_all
    then show ?thesis unfolding f32_from_bits_def True
      by (intro divide_right_mono mult_right_mono add_left_mono) simp_all
  next
    case False
    then show ?thesis using less div_le_mono [OF assms, of ?s] by linarith
  qed
qed

lemma f32_one: "f32_from_bits (127 * 2 ^ 23) = 1"
  using f32_from_bits_normal [of 0 127] by simp

lemma f32_from_bits_nonneg: "0 \<le> f32_from_bits b"
  by (simp add: f32_from_bits_def)

lemma half_lives_nonneg:
  assumes "f64_rounding rnd"
  shows "0 \<le> rnd (rnd (of_nat n) / rnd (of_nat hl))"
proof -
  have "0 \<le> rnd (of_nat i)" for i using rnd_mono [OF assms, of 0 "of_nat i"] rnd_0 [OF assms] by simp
  then have "0 \<le> rnd (of_nat n) / rnd (of_nat hl)" by simp
  then show ?thesis using rnd_mono [OF assms, of 0] rnd_0 [OF assms] by fastforce
qed

lemma decay_factor_le_one:
  assumes r: "f64_rounding rnd" and x: "0 \<le> x"
  shows "f32_from_bits (nat \<lfloor>rnd (rnd (127 - x) * 2 ^ 23)\<rfloor>) \<le> 1"
proof -
  have "rnd (127 - x) \<le> rnd 127" using x by (intro rnd_mono [OF r]) simp
  also have "rnd 127 = 127" using rnd_nat [OF r, of 127] by simp
  finally have "rnd (127 - x) * 2 ^ 23 \<le> 127 * 2 ^ 23" by (intro mult_right_mono) simp_all
  then have "rnd (rnd (127 - x) * 2 ^ 23) \<le> rnd (of_nat (127 * 2 ^ 23))" by (intro rnd_mono [OF r]) simp
  also have "\<dots> = of_nat (127 * 2 ^ 23)" by (intro rnd_nat [OF r]) simp
  finally have "\<lfloor>rnd (rnd (127 - x) * 2 ^ 23)\<rfloor> \<le> \<lfloor>of_nat (127 * 2 ^ 23) :: rat\<rfloor>" by (rule floor_mono)
  then have "nat \<lfloor>rnd (rnd (127 - x) * 2 ^ 23)\<rfloor> \<le> 127 * 2 ^ 23" by (simp only: floor_of_nat nat_le_iff)
  then show ?thesis using f32_from_bits_mono f32_one by metis
qed

text \<open>The number of half-lives elapsed and the factor it gives.\<close>

definition half_lives :: "(rat \<Rightarrow> rat) \<Rightarrow> nat \<Rightarrow> nat \<Rightarrow> decayed_request_count \<Rightarrow> rat" where
  "half_lives rnd clock hl c = rnd (rnd (of_nat (clock - last_update_clock c)) / rnd (of_nat hl))"

lemma decayed_count_factor:
  "decayed_count rnd clock hl c = (if 126 \<le> half_lives rnd clock hl c then 0
     else rnd (stored_count c * f32_from_bits (nat \<lfloor>rnd (rnd (127 - half_lives rnd clock hl c) * 2 ^ 23)\<rfloor>)))"
  by (simp add: decayed_count_def Let_def half_lives_def)

lemma decayed_count_bounded:
  assumes r: "f64_rounding rnd" and c: "0 \<le> stored_count c" "rnd (stored_count c) = stored_count c"
  shows "0 \<le> decayed_count rnd clock hl c \<and> decayed_count rnd clock hl c \<le> stored_count c"
proof -
  let ?x = "half_lives rnd clock hl c"
  let ?f = "f32_from_bits (nat \<lfloor>rnd (rnd (127 - ?x) * 2 ^ 23)\<rfloor>)"
  have x0: "0 \<le> ?x" unfolding half_lives_def by (rule half_lives_nonneg [OF r])
  have "0 \<le> stored_count c * ?f" using c(1) f32_from_bits_nonneg by simp
  then have "0 \<le> rnd (stored_count c * ?f)" using rnd_mono [OF r, of 0] rnd_0 [OF r] by fastforce
  moreover have "stored_count c * ?f \<le> stored_count c"
    using mult_left_mono [OF decay_factor_le_one [OF r x0] c(1)] by simp
  then have "rnd (stored_count c * ?f) \<le> stored_count c" using rnd_mono [OF r] c(2) by metis
  ultimately show ?thesis using c(1) by (simp add: decayed_count_factor)
qed

lemma decayed_count_halves:
  assumes r: "f64_rounding rnd" and hl: "0 < hl" "hl < 2 ^ 46" and clock: "clock < 2 ^ 53"
    and n: "n < 126" and d: "clock - last_update_clock c = n * hl"
  shows "decayed_count rnd clock hl c = rnd (stored_count c / 2 ^ n)"
proof -
  let ?x = "half_lives rnd clock hl c"
  have "rnd (of_nat (clock - last_update_clock c)) = of_nat (clock - last_update_clock c)" "rnd (of_nat hl) = of_nat hl"
    using clock hl by (simp_all add: rnd_nat [OF r])
  then have "rnd (of_nat (clock - last_update_clock c)) / rnd (of_nat hl) = of_nat n" using d hl by simp
  then have xn: "?x = of_nat n" unfolding half_lives_def using n by (simp add: rnd_nat [OF r])
  have "rnd (127 - ?x) = of_nat (127 - n)"
    using rnd_nat [OF r, of "127 - n"] n xn by (simp add: of_nat_diff)
  then have "rnd (rnd (127 - ?x) * 2 ^ 23) = rnd (of_nat ((127 - n) * 2 ^ 23))" by simp
  also have "\<dots> = of_nat ((127 - n) * 2 ^ 23)" using n by (intro rnd_nat [OF r]) auto
  finally have bits: "nat \<lfloor>rnd (rnd (127 - ?x) * 2 ^ 23)\<rfloor> = (127 - n) * 2 ^ 23" by (simp only: floor_of_nat nat_int)
  have "f32_from_bits ((127 - n) * 2 ^ 23) = 2 ^ (127 - n) / 2 ^ 127"
    using f32_from_bits_normal [of 0 "127 - n"] by simp
  also have "\<dots> = 1 / 2 ^ n" using n power_add [of "2 :: rat" "127 - n" n] by (simp add: field_simps)
  finally show ?thesis using n bits xn by (simp add: decayed_count_factor)
qed

lemma decayed_count_fresh:
  assumes "f64_rounding rnd" and c: "0 \<le> stored_count c" "rnd (stored_count c) = stored_count c"
    and "0 < hl" and "hl < 2 ^ 46" and "clock < 2 ^ 53" and "clock \<le> last_update_clock c"
  shows "decayed_count rnd clock hl c = stored_count c"
  using decayed_count_halves [OF assms(1) assms(4-6), of 0 c] assms(7) c(2) by simp

lemma decayed_count_expired:
  assumes r: "f64_rounding rnd" and hl: "0 < hl" "hl < 2 ^ 46" and clock: "clock < 2 ^ 53"
    and d: "last_update_clock c + 126 * hl \<le> clock"
  shows "decayed_count rnd clock hl c = 0"
proof -
  have "126 * hl \<le> clock - last_update_clock c" using d by simp
  then have "of_nat (126 * hl) \<le> (of_nat (clock - last_update_clock c) :: rat)" by (rule of_nat_mono)
  moreover have "rnd (of_nat (clock - last_update_clock c)) = of_nat (clock - last_update_clock c)" "rnd (of_nat hl) = of_nat hl"
    using clock hl by (simp_all add: rnd_nat [OF r])
  ultimately have "126 \<le> rnd (of_nat (clock - last_update_clock c)) / rnd (of_nat hl)" using hl by (simp add: pos_le_divide_eq)
  then have "rnd 126 \<le> half_lives rnd clock hl c" unfolding half_lives_def by (rule rnd_mono [OF r])
  then show ?thesis using rnd_nat [OF r, of 126] by (simp add: decayed_count_factor)
qed

text \<open>C29: A decayed count lies between zero and the stored count, equals it at the clock of its last update
  or earlier, halves with every half-life, and is zero after 126 half-lives.\<close>

theorem decayed_count_bounds:
  assumes r: "f64_rounding rnd" and c: "0 \<le> stored_count c" "rnd (stored_count c) = stored_count c"
    and hl: "0 < hl" "hl < 2 ^ 46" and clock: "clock < 2 ^ 53"
  shows "0 \<le> decayed_count rnd clock hl c \<and> decayed_count rnd clock hl c \<le> stored_count c
    \<and> (clock \<le> last_update_clock c \<longrightarrow> decayed_count rnd clock hl c = stored_count c)
    \<and> (last_update_clock c + 126 * hl \<le> clock \<longrightarrow> decayed_count rnd clock hl c = 0)
    \<and> (\<forall>n < 126. clock = last_update_clock c + n * hl \<longrightarrow> decayed_count rnd clock hl c = rnd (stored_count c / 2 ^ n))"
proof (intro conjI allI impI)
  show "decayed_count rnd clock hl c = rnd (stored_count c / 2 ^ n)"
    if "n < 126" and "clock = last_update_clock c + n * hl" for n
    by (rule decayed_count_halves [OF r hl clock that(1)]) (use that(2) in simp)
qed (use decayed_count_bounded [OF r c] decayed_count_fresh [OF r c hl clock] decayed_count_expired [OF r hl clock] in blast)+

theorem decayed_count_bounds_witness:
  "decayed_count (\<lambda>x. x) 524293 262144 \<lparr>stored_count = 8, last_update_clock = 5\<rparr> = 2"
proof -
  have "f64_rounding (\<lambda>x. x)" by (simp add: f64_rounding_def)
  from decayed_count_bounds [OF this, of "\<lparr>stored_count = 8, last_update_clock = 5\<rparr>" 262144 524293]
  show ?thesis by (auto dest: spec [of _ 2])
qed

subsection \<open>Cleanup\<close>

lemma sorted_cut:
  assumes "sorted xs" and "n < length xs"
  shows "length (filter (\<lambda>x. xs ! n < x) xs) \<le> length xs - Suc n"
    and "distinct xs \<Longrightarrow> length (filter (\<lambda>x. xs ! n < (x :: nat)) xs) = length xs - Suc n"
proof -
  have split: "xs = take (Suc n) xs @ drop (Suc n) xs" by simp
  have low: "filter (\<lambda>x. xs ! n < x) (take (Suc n) xs) = []"
  proof -
    have "\<not> xs ! n < x" if x: "x \<in> set (take (Suc n) xs)" for x
    proof -
      obtain i where "i < Suc n" "x = xs ! i" using x assms(2) by (auto simp: in_set_conv_nth)
      then show ?thesis using sorted_nth_mono [OF assms(1), of i n] assms(2) by simp
    qed
    then show ?thesis by (simp add: filter_empty_conv)
  qed
  have eq: "filter (\<lambda>x. xs ! n < x) xs = filter (\<lambda>x. xs ! n < x) (drop (Suc n) xs)"
    using low split by (metis append_Nil filter_append)
  show "length (filter (\<lambda>x. xs ! n < x) xs) \<le> length xs - Suc n"
    unfolding eq using length_filter_le [of "\<lambda>x. xs ! n < x" "drop (Suc n) xs"] by simp
  show "length (filter (\<lambda>x. xs ! n < x) xs) = length xs - Suc n" if d: "distinct xs"
  proof -
    have "xs ! n < x" if x: "x \<in> set (drop (Suc n) xs)" for x
    proof -
      obtain i where i: "i < length xs - Suc n" "x = xs ! (Suc n + i)" using x by (auto simp: in_set_conv_nth)
      have "xs ! n \<le> x" using sorted_nth_mono [OF assms(1), of n "Suc n + i"] i by simp
      moreover have "xs ! n \<noteq> x" using nth_eq_iff_index_eq [OF d assms(2), of "Suc n + i"] i by simp
      ultimately show ?thesis by simp
    qed
    then have "filter (\<lambda>x. xs ! n < x) (drop (Suc n) xs) = drop (Suc n) xs" by (simp add: filter_id_conv)
    then show ?thesis unfolding eq by simp
  qed
qed

lemma retained_count:
  "sum_list (map length (retain_newer cutoff shards)) = length (filter (\<lambda>x. cutoff < x) (concat (map shard_clocks shards)))"
  by (induction shards) (auto simp: retain_newer_def shard_clocks_def filter_map comp_def case_prod_unfold)

lemma length_clocks: "length (concat (map shard_clocks shards)) = sum_list (map length shards)"
  by (induction shards) (auto simp: shard_clocks_def)

lemma history_cutoff_some:
  assumes "limit < sum_list (map length shards)"
  shows "\<exists>n. n < sum_list (map length shards) \<and> sum_list (map length shards) - Suc n = limit - limit div 10
    \<and> history_cutoff limit shards = Some (sort (concat (map shard_clocks shards)) ! n)"
proof -
  let ?t = "sum_list (map length shards)" and ?keep = "limit - limit div 10"
  have "?keep < ?t" using assms by linarith
  then have "?t - ?keep - 1 < ?t" and "?t - Suc (?t - ?keep - 1) = ?keep" by linarith+
  then show ?thesis using assms by (auto simp: history_cutoff_def Let_def length_clocks)
qed

text \<open>C30: Cleanup does nothing within the limit. Above it, when no requests arrive meanwhile, at most nine
  tenths of the limit remain, exactly that many when the clocks are distinct as the request clock
  makes them; every kept history is newer than every removed one, and a history updated after the
  clocks were read is kept.\<close>

theorem remove_oldest_keeps_newest:
  assumes newer: "\<forall>x \<in> set (concat (map shard_clocks seen)). x < clock"
  shows "(sum_list (map length seen) \<le> limit \<longrightarrow> remove_oldest limit seen shards = shards)
    \<and> (limit < sum_list (map length seen) \<longrightarrow>
        sum_list (map length (remove_oldest limit seen seen)) \<le> limit - limit div 10
        \<and> (distinct (concat (map shard_clocks seen)) \<longrightarrow>
            sum_list (map length (remove_oldest limit seen seen)) = limit - limit div 10))
    \<and> (\<forall>i < length shards. \<forall>(k, c) \<in> set (shards ! i).
        (clock \<le> last_update_clock c \<longrightarrow> (k, c) \<in> set (remove_oldest limit seen shards ! i))
        \<and> ((k, c) \<notin> set (remove_oldest limit seen shards ! i) \<longrightarrow>
            (\<forall>(k', c') \<in> set (concat (remove_oldest limit seen shards)). last_update_clock c < last_update_clock c')))"
proof (cases "sum_list (map length seen) \<le> limit")
  case True
  then have "history_cutoff limit seen = None" by (simp add: history_cutoff_def)
  then show ?thesis using True by (auto simp: remove_oldest_def)
next
  case False
  let ?cs = "concat (map shard_clocks seen)"
  obtain n where n: "n < sum_list (map length seen)" "sum_list (map length seen) - Suc n = limit - limit div 10"
      "history_cutoff limit seen = Some (sort ?cs ! n)"
    using history_cutoff_some [of limit seen] False by auto
  let ?cut = "sort ?cs ! n"
  have len: "n < length (sort ?cs)" using n(1) by (simp add: length_clocks)
  have rem: "remove_oldest limit seen ss = retain_newer ?cut ss" for ss using n(3) by (simp add: remove_oldest_def)
  have "length (filter (\<lambda>x. ?cut < x) ?cs) = length (filter (\<lambda>x. ?cut < x) (sort ?cs))"
    by (metis length_sort filter_sort)
  moreover have "length (sort ?cs) = sum_list (map length seen)" by (simp add: length_clocks)
  ultimately have count: "sum_list (map length (retain_newer ?cut seen)) \<le> limit - limit div 10"
      "distinct ?cs \<Longrightarrow> sum_list (map length (retain_newer ?cut seen)) = limit - limit div 10"
    using sorted_cut [OF sorted_sort len] n(2) by (simp_all only: retained_count distinct_sort)
  have "?cut \<in> set ?cs" using nth_mem [OF len] by simp
  then have cut: "?cut < clock" using newer by blast
  have members: "(k, c) \<in> set (retain_newer ?cut shards ! i) \<longleftrightarrow> (k, c) \<in> set (shards ! i) \<and> ?cut < last_update_clock c"
    if "i < length shards" for i k c using that by (auto simp: retain_newer_def)
  have all: "?cut < last_update_clock c" if "(k, c) \<in> set (concat (retain_newer ?cut shards))" for k c
    using that by (auto simp: retain_newer_def)
  show ?thesis unfolding rem using False count cut members all by fastforce
qed

definition example_histories :: "history_shard list" where
  "example_histories =
    [[(1, \<lparr>stored_count = 1, last_update_clock = 5\<rparr>), (2, \<lparr>stored_count = 1, last_update_clock = 3\<rparr>)],
     [(9, \<lparr>stored_count = 1, last_update_clock = 4\<rparr>)]]"

theorem remove_oldest_keeps_newest_witness:
  "remove_oldest 2 example_histories example_histories
    = [[(1, \<lparr>stored_count = 1, last_update_clock = 5\<rparr>)], [(9, \<lparr>stored_count = 1, last_update_clock = 4\<rparr>)]]
   \<and> sum_list (map length (remove_oldest 2 example_histories example_histories)) \<le> 2"
proof -
  have "\<forall>x \<in> set (concat (map shard_clocks example_histories)). x < 6"
    by (simp add: shard_clocks_def example_histories_def)
  from remove_oldest_keeps_newest [OF this, of 2 example_histories]
  have "sum_list (map length (remove_oldest 2 example_histories example_histories)) \<le> 2"
    by (simp add: example_histories_def)
  moreover have "remove_oldest 2 example_histories example_histories
      = [[(1, \<lparr>stored_count = 1, last_update_clock = 5\<rparr>)], [(9, \<lparr>stored_count = 1, last_update_clock = 4\<rparr>)]]"
    by (simp add: example_histories_def remove_oldest_def history_cutoff_def retain_newer_def shard_clocks_def Let_def)
  ultimately show ?thesis by blast
qed

subsection \<open>Recording\<close>

definition history_of :: "(object_key_hash \<Rightarrow> u64) \<Rightarrow> object_key_hash \<Rightarrow> object_access_histories \<Rightarrow> decayed_request_count option" where
  "history_of fx k h = map_of (history_shards h ! history_shard_index fx k h) k"

lemma history_of_record:
  assumes "history_shards h \<noteq> []"
  shows "history_of fx k' (record_request fx rnd k h) =
    (if k' = k then Some (add_request rnd (request_count h + 1) (half_life h)
       (case history_of fx k h of Some c \<Rightarrow> c | None \<Rightarrow> default_request_count))
     else history_of fx k' h)"
proof -
  let ?h = "record_request fx rnd k h" and ?i = "history_shard_index fx k h"
  have i: "?i < length (history_shards h)" using assms by (simp add: history_shard_index_def)
  have idx: "history_shard_index fx k' ?h = history_shard_index fx k' h"
    by (simp add: history_shard_index_def record_request_def Let_def)
  show ?thesis using i unfolding history_of_def idx
    by (cases "history_shard_index fx k' h = ?i") (auto simp: record_request_def Let_def update_conv')
qed

text \<open>C39: A request advances the clock by one and changes only its key: the key's count, decayed to the new
  clock, grows by one, so a first request counts one; every other key keeps its history.\<close>

theorem record_request_effect:
  assumes r: "f64_rounding rnd" "\<And>x. rnd (rnd x) = rnd x" and h: "history_shards h \<noteq> []"
    and hl: "0 < half_life h" "half_life h < 2 ^ 46" and clock: "request_count h + 1 < 2 ^ 53"
    and old: "\<And>c. history_of fx k h = Some c \<Longrightarrow> 0 \<le> stored_count c \<and> rnd (stored_count c) = stored_count c"
  shows "request_count (record_request fx rnd k h) = request_count h + 1
    \<and> decayed_request_count_of fx rnd k (record_request fx rnd k h) =
        (case history_of fx k h of
           Some c \<Rightarrow> rnd (decayed_count rnd (request_count h + 1) (half_life h) c + 1) | None \<Rightarrow> 1)
    \<and> (k' \<noteq> k \<longrightarrow> history_of fx k' (record_request fx rnd k h) = history_of fx k' h)"
proof -
  let ?h = "record_request fx rnd k h" and ?clock = "request_count h + 1"
  let ?e = "case history_of fx k h of Some c \<Rightarrow> c | None \<Rightarrow> default_request_count"
  let ?n = "add_request rnd ?clock (half_life h) ?e"
  have f: "request_count ?h = ?clock" "half_life ?h = half_life h" by (simp_all add: record_request_def Let_def)
  have e: "0 \<le> stored_count ?e" "rnd (stored_count ?e) = stored_count ?e"
    using old rnd_0 [OF r(1)] by (auto simp: default_request_count_def split: option.splits)
  have "0 \<le> decayed_count rnd ?clock (half_life h) ?e" using decayed_count_bounded [OF r(1) e] by simp
  then have "rnd 0 \<le> stored_count ?n" unfolding add_request_def by (simp add: rnd_mono [OF r(1)])
  then have n: "0 \<le> stored_count ?n" "rnd (stored_count ?n) = stored_count ?n"
    using rnd_0 [OF r(1)] r(2) by (simp_all add: add_request_def)
  have "decayed_request_count_of fx rnd k ?h = decayed_count rnd ?clock (half_life h) ?n"
    using history_of_record [OF h, of fx k rnd k] f by (simp add: decayed_request_count_of_def history_of_def)
  also have "\<dots> = stored_count ?n"
    by (rule decayed_count_fresh [OF r(1) n hl clock]) (simp add: add_request_def)
  also have "\<dots> = (case history_of fx k h of
      Some c \<Rightarrow> rnd (decayed_count rnd ?clock (half_life h) c + 1) | None \<Rightarrow> 1)"
    using rnd_nat [OF r(1), of 1] decayed_count_bounded [OF r(1), of default_request_count ?clock "half_life h"] rnd_0 [OF r(1)]
    by (auto simp: add_request_def default_request_count_def split: option.splits)
  finally show ?thesis using f history_of_record [OF h, of fx k' rnd k] by simp
qed

theorem record_request_effect_witness:
  "decayed_request_count_of (\<lambda>_. 0) (\<lambda>x. x) 7 (record_request (\<lambda>_. 0) (\<lambda>x. x) 7 default_access_histories) = 1"
proof -
  let ?h = default_access_histories
  have h: "history_shards ?h \<noteq> []" "history_of (\<lambda>_. 0) 7 ?h = None" "half_life ?h = 262144" "request_count ?h = 0"
    by (simp_all add: default_access_histories_def with_half_life_def ACCESS_HISTORY_SHARDS_def
        history_of_def history_shard_index_def DEFAULT_ACCESS_COUNT_HALF_LIFE_def)
  have "f64_rounding (\<lambda>x. x)" by (simp add: f64_rounding_def)
  from record_request_effect [OF this, of ?h "\<lambda>_. 0" 7] show ?thesis using h by simp
qed

end
