(* ===== verification/Io_Queue.thy ===== *)
theory Io_Queue
  imports Data_File "HOL-Library.Multiset"
begin

text \<open>
  The io_uring queues of \<open>feuer-storage/src/uring.rs\<close>: how write bytes become
  vectors, the queue thread that moves requests from its channel through the request
  array and the ring, and the handling of completions. The kernel is the environment: it accepts
  entries from the submission queue and posts completions. Pointers are the byte ranges they address,
  time is in nanoseconds, and a caller is a number that \<open>closed\<close> says has dropped its receiver.
  \<open>None\<close> is a panic.
\<close>

definition MAX_IO_REQUEST_BYTES :: nat where
  "MAX_IO_REQUEST_BYTES = 1024 * 1024"

definition MAX_IN_FLIGHT_READS :: nat where
  "MAX_IN_FLIGHT_READS = 64"

definition MAX_IN_FLIGHT_WRITES :: nat where
  "MAX_IN_FLIGHT_WRITES = 8"

subsection \<open>Buffers of a request\<close>

text \<open>A read names the allocation it reads into and its length; a write has its aligned payload prefix
  and the padded copy of the rest.\<close>

datatype io_buffers = ReadBuffers nat nat | WriteBuffers "byte list" "byte list"

text \<open>\<open>aligned\<close>: whether the payload's address is aligned.\<close>

definition from_write_bytes :: "bool \<Rightarrow> nat \<Rightarrow> byte list \<Rightarrow> io_buffers option" where
  "from_write_bytes aligned len bytes =
    (if length bytes \<le> len \<and> len mod DIRECT_IO_ALIGNMENT_BYTES = 0
     then let aligned_length = (if aligned
                then length bytes div DIRECT_IO_ALIGNMENT_BYTES * DIRECT_IO_ALIGNMENT_BYTES else 0);
              copy_length = len - aligned_length;
              tail = (if copy_length = 0 then [] else copy_into 0 (drop aligned_length bytes) (replicate copy_length 0))
          in Some (WriteBuffers (take aligned_length bytes) tail)
     else None)"

text \<open>A submission queue entry: the file offset with the buffer range to read into, or with the byte
  vectors to write.\<close>

datatype submission = ReadEntry nat nat nat | WritevEntry nat "byte list list"

fun write_iovecs :: "nat \<Rightarrow> byte list list \<Rightarrow> byte list list" where
  "write_iovecs bytes_to_skip [] = []"
| "write_iovecs bytes_to_skip (bytes # rest) =
    (let skip = min bytes_to_skip (length bytes);
         remaining_bytes = drop skip bytes;
         iovecs = write_iovecs (bytes_to_skip - skip) rest
     in if remaining_bytes = [] then iovecs else remaining_bytes # iovecs)"

fun buffers_submission_entry :: "io_buffers \<Rightarrow> nat \<Rightarrow> rng \<Rightarrow> submission" where
  "buffers_submission_entry (ReadBuffers _ _) offset rg = ReadEntry offset (fst rg) (snd rg - fst rg)"
| "buffers_submission_entry (WriteBuffers b0 b1) offset rg = WritevEntry offset (write_iovecs (fst rg) [b0, b1])"

subsection \<open>Requests\<close>

record io_request =
  file_end_offset :: nat
  buffers :: io_buffers
  remaining_buffer_range :: rng
  reply :: nat

abbreviation remaining_len :: "io_request \<Rightarrow> nat" where
  "remaining_len r \<equiv> snd (remaining_buffer_range r) - fst (remaining_buffer_range r)"

definition new_io_request :: "nat \<Rightarrow> io_buffers \<Rightarrow> rng \<Rightarrow> nat \<Rightarrow> io_request option" where
  "new_io_request offset bufs rg caller =
    (let len = snd rg - fst rg in
     if offset mod DIRECT_IO_ALIGNMENT_BYTES = 0 \<and> fst rg mod DIRECT_IO_ALIGNMENT_BYTES = 0
        \<and> len mod DIRECT_IO_ALIGNMENT_BYTES = 0
        \<and> (case bufs of ReadBuffers _ n \<Rightarrow> snd rg \<le> n | WriteBuffers _ _ \<Rightarrow> True)
        \<and> 0 < len \<and> len \<le> MAX_IO_REQUEST_BYTES
     then Some \<lparr>file_end_offset = offset + len, buffers = bufs, remaining_buffer_range = rg, reply = caller\<rparr>
     else None)"

definition submission_entry :: "io_request \<Rightarrow> submission" where
  "submission_entry r =
    buffers_submission_entry (buffers r) (file_end_offset r - remaining_len r) (remaining_buffer_range r)"

datatype request_error = OsError int | UnexpectedEof | WriteZero | QueueStopped
  | WriteRequestError int nat nat "nat list" bool

definition EINTR :: int where
  "EINTR = 4"

definition EINVAL :: int where
  "EINVAL = 22"

definition incomplete_io_error :: "io_request \<Rightarrow> request_error" where
  "incomplete_io_error r = (case buffers r of ReadBuffers _ _ \<Rightarrow> UnexpectedEof | WriteBuffers _ _ \<Rightarrow> WriteZero)"

text \<open>The error of a write carries its remaining range, the lengths of its vectors and whether it has
  the hint for \<open>EINVAL\<close>.\<close>

definition apply_completion_result :: "int \<Rightarrow> io_request \<Rightarrow> io_request \<times> (request_error + unit)" where
  "apply_completion_result result r =
    (if result = - EINTR then (r, Inr ())
     else if result < 0
     then (r, Inl (case submission_entry r of
         ReadEntry _ _ _ \<Rightarrow> OsError (- result)
       | WritevEntry offset iovecs \<Rightarrow>
           WriteRequestError (- result) offset (remaining_len r) (take 2 (map length iovecs @ [0, 0])) (result = - EINVAL)))
     else let completion_bytes = nat result
          in if completion_bytes = 0 \<or> completion_bytes mod DIRECT_IO_ALIGNMENT_BYTES \<noteq> 0
             then (r, Inl (incomplete_io_error r))
             else (r\<lparr>remaining_buffer_range :=
                 (fst (remaining_buffer_range r) + completion_bytes, snd (remaining_buffer_range r))\<rparr>, Inr ()))"

subsection \<open>Write admission\<close>

definition WRITE_BYTES_PER_SECOND_WITH_WAITING_READS :: nat where
  "WRITE_BYTES_PER_SECOND_WITH_WAITING_READS = 1024 * 1024 * 1024"

definition WRITE_LIMIT_AFTER_READ_WAIT :: nat where
  "WRITE_LIMIT_AFTER_READ_WAIT = 100 * 1000000"

record read_queue_waiters_state =
  waiting_reads :: nat
  last_wait_ended_at :: "nat option"

definition remove_waiting_read :: "nat \<Rightarrow> read_queue_waiters_state \<Rightarrow> read_queue_waiters_state option" where
  "remove_waiting_read now w =
    (if waiting_reads w = 0 then None
     else let w1 = w\<lparr>waiting_reads := waiting_reads w - 1\<rparr>
          in Some (if waiting_reads w1 = 0 then w1\<lparr>last_wait_ended_at := Some now\<rparr> else w1))"

text \<open>The time until which the next write waits; the waiters are shared with the readers.\<close>

definition write_limited :: "read_queue_waiters_state \<Rightarrow> nat \<Rightarrow> bool" where
  "write_limited w now \<longleftrightarrow> 0 < waiting_reads w
    \<or> (case last_wait_ended_at w of None \<Rightarrow> False | Some ended \<Rightarrow> now - ended < WRITE_LIMIT_AFTER_READ_WAIT)"

definition must_wait :: "read_queue_waiters_state \<Rightarrow> nat \<Rightarrow> bool \<Rightarrow> nat \<Rightarrow> bool" where
  "must_wait w next_write_at has_active_writes now \<longleftrightarrow>
    write_limited w now \<and> (has_active_writes \<or> now < next_write_at)"

text \<open>\<open>Duration::from_secs_f64\<close> rounds to the nearest nanosecond, ties to even. The quotient by a power of
  two is exact.\<close>

definition write_nanos :: "nat \<Rightarrow> nat" where
  "write_nanos bytes =
    (let n = bytes * 1000000000;
         q = n div WRITE_BYTES_PER_SECOND_WITH_WAITING_READS;
         r = n mod WRITE_BYTES_PER_SECOND_WITH_WAITING_READS
     in if 2 * r > WRITE_BYTES_PER_SECOND_WITH_WAITING_READS
           \<or> 2 * r = WRITE_BYTES_PER_SECOND_WITH_WAITING_READS \<and> odd q then q + 1 else q)"

definition record_write :: "nat \<Rightarrow> nat \<Rightarrow> nat" where
  "record_write bytes now = now + write_nanos bytes"

subsection \<open>The queue thread\<close>

text \<open>The channel, the request array, the indexes in the ring's submission queue, those the kernel has
  accepted, its posted completions, and the replies sent so far. \<open>next_write_at\<close> is the write rate limit
  of a write queue.\<close>

record io_queue =
  receiver :: "io_request list"
  requests_awaiting_completion :: "io_request option list"
  submission_queue :: "nat list"
  accepted :: "nat list"
  completions :: "(nat \<times> int) list"
  replies :: "(nat \<times> (request_error + unit)) list"
  next_write_at :: "nat option"

definition new_io_queue :: "nat \<Rightarrow> nat option \<Rightarrow> io_queue" where
  "new_io_queue max_in_flight limit =
    \<lparr>receiver = [], requests_awaiting_completion = replicate max_in_flight None, submission_queue = [],
     accepted = [], completions = [], replies = [], next_write_at = limit\<rparr>"

text \<open>The ring has as many entries as the request array.\<close>

definition queue_request_for_submission :: "nat \<Rightarrow> io_queue \<Rightarrow> io_queue option" where
  "queue_request_for_submission i q =
    (if i < length (requests_awaiting_completion q) \<and> requests_awaiting_completion q ! i \<noteq> None
        \<and> length (submission_queue q) < length (requests_awaiting_completion q)
     then Some (q\<lparr>submission_queue := submission_queue q @ [i]\<rparr>) else None)"

definition send_result :: "io_request \<Rightarrow> request_error + unit \<Rightarrow> io_queue \<Rightarrow> io_queue" where
  "send_result r result q = q\<lparr>replies := replies q @ [(reply r, result)]\<rparr>"

definition handle_io_completion :: "(nat \<Rightarrow> bool) \<Rightarrow> nat \<Rightarrow> int \<Rightarrow> io_queue \<Rightarrow> io_queue option" where
  "handle_io_completion closed i result q =
    (case vec_get (requests_awaiting_completion q) i of
       Some (Some r) \<Rightarrow>
         (case apply_completion_result result r of (r1, outcome) \<Rightarrow>
            if \<not> isl outcome \<and> 0 < remaining_len r1 \<and> \<not> closed (reply r1)
            then queue_request_for_submission i
              (q\<lparr>requests_awaiting_completion := (requests_awaiting_completion q)[i := Some r1]\<rparr>)
            else Some (send_result r1 outcome
              (q\<lparr>requests_awaiting_completion := (requests_awaiting_completion q)[i := None]\<rparr>)))
     | _ \<Rightarrow> None)"

text \<open>\<open>try_recv\<close> until a request whose caller still waits.\<close>

fun recv_open :: "(nat \<Rightarrow> bool) \<Rightarrow> io_request list \<Rightarrow> io_request option \<times> io_request list" where
  "recv_open closed [] = (None, [])"
| "recv_open closed (r # rs) = (if closed (reply r) then recv_open closed rs else (Some r, rs))"

text \<open>One pass over the request array; \<open>clock\<close> gives the times read in each iteration. The second result
  is the poll timeout.\<close>

fun queue_requests_from :: "(nat \<Rightarrow> bool) \<Rightarrow> read_queue_waiters_state \<Rightarrow> (nat \<Rightarrow> nat \<times> nat) \<Rightarrow> nat list
    \<Rightarrow> io_queue \<Rightarrow> (io_queue \<times> int) option" where
  "queue_requests_from closed w clock [] q = Some (q, - 1)"
| "queue_requests_from closed w clock (i # is) q =
    (if requests_awaiting_completion q ! i \<noteq> None then queue_requests_from closed w clock is q
     else if receiver q = [] then Some (q, - 1)
     else if (case next_write_at q of None \<Rightarrow> False
       | Some at \<Rightarrow> must_wait w at (\<exists>s \<in> set (requests_awaiting_completion q). s \<noteq> None) (fst (clock i)))
     then Some (q, 1)
     else case recv_open closed (receiver q) of
       (None, rs) \<Rightarrow> Some (q\<lparr>receiver := rs\<rparr>, - 1)
     | (Some r, rs) \<Rightarrow>
         let q1 = q\<lparr>receiver := rs,
               next_write_at := map_option (\<lambda>_. record_write (remaining_len r) (snd (clock i))) (next_write_at q),
               requests_awaiting_completion := (requests_awaiting_completion q)[i := Some r]\<rparr>
         in (case queue_request_for_submission i q1 of
               None \<Rightarrow> None
             | Some q2 \<Rightarrow> queue_requests_from closed w clock is q2))"

definition queue_requests_for_submission :: "(nat \<Rightarrow> bool) \<Rightarrow> read_queue_waiters_state \<Rightarrow> (nat \<Rightarrow> nat \<times> nat)
    \<Rightarrow> io_queue \<Rightarrow> (io_queue \<times> int) option" where
  "queue_requests_for_submission closed w clock q =
    queue_requests_from closed w clock [0..<length (requests_awaiting_completion q)] q"

text \<open>A failed queue reports every request that waits for completion and keeps its buffers.\<close>

definition leak_requests :: "io_queue \<Rightarrow> io_queue" where
  "leak_requests q = q\<lparr>replies := replies q
      @ map (\<lambda>r. (reply r, Inl QueueStopped)) (map the (filter (\<lambda>s. s \<noteq> None) (requests_awaiting_completion q)))\<rparr>"

subsection \<open>Invariant of the queue\<close>

definition request_ok :: "io_request \<Rightarrow> bool" where
  "request_ok r \<longleftrightarrow> 0 < remaining_len r \<and> remaining_len r \<le> MAX_IO_REQUEST_BYTES
    \<and> fst (remaining_buffer_range r) mod DIRECT_IO_ALIGNMENT_BYTES = 0
    \<and> remaining_len r mod DIRECT_IO_ALIGNMENT_BYTES = 0
    \<and> remaining_len r \<le> file_end_offset r \<and> file_end_offset r mod DIRECT_IO_ALIGNMENT_BYTES = 0"

definition outstanding :: "io_queue \<Rightarrow> nat list" where
  "outstanding q = submission_queue q @ accepted q @ map fst (completions q)"

text \<open>Every occupied position of the request array has exactly one entry in the ring, with the kernel or
  among the completions, and no other position has one.\<close>

definition io_queue_ok :: "nat \<Rightarrow> io_queue \<Rightarrow> bool" where
  "io_queue_ok n q \<longleftrightarrow> length (requests_awaiting_completion q) = n
    \<and> distinct (outstanding q)
    \<and> set (outstanding q) = {i. i < n \<and> requests_awaiting_completion q ! i \<noteq> None}
    \<and> (\<forall>r. Some r \<in> set (requests_awaiting_completion q) \<longrightarrow> request_ok r)
    \<and> (\<forall>r \<in> set (receiver q). request_ok r)
    \<and> (\<forall>(i, res) \<in> set (completions q). \<exists>r. requests_awaiting_completion q ! i = Some r \<and> res \<le> int (remaining_len r))"

definition slot_caller :: "io_request option \<Rightarrow> nat multiset" where
  "slot_caller s = (case s of None \<Rightarrow> {#} | Some r \<Rightarrow> {#reply r#})"

text \<open>The callers that wait in the channel or the request array, or have their reply.\<close>

definition callers :: "io_queue \<Rightarrow> nat multiset" where
  "callers q = mset (map reply (receiver q)) + sum_list (map slot_caller (requests_awaiting_completion q))
    + mset (map fst (replies q))"

lemma sum_list_update_add:
  fixes f :: "'a \<Rightarrow> 'b::comm_monoid_add"
  assumes "i < length xs"
  shows "sum_list (map f (xs[i := v])) + f (xs ! i) = sum_list (map f xs) + f v"
  using assms
proof (induction xs arbitrary: i)
  case (Cons x xs)
  show ?case
  proof (cases i)
    case 0
    then show ?thesis by (simp add: ac_simps)
  next
    case (Suc j)
    then have "sum_list (map f (xs[j := v])) + f (xs ! j) = sum_list (map f xs) + f v" using Cons by simp
    then show ?thesis using Suc by (simp add: add.assoc)
  qed
qed simp

lemma outstanding_bound:
  assumes "io_queue_ok n q"
  shows "length (outstanding q) \<le> n" and "length (outstanding q) = card {i. i < n \<and> requests_awaiting_completion q ! i \<noteq> None}"
proof -
  have d: "distinct (outstanding q)" and s: "set (outstanding q) = {i. i < n \<and> requests_awaiting_completion q ! i \<noteq> None}"
    using assms by (auto simp: io_queue_ok_def)
  show "length (outstanding q) = card {i. i < n \<and> requests_awaiting_completion q ! i \<noteq> None}"
    using distinct_card [OF d] s by simp
  also have "\<dots> \<le> card {..<n}" by (intro card_mono) auto
  finally show "length (outstanding q) \<le> n" by simp
qed

text \<open>Queuing the entry of an occupied position that has none: there is room in the ring.\<close>

lemma queue_request_ok:
  assumes n: "length (requests_awaiting_completion q) = n" and i: "i < n"
    and r: "requests_awaiting_completion q ! i = Some r" and d: "distinct (outstanding q)"
    and s: "set (outstanding q) = {j. j < n \<and> requests_awaiting_completion q ! j \<noteq> None} - {i}"
    and rest: "\<forall>r. Some r \<in> set (requests_awaiting_completion q) \<longrightarrow> request_ok r" "\<forall>r \<in> set (receiver q). request_ok r"
      "\<forall>(i, res) \<in> set (completions q). \<exists>r. requests_awaiting_completion q ! i = Some r \<and> res \<le> int (remaining_len r)"
  shows "\<exists>q1. queue_request_for_submission i q = Some q1 \<and> q1 = q\<lparr>submission_queue := submission_queue q @ [i]\<rparr> \<and> io_queue_ok n q1"
proof -
  have "length (outstanding q) = card ({j. j < n \<and> requests_awaiting_completion q ! j \<noteq> None} - {i})"
    using distinct_card [OF d] s by simp
  also have "\<dots> < card {..<n}" using i by (intro psubset_card_mono) auto
  finally have "length (submission_queue q) < n" by (simp add: outstanding_def)
  then have "queue_request_for_submission i q = Some (q\<lparr>submission_queue := submission_queue q @ [i]\<rparr>)"
    using n i r by (simp add: queue_request_for_submission_def)
  moreover have "i \<notin> set (outstanding q)" using s by simp
  then have "distinct (outstanding (q\<lparr>submission_queue := submission_queue q @ [i]\<rparr>))"
    using d by (auto simp: outstanding_def)
  moreover have "set (outstanding (q\<lparr>submission_queue := submission_queue q @ [i]\<rparr>)) = insert i (set (outstanding q))"
    by (auto simp: outstanding_def)
  ultimately show ?thesis using n i r s rest by (auto simp: io_queue_ok_def)
qed

lemma completion_progress:
  assumes "request_ok r" and "res \<le> int (remaining_len r)" and "apply_completion_result res r = (r1, Inr ())"
  shows "reply r1 = reply r \<and> (r1 = r \<or> remaining_len r1 < remaining_len r) \<and> (0 < remaining_len r1 \<longrightarrow> request_ok r1)"
proof (cases "res = - EINTR")
  case True
  then show ?thesis using assms by (simp add: apply_completion_result_def)
next
  case False
  let ?A = DIRECT_IO_ALIGNMENT_BYTES
  obtain s e where se: "remaining_buffer_range r = (s, e)" by (cases "remaining_buffer_range r")
  have n: "0 \<le> res" "nat res \<noteq> 0" "nat res mod ?A = 0"
      and r1: "r1 = r\<lparr>remaining_buffer_range := (s + nat res, e)\<rparr>"
    using assms(3) False se by (auto simp: apply_completion_result_def Let_def split: if_splits)
  have "remaining_len r mod ?A = 0" and "s mod ?A = 0" using assms(1) se by (auto simp: request_ok_def)
  moreover have "(s + nat res) mod ?A = 0" using n(3) calculation(2) by (simp add: mod_add_eq [symmetric])
  moreover have "(e - (s + nat res)) mod ?A = 0"
  proof -
    have "?A dvd e - s" using calculation(1) se by (simp add: mod_eq_0_iff_dvd)
    moreover have "?A dvd nat res" using n(3) by (simp add: mod_eq_0_iff_dvd)
    ultimately have "?A dvd (e - s) - nat res" by (rule dvd_diff_nat)
    then show ?thesis by (simp add: mod_eq_0_iff_dvd)
  qed
  ultimately show ?thesis using assms(1,2) n r1 se by (auto simp: request_ok_def)
qed

lemma handle_io_completion_ok:
  assumes ok: "io_queue_ok n q" and c: "completions q = (i, res) # cs"
  shows "\<exists>q1. handle_io_completion closed i res (q\<lparr>completions := cs\<rparr>) = Some q1 \<and> io_queue_ok n q1 \<and> callers q1 = callers q"
proof -
  let ?slots = "requests_awaiting_completion q"
  obtain r where r: "?slots ! i = Some r" "res \<le> int (remaining_len r)" using ok c by (auto simp: io_queue_ok_def)
  have n: "length ?slots = n" using ok by (simp add: io_queue_ok_def)
  have "i \<in> set (outstanding q)" using c by (simp add: outstanding_def)
  then have i: "i < n" using ok by (auto simp: io_queue_ok_def)
  then have rok: "request_ok r" using ok r n nth_mem [of i ?slots] by (simp add: io_queue_ok_def)
  let ?q = "q\<lparr>completions := cs\<rparr>"
  have perm: "mset (outstanding q) = add_mset i (mset (outstanding ?q))" using c by (simp add: outstanding_def)
  have "distinct (i # outstanding ?q)"
    using ok mset_eq_imp_distinct_iff [of "outstanding q" "i # outstanding ?q"] perm by (simp add: io_queue_ok_def)
  then have d: "distinct (outstanding ?q)" and nin: "i \<notin> set (outstanding ?q)" by auto
  have "set (outstanding q) = insert i (set (outstanding ?q))" using perm by (metis set_mset_mset set_mset_add_mset_insert)
  moreover have "set (outstanding q) = {j. j < n \<and> ?slots ! j \<noteq> None}" using ok by (simp add: io_queue_ok_def)
  ultimately have s: "set (outstanding ?q) = {j. j < n \<and> ?slots ! j \<noteq> None} - {i}" using nin by blast
  have cs: "j \<noteq> i \<and> (\<exists>r. ?slots ! j = Some r \<and> res \<le> int (remaining_len r))" if j: "(j, res) \<in> set cs" for j res
  proof -
    have "j \<in> set (outstanding ?q)" using j image_eqI [of j fst "(j, res)" "set cs"] by (simp add: outstanding_def)
    then have "j \<noteq> i" using nin by blast
    moreover have "(j, res) \<in> set (completions q)" using j c by simp
    ultimately show ?thesis using ok by (auto simp: io_queue_ok_def)
  qed
  have cs': "\<forall>(j, res) \<in> set cs. \<exists>r'. (?slots[i := v]) ! j = Some r' \<and> res \<le> int (remaining_len r')" for v
  proof (intro ballI, clarify)
    fix j res assume "(j, res) \<in> set cs"
    from cs [OF this] show "\<exists>r'. (?slots[i := v]) ! j = Some r' \<and> res \<le> int (remaining_len r')" by auto
  qed
  obtain r1 oc where a: "apply_completion_result res r = (r1, oc)" by (cases "apply_completion_result res r")
  have rep: "reply r1 = reply r" using a by (auto simp: apply_completion_result_def Let_def split: if_splits)
  let ?keep = "\<not> isl oc \<and> 0 < remaining_len r1 \<and> \<not> closed (reply r1)"
  have slot: "sum_list (map slot_caller (?slots[i := v])) + {#reply r#} = sum_list (map slot_caller ?slots) + slot_caller v" for v
    using sum_list_update_add [of i ?slots slot_caller v] i n r(1) by (simp add: slot_caller_def)
  show ?thesis
  proof (cases ?keep)
    case True
    let ?q1 = "?q\<lparr>requests_awaiting_completion := ?slots[i := Some r1]\<rparr>"
    have "oc = Inr ()" using True by (cases oc) auto
    then have r1: "request_ok r1" using completion_progress [OF rok r(2)] a True by simp
    have "\<exists>q2. queue_request_for_submission i ?q1 = Some q2 \<and> q2 = ?q1\<lparr>submission_queue := submission_queue ?q1 @ [i]\<rparr> \<and> io_queue_ok n q2"
    proof (rule queue_request_ok)
      show "set (outstanding ?q1) = {j. j < n \<and> requests_awaiting_completion ?q1 ! j \<noteq> None} - {i}"
        using s i n by (auto simp: outstanding_def nth_list_update)
      show "\<forall>r. Some r \<in> set (requests_awaiting_completion ?q1) \<longrightarrow> request_ok r"
        using ok r1 set_update_subset_insert [of ?slots i "Some r1"] by (auto simp: io_queue_ok_def)
      show "\<forall>(j, res) \<in> set (completions ?q1). \<exists>r. requests_awaiting_completion ?q1 ! j = Some r \<and> res \<le> int (remaining_len r)"
        using cs' by simp
    qed (use n i d ok in \<open>auto simp: outstanding_def io_queue_ok_def\<close>)
    moreover have "sum_list (map slot_caller (?slots[i := Some r1])) = sum_list (map slot_caller ?slots)"
      using slot [of "Some r1"] rep by (simp add: slot_caller_def)
    ultimately show ?thesis using r(1) a True i n
      by (auto simp: handle_io_completion_def vec_get_def callers_def)
  next
    case False
    let ?q1 = "send_result r1 oc (?q\<lparr>requests_awaiting_completion := ?slots[i := None]\<rparr>)"
    have "handle_io_completion closed i res ?q = Some ?q1"
      using r(1) a False i n by (auto simp: handle_io_completion_def vec_get_def)
    moreover have "set (outstanding ?q1) = {j. j < n \<and> (?slots[i := None]) ! j \<noteq> None}"
      using s i n by (auto simp: outstanding_def send_result_def nth_list_update)
    then have "io_queue_ok n ?q1"
      using ok n d cs' set_update_subset_insert [of ?slots i None]
      by (auto simp: io_queue_ok_def send_result_def outstanding_def)
    moreover have "callers ?q1 = callers q"
      using slot [of None] rep by (simp add: callers_def send_result_def slot_caller_def add.assoc [symmetric])
    ultimately show ?thesis by blast
  qed
qed

lemma recv_open_mset:
  "recv_open closed xs = (ro, rs) \<Longrightarrow> mset rs + (case ro of None \<Rightarrow> {#} | Some r \<Rightarrow> {#r#}) \<subseteq># mset xs"
proof (induction xs)
  case (Cons x xs)
  show ?case
  proof (cases "closed (reply x)")
    case True
    then have "mset rs + (case ro of None \<Rightarrow> {#} | Some r \<Rightarrow> {#r#}) \<subseteq># mset xs" using Cons by simp
    then show ?thesis by (simp add: subset_mset.order_trans)
  qed (use Cons.prems in auto)
qed simp

text \<open>Moving the next request into a free position of the array.\<close>

lemma admit_request_ok:
  assumes ok: "io_queue_ok n q" and i: "i < n" and free: "requests_awaiting_completion q ! i = None"
    and recv: "recv_open closed (receiver q) = (Some r, rs)"
    and q1: "q1 = q\<lparr>receiver := rs, next_write_at := t, requests_awaiting_completion := (requests_awaiting_completion q)[i := Some r]\<rparr>"
  shows "\<exists>q2. queue_request_for_submission i q1 = Some q2 \<and> io_queue_ok n q2 \<and> callers q2 \<subseteq># callers q"
proof -
  let ?slots = "requests_awaiting_completion q"
  have n: "length ?slots = n" and d: "distinct (outstanding q)" and s: "set (outstanding q) = {j. j < n \<and> ?slots ! j \<noteq> None}"
    using ok by (simp_all add: io_queue_ok_def)
  have sub: "mset rs + {#r#} \<subseteq># mset (receiver q)" using recv_open_mset [OF recv] by simp
  then have mem: "set rs \<subseteq> set (receiver q)" "r \<in> set (receiver q)"
    by (auto dest!: set_mset_mono) 
  have out: "outstanding q1 = outstanding q" by (simp add: q1 outstanding_def)
  have "\<exists>q2. queue_request_for_submission i q1 = Some q2 \<and> q2 = q1\<lparr>submission_queue := submission_queue q1 @ [i]\<rparr> \<and> io_queue_ok n q2"
  proof (rule queue_request_ok)
    show "set (outstanding q1) = {j. j < n \<and> requests_awaiting_completion q1 ! j \<noteq> None} - {i}"
      unfolding out s using free i n by (auto simp: q1 nth_list_update)
    show "\<forall>r. Some r \<in> set (requests_awaiting_completion q1) \<longrightarrow> request_ok r"
      using ok mem(2) set_update_subset_insert [of ?slots i "Some r"] by (auto simp: q1 io_queue_ok_def)
    show "\<forall>r \<in> set (receiver q1). request_ok r" using ok mem(1) by (auto simp: q1 io_queue_ok_def)
    show "\<forall>(j, res) \<in> set (completions q1). \<exists>r. requests_awaiting_completion q1 ! j = Some r \<and> res \<le> int (remaining_len r)"
    proof (intro ballI, clarify)
      fix j res assume "(j, res) \<in> set (completions q1)"
      then obtain r' where "?slots ! j = Some r'" "res \<le> int (remaining_len r')" using ok by (auto simp: q1 io_queue_ok_def)
      moreover from this have "j \<noteq> i" using free by auto
      ultimately show "\<exists>r. requests_awaiting_completion q1 ! j = Some r \<and> res \<le> int (remaining_len r)" by (simp add: q1)
    qed
  qed (use n i d out in \<open>simp_all add: q1\<close>)
  then obtain q2 where q2: "queue_request_for_submission i q1 = Some q2" "q2 = q1\<lparr>submission_queue := submission_queue q1 @ [i]\<rparr>" "io_queue_ok n q2"
    by blast
  let ?S = "sum_list (map slot_caller ?slots)" and ?R = "mset (map fst (replies q))"
  have slots: "sum_list (map slot_caller (?slots[i := Some r])) = ?S + {#reply r#}"
    using sum_list_update_add [of i ?slots slot_caller "Some r"] i n free by (simp add: slot_caller_def)
  have "callers q2 = (mset (map reply rs) + {#reply r#}) + ?S + ?R" unfolding callers_def q2(2) q1 by (simp add: slots)
  moreover have "callers q = mset (map reply (receiver q)) + ?S + ?R" by (simp add: callers_def)
  moreover have "mset (map reply rs) + {#reply r#} \<subseteq># mset (map reply (receiver q))"
    using image_mset_subseteq_mono [OF sub, of reply] by simp
  ultimately have "callers q2 \<subseteq># callers q" by (simp only: subset_mset.add_right_mono)
  then show ?thesis using q2 by blast
qed

lemma queue_requests_from_ok:
  assumes "io_queue_ok n q" and "set is \<subseteq> {..<n}"
  shows "\<exists>q1 t. queue_requests_from closed w clock is q = Some (q1, t) \<and> io_queue_ok n q1 \<and> callers q1 \<subseteq># callers q"
  using assms
proof (induction "is" arbitrary: q)
  case (Cons i "is")
  let ?slots = "requests_awaiting_completion q"
  let ?wait = "case next_write_at q of None \<Rightarrow> False
       | Some at \<Rightarrow> must_wait w at (\<exists>s \<in> set ?slots. s \<noteq> None) (fst (clock i))"
  have i: "i < n" using Cons.prems(2) by simp
  show ?case
  proof (cases "?slots ! i \<noteq> None \<or> receiver q = [] \<or> ?wait")
    case True
    then show ?thesis using Cons.IH [OF Cons.prems(1)] Cons.prems by auto
  next
    case False
    obtain ro rs where recv: "recv_open closed (receiver q) = (ro, rs)" by fastforce
    show ?thesis
    proof (cases ro)
      case None
      have sub: "mset rs \<subseteq># mset (receiver q)" using recv_open_mset [OF recv] None by simp
      then have "set rs \<subseteq> set (receiver q)" by (auto dest!: set_mset_mono)
      then have "io_queue_ok n (q\<lparr>receiver := rs\<rparr>)" using Cons.prems(1) by (auto simp: io_queue_ok_def outstanding_def)
      moreover have "callers (q\<lparr>receiver := rs\<rparr>) \<subseteq># callers q"
        using image_mset_subseteq_mono [OF sub, of reply] by (simp add: callers_def)
      ultimately show ?thesis using False recv None by auto
    next
      case (Some r)
      let ?t = "map_option (\<lambda>_. record_write (remaining_len r) (snd (clock i))) (next_write_at q)"
      obtain q2 where q2: "queue_request_for_submission i (q\<lparr>receiver := rs, next_write_at := ?t,
          requests_awaiting_completion := ?slots[i := Some r]\<rparr>) = Some q2" "io_queue_ok n q2" "callers q2 \<subseteq># callers q"
        using admit_request_ok [OF Cons.prems(1) i _ recv [unfolded Some] refl, of ?t] False by auto
      obtain q3 t where "queue_requests_from closed w clock is q2 = Some (q3, t)" "io_queue_ok n q3" "callers q3 \<subseteq># callers q2"
        using Cons.IH [OF q2(2)] Cons.prems(2) by auto
      then show ?thesis using False recv Some q2 by (auto intro: subset_mset.order_trans)
    qed
  qed
qed simp

subsection \<open>Runs of a queue\<close>

text \<open>Callers send requests, the queue thread admits them and handles completions, and the kernel accepts
  entries and completes them, in any order. A completion never reports more bytes than were left to
  transfer.\<close>

inductive io_run :: "nat \<Rightarrow> io_queue \<Rightarrow> nat set \<Rightarrow> bool" for n where
  io_start: "io_run n (new_io_queue n limit) {}"
| io_send: "io_run n q used \<Longrightarrow> new_io_request offset bufs rg caller = Some r \<Longrightarrow> caller \<notin> used \<Longrightarrow>
    io_run n (q\<lparr>receiver := receiver q @ [r]\<rparr>) (insert caller used)"
| io_admit: "io_run n q used \<Longrightarrow> queue_requests_for_submission closed w clock q = Some (q1, timeout) \<Longrightarrow> io_run n q1 used"
| io_submit: "io_run n q used \<Longrightarrow> submission_queue q = i # rest \<Longrightarrow>
    io_run n (q\<lparr>submission_queue := rest, accepted := accepted q @ [i]\<rparr>) used"
| io_complete: "io_run n q used \<Longrightarrow> i \<in> set (accepted q) \<Longrightarrow> requests_awaiting_completion q ! i = Some r \<Longrightarrow>
    res \<le> int (remaining_len r) \<Longrightarrow>
    io_run n (q\<lparr>accepted := remove1 i (accepted q), completions := completions q @ [(i, res)]\<rparr>) used"
| io_handle: "io_run n q used \<Longrightarrow> completions q = (i, res) # cs \<Longrightarrow>
    handle_io_completion closed i res (q\<lparr>completions := cs\<rparr>) = Some q1 \<Longrightarrow> io_run n q1 used"

lemma new_io_request_ok: "new_io_request offset bufs rg caller = Some r \<Longrightarrow> request_ok r \<and> reply r = caller"
proof -
  assume new: "new_io_request offset bufs rg caller = Some r"
  let ?len = "snd rg - fst rg" and ?A = DIRECT_IO_ALIGNMENT_BYTES
  have m: "offset mod ?A = 0" "fst rg mod ?A = 0" "?len mod ?A = 0" "0 < ?len" "?len \<le> MAX_IO_REQUEST_BYTES"
    and r: "r = \<lparr>file_end_offset = offset + ?len, buffers = bufs, remaining_buffer_range = rg, reply = caller\<rparr>"
    using new by (simp_all only: new_io_request_def Let_def option.inject option.distinct split: if_splits)
  have "(offset + ?len) mod ?A = 0" using m(1,3) mod_add_eq [of offset ?A ?len] by simp
  then show ?thesis unfolding r request_ok_def using m by simp
qed

lemma io_queue_ok_outstanding:
  assumes ok: "io_queue_ok n q" and m: "mset (outstanding q1) = mset (outstanding q)"
    and same: "requests_awaiting_completion q1 = requests_awaiting_completion q" "receiver q1 = receiver q"
    and c: "\<forall>(i, res) \<in> set (completions q1). \<exists>r. requests_awaiting_completion q ! i = Some r \<and> res \<le> int (remaining_len r)"
  shows "io_queue_ok n q1"
proof -
  have "distinct (outstanding q1)" using ok mset_eq_imp_distinct_iff [OF m] by (simp add: io_queue_ok_def)
  moreover have "set (outstanding q1) = set (outstanding q)" using m by (metis set_mset_mset)
  ultimately show ?thesis using ok same c unfolding io_queue_ok_def by simp
qed

lemma io_run_ok: "io_run n q used \<Longrightarrow> io_queue_ok n q \<and> finite used \<and> callers q \<subseteq># mset_set used"
proof (induction rule: io_run.induct)
  case (io_start limit)
  have "sum_list (map slot_caller (replicate n None)) = {#}" by (induction n) (simp_all add: slot_caller_def)
  then show ?case by (simp add: new_io_queue_def io_queue_ok_def outstanding_def callers_def)
next
  case (io_send q used offset bufs rg caller r)
  note r = new_io_request_ok [OF io_send.hyps(2)]
  have "io_queue_ok n (q\<lparr>receiver := receiver q @ [r]\<rparr>)"
    using io_send.IH r by (auto simp: io_queue_ok_def outstanding_def)
  moreover have "callers (q\<lparr>receiver := receiver q @ [r]\<rparr>) = add_mset caller (callers q)" using r by (simp add: callers_def)
  ultimately show ?case using io_send.IH io_send.hyps(3) by simp
next
  case (io_admit q used closed w clock q1 timeout)
  have len: "length (requests_awaiting_completion q) = n" using io_admit.IH by (simp add: io_queue_ok_def)
  have "set [0..<n] \<subseteq> {..<n}" by auto
  then obtain q2 t where "queue_requests_from closed w clock [0..<n] q = Some (q2, t)" "io_queue_ok n q2" "callers q2 \<subseteq># callers q"
    using queue_requests_from_ok [of n q "[0..<n]" closed w clock] io_admit.IH by blast
  then show ?case using io_admit len by (auto simp: queue_requests_for_submission_def intro: subset_mset.order_trans)
next
  case (io_submit q used i rest)
  let ?q = "q\<lparr>submission_queue := rest, accepted := accepted q @ [i]\<rparr>"
  have "io_queue_ok n ?q"
    by (rule io_queue_ok_outstanding [of n q]) (use io_submit in \<open>auto simp: outstanding_def io_queue_ok_def\<close>)
  then show ?case using io_submit.IH by (simp add: callers_def)
next
  case (io_complete q used i r res)
  let ?q = "q\<lparr>accepted := remove1 i (accepted q), completions := completions q @ [(i, res)]\<rparr>"
  have "mset (outstanding ?q) = mset (outstanding q)" using io_complete.hyps(2) by (simp add: outstanding_def)
  then have "io_queue_ok n ?q"
    by (rule io_queue_ok_outstanding [rotated]) (use io_complete in \<open>auto simp: io_queue_ok_def\<close>)
  then show ?case using io_complete.IH by (simp add: callers_def)
next
  case (io_handle q used i res cs closed q1)
  then show ?case using handle_io_completion_ok [of n q i res cs closed] by auto
qed

lemma distinct_of_mset_set: "mset xs \<subseteq># mset_set A \<Longrightarrow> distinct xs"
proof -
  assume sub: "mset xs \<subseteq># mset_set A"
  have "count (mset xs) a = (if a \<in> set xs then 1 else 0)" for a
  proof -
    have "count (mset_set A) a \<le> 1" by (cases "finite A \<and> a \<in> A") auto
    then have "count (mset xs) a \<le> 1" using mset_subset_eq_count [OF sub, of a] by linarith
    then show ?thesis by (cases "a \<in> set xs") (auto simp: le_Suc_eq)
  qed
  then show "distinct xs" by (simp add: distinct_count_atmost_1)
qed

text \<open>C13: Whatever requests callers send and whatever the kernel reports, every request in the array has exactly
  one entry in the ring, with the kernel or among the completions, so the ring never overflows;
  admitting requests and handling completions never panic; and no caller gets more than one reply.\<close>

theorem io_queue_runs_safe:
  assumes run: "io_run n q used"
  shows "length (submission_queue q) + length (accepted q) + length (completions q)
      = card {i. i < n \<and> requests_awaiting_completion q ! i \<noteq> None}
    \<and> length (submission_queue q) + length (accepted q) + length (completions q) \<le> n
    \<and> distinct (map fst (replies q)) \<and> fst ` set (replies q) \<subseteq> used
    \<and> queue_requests_for_submission closed w clock q \<noteq> None
    \<and> (completions q = (i, res) # cs \<longrightarrow> handle_io_completion closed i res (q\<lparr>completions := cs\<rparr>) \<noteq> None)"
proof -
  have ok: "io_queue_ok n q" and fin: "finite used" and c: "callers q \<subseteq># mset_set used" using io_run_ok [OF run] by auto
  have "mset (map fst (replies q)) \<subseteq># callers q" by (simp add: callers_def)
  then have sub: "mset (map fst (replies q)) \<subseteq># mset_set used" using c by (rule subset_mset.order_trans)
  then have "set (map fst (replies q)) \<subseteq> used" using set_mset_mono [OF sub] fin by simp
  moreover have "queue_requests_for_submission closed w clock q \<noteq> None"
  proof -
    have "length (requests_awaiting_completion q) = n" using ok by (simp add: io_queue_ok_def)
    moreover have "set [0..<n] \<subseteq> {..<n}" by auto
    ultimately show ?thesis using queue_requests_from_ok [OF ok, of "[0..<n]" closed w clock]
      unfolding queue_requests_for_submission_def by auto
  qed
  moreover have "handle_io_completion closed i res (q\<lparr>completions := cs\<rparr>) \<noteq> None" if "completions q = (i, res) # cs"
    using handle_io_completion_ok [OF ok that, of closed] by auto
  ultimately show ?thesis using outstanding_bound [OF ok] distinct_of_mset_set [OF sub] by (simp add: outstanding_def)
qed

theorem io_queue_runs_safe_witness:
  "\<exists>q. io_run 8 q {3} \<and> length (receiver q) = 1 \<and> distinct (map fst (replies q))
    \<and> queue_requests_for_submission (\<lambda>_. False) \<lparr>waiting_reads = 0, last_wait_ended_at = None\<rparr> (\<lambda>_. (0, 0)) q \<noteq> None"
proof -
  have "\<exists>r. new_io_request 0 (ReadBuffers 0 4096) (0, 4096) 3 = Some r"
    by (simp add: new_io_request_def DIRECT_IO_ALIGNMENT_BYTES_def MAX_IO_REQUEST_BYTES_def)
  then obtain r where r: "new_io_request 0 (ReadBuffers 0 4096) (0, 4096) 3 = Some r" by blast
  let ?q = "(new_io_queue 8 None)\<lparr>receiver := receiver (new_io_queue 8 None) @ [r]\<rparr>"
  have run: "io_run 8 ?q {3}" using io_send [OF io_start r, of 8 None] by simp
  have "length (receiver ?q) = 1" by (simp add: new_io_queue_def)
  then show ?thesis using run io_queue_runs_safe [OF run] by blast
qed

end
