(* ===== verification/Split_Writes.thy ===== *)
theory Split_Writes
  imports Io_Queue
begin

text \<open>
  \<open>WriteQueue::write_padded\<close> of \<open>feuer-storage/src/uring.rs\<close>: a padded write is split into requests of at
  most 1 MiB that are written one after the other, each through as many submissions as the kernel
  completes it in. The kernel writes a prefix of the submitted vectors and posts its length, or posts an
  error after an arbitrary part of them. The theory shows that this implements the single write of
  \<open>Data_File\<close>: the whole padded range on success, a part of it otherwise, and nothing outside.
\<close>

subsection \<open>The kernel and one request\<close>

text \<open>A completion has its result and, for an error, the part of the vectors that the kernel wrote. A queue
  that stops drops the reply while the kernel may still write a part of the entry.\<close>

datatype write_completion = Completion int "nat \<Rightarrow> bool" | ReplyDropped "nat \<Rightarrow> bool"

fun kernel_write :: "submission \<Rightarrow> int \<Rightarrow> (nat \<Rightarrow> bool) \<Rightarrow> image \<Rightarrow> image" where
  "kernel_write (WritevEntry offset iovecs) result kept img =
    (if 0 \<le> result then disk_write offset (take (nat result) (concat iovecs)) img
     else disk_write_part kept offset (concat iovecs) img)"
| "kernel_write (ReadEntry _ _ _) result kept img = img"

datatype write_error = AllocationFailed | RequestFailed request_error

datatype write_result = Panic | Pending image | Done image "write_error + unit"

text \<open>A request is submitted again until its range is empty or a completion is an error; it is pending
  while a completion is missing, with the file as of the last one.\<close>

fun await_request :: "write_completion list \<Rightarrow> io_request \<Rightarrow> image \<Rightarrow> write_result" where
  "await_request [] r img = Pending img"
| "await_request (ReplyDropped kept # cs) r img =
    Done (kernel_write (submission_entry r) (- 1) kept img) (Inl (RequestFailed QueueStopped))"
| "await_request (Completion result kept # cs) r img =
    (let img1 = kernel_write (submission_entry r) result kept img
     in case apply_completion_result result r of
          (r1, Inl e) \<Rightarrow> Done img1 (Inl (RequestFailed e))
        | (r1, Inr _) \<Rightarrow> if remaining_len r1 = 0 then Done img1 (Inr ()) else await_request cs r1 img1)"

subsection \<open>Splitting a write\<close>

text \<open>What a piece meets: whether the channel has a permit, the address of its bytes is aligned and its
  copy can be allocated, and the completions of its request.\<close>

record piece_env =
  reserved :: bool
  bytes_aligned :: bool
  allocated :: bool
  completed :: "write_completion list"

definition piece_starts :: "nat \<Rightarrow> nat list" where
  "piece_starts len = map (\<lambda>i. i * MAX_IO_REQUEST_BYTES) [0..<div_ceil len MAX_IO_REQUEST_BYTES]"

definition write_piece :: "piece_env \<Rightarrow> nat \<Rightarrow> nat \<Rightarrow> byte list \<Rightarrow> nat \<Rightarrow> image \<Rightarrow> write_result" where
  "write_piece env offset len bytes start img =
    (let request_length = min (len - start) MAX_IO_REQUEST_BYTES;
         piece_end = min (start + request_length) (length bytes)
     in if \<not> reserved env then Done img (Inl (RequestFailed QueueStopped))
        else case from_write_bytes (bytes_aligned env) request_length (slice (min start piece_end) piece_end bytes) of
          None \<Rightarrow> Panic
        | Some (WriteBuffers prefix tail) \<Rightarrow>
            if tail \<noteq> [] \<and> \<not> allocated env then Done img (Inl AllocationFailed)
            else (case new_io_request (offset + start) (WriteBuffers prefix tail) (0, request_length) start of
                    None \<Rightarrow> Panic
                  | Some r \<Rightarrow> await_request (completed env) r img)
        | Some (ReadBuffers _ _) \<Rightarrow> Panic)"

fun write_pieces :: "(nat \<Rightarrow> piece_env) \<Rightarrow> nat \<Rightarrow> nat \<Rightarrow> byte list \<Rightarrow> nat list \<Rightarrow> image \<Rightarrow> write_result" where
  "write_pieces env offset len bytes [] img = Done img (Inr ())"
| "write_pieces env offset len bytes (start # starts) img =
    (case write_piece (env start) offset len bytes start img of
       Done img1 (Inr _) \<Rightarrow> write_pieces env offset len bytes starts img1
     | result \<Rightarrow> result)"

definition queue_write_padded :: "(nat \<Rightarrow> piece_env) \<Rightarrow> nat \<Rightarrow> nat \<Rightarrow> byte list \<Rightarrow> image \<Rightarrow> write_result" where
  "queue_write_padded env offset len bytes img = write_pieces env offset len bytes (piece_starts len) img"

subsection \<open>Progress of a write\<close>

definition padded_bytes :: "nat \<Rightarrow> byte list \<Rightarrow> byte list" where
  "padded_bytes len bytes = take len bytes @ replicate (len - length bytes) 0"

text \<open>\<open>partly offset P d img img'\<close>: every byte of \<open>img'\<close> is that of \<open>img\<close> or the one that the write of \<open>P\<close>
  puts there, and the first \<open>d\<close> bytes of \<open>P\<close> have arrived.\<close>

definition partly :: "nat \<Rightarrow> byte list \<Rightarrow> nat \<Rightarrow> image \<Rightarrow> image \<Rightarrow> bool" where
  "partly offset P d img img' \<longleftrightarrow>
    (\<forall>i. img' i = img i \<or> offset \<le> i \<and> i < offset + length P \<and> img' i = P ! (i - offset))
    \<and> (\<forall>i. offset \<le> i \<and> i < offset + d \<longrightarrow> img' i = P ! (i - offset))"

lemma length_padded_bytes [simp]: "length (padded_bytes len bytes) = len"
  by (simp add: padded_bytes_def min_def)

lemma partly_refl: "partly offset P 0 img img"
  by (auto simp: partly_def)

lemma partly_mono: "partly offset P d img img' \<Longrightarrow> d' \<le> d \<Longrightarrow> partly offset P d' img img'"
  unfolding partly_def by auto

lemma partly_all:
  assumes "partly offset P (length P) img img'"
  shows "img' = disk_write offset P img"
proof
  fix i
  show "img' i = disk_write offset P img i"
    using assms unfolding partly_def disk_write_def by (cases "offset \<le> i \<and> i < offset + length P") auto
qed

lemma partly_part:
  assumes "partly offset P d img img'"
  shows "\<exists>kept. img' = disk_write_part kept offset P img"
proof
  show "img' = disk_write_part (\<lambda>i. img' (offset + i) = P ! i) offset P img"
  proof
    fix i
    show "img' i = disk_write_part (\<lambda>i. img' (offset + i) = P ! i) offset P img i"
      using assms unfolding partly_def disk_write_part_def by (cases "offset \<le> i") auto
  qed
qed

lemma partly_or:
  "partly offset P d img img' \<Longrightarrow> img' i = img i \<or> offset \<le> i \<and> i < offset + length P \<and> img' i = P ! (i - offset)"
  unfolding partly_def by blast

lemma partly_front: "partly offset P d img img' \<Longrightarrow> offset \<le> i \<Longrightarrow> i < offset + d \<Longrightarrow> img' i = P ! (i - offset)"
  unfolding partly_def by blast

lemma partlyI:
  assumes "\<And>i. img' i = img i \<or> offset \<le> i \<and> i < offset + length P \<and> img' i = P ! (i - offset)"
    and "\<And>i. offset \<le> i \<Longrightarrow> i < offset + d \<Longrightarrow> img' i = P ! (i - offset)"
  shows "partly offset P d img img'"
  unfolding partly_def
proof (intro conjI allI impI)
  fix i
  show "img' i = img i \<or> offset \<le> i \<and> i < offset + length P \<and> img' i = P ! (i - offset)" by (rule assms(1))
next
  fix i
  assume "offset \<le> i \<and> i < offset + d"
  then show "img' i = P ! (i - offset)" by (elim conjE) (rule assms(2))
qed

text \<open>A step that changes bytes only to those of \<open>P\<close> keeps what has arrived.\<close>

lemma partly_step:
  assumes p: "partly offset P d img img1"
    and same: "\<And>i. img2 i = img1 i \<or> offset \<le> i \<and> i < offset + length P \<and> img2 i = P ! (i - offset)"
    and new: "\<And>i. offset + d \<le> i \<Longrightarrow> i < offset + d' \<Longrightarrow> img2 i = P ! (i - offset)"
  shows "partly offset P d' img img2"
proof (rule partlyI)
  fix i
  show "img2 i = img i \<or> offset \<le> i \<and> i < offset + length P \<and> img2 i = P ! (i - offset)"
    using same [of i] partly_or [OF p, of i] by metis
next
  fix i
  assume i: "offset \<le> i" "i < offset + d'"
  show "img2 i = P ! (i - offset)"
  proof (cases "offset + d \<le> i")
    case True
    then show ?thesis using new i(2) by blast
  next
    case False
    then show ?thesis using same [of i] partly_front [OF p i(1)] by (metis not_le)
  qed
qed

lemma partly_write:
  assumes p: "partly offset P d img img1" and e: "e \<le> length P"
  shows "partly offset P (min (d + n) e) img (disk_write (offset + d) (take n (slice d e P)) img1)"
proof (rule partly_step [OF p])
  have len: "length (take n (slice d e P)) = min n (e - d)" using e by (simp add: slice_def)
  have at: "take n (slice d e P) ! (i - (offset + d)) = P ! (i - offset)"
    if "offset + d \<le> i" "i < offset + d + min n (e - d)" for i
  proof -
    have "i - (offset + d) < n" "i - (offset + d) < e - d" "d + (i - (offset + d)) = i - offset"
      using that by linarith+
    then show ?thesis using e by simp
  qed
  fix i
  show "disk_write (offset + d) (take n (slice d e P)) img1 i = img1 i \<or> offset \<le> i \<and> i < offset + length P
      \<and> disk_write (offset + d) (take n (slice d e P)) img1 i = P ! (i - offset)"
  proof (cases "offset + d \<le> i \<and> i < offset + d + min n (e - d)")
    case True
    then have "offset \<le> i \<and> i < offset + length P" using e by linarith
    then show ?thesis using True at [of i] unfolding disk_write_def len by (simp only: simp_thms if_True)
  next
    case False
    then show ?thesis unfolding disk_write_def len by (simp only: simp_thms if_False)
  qed
  show "disk_write (offset + d) (take n (slice d e P)) img1 i = P ! (i - offset)"
    if i: "offset + d \<le> i" "i < offset + min (d + n) e"
  proof -
    have "i < offset + d + min n (e - d)" using i by linarith
    then show ?thesis using i(1) at [of i] unfolding disk_write_def len by (simp only: simp_thms if_True)
  qed
qed

lemma partly_write_part:
  assumes p: "partly offset P d img img1" and e: "e \<le> length P"
  shows "partly offset P d img (disk_write_part kept (offset + d) (slice d e P) img1)"
proof (rule partly_step [OF p])
  have at: "slice d e P ! (i - (offset + d)) = P ! (i - offset) \<and> i < offset + length P"
    if "offset + d \<le> i" "i < offset + d + (e - d)" for i
  proof -
    have "i - (offset + d) < e - d" "d + (i - (offset + d)) = i - offset" "i < offset + length P"
      using that e by linarith+
    then show ?thesis using e by simp
  qed
  have len: "length (slice d e P) = e - d" using e by simp
  fix i
  show "disk_write_part kept (offset + d) (slice d e P) img1 i = img1 i \<or> offset \<le> i \<and> i < offset + length P
      \<and> disk_write_part kept (offset + d) (slice d e P) img1 i = P ! (i - offset)"
  proof (cases "offset + d \<le> i \<and> i < offset + d + (e - d) \<and> kept (i - (offset + d))")
    case True
    then show ?thesis using at [of i] unfolding disk_write_part_def len by (simp only: simp_thms if_True) linarith
  next
    case False
    then show ?thesis unfolding disk_write_part_def len by (simp only: simp_thms if_False)
  qed
qed linarith

subsection \<open>A request writes its piece\<close>

text \<open>\<open>progress\<close>: what a result must satisfy when success has to deliver the first \<open>e\<close> bytes of \<open>P\<close>.\<close>

definition progress :: "nat \<Rightarrow> byte list \<Rightarrow> nat \<Rightarrow> image \<Rightarrow> write_result \<Rightarrow> bool" where
  "progress offset P e img result \<longleftrightarrow>
    (case result of
       Panic \<Rightarrow> False
     | Pending img' \<Rightarrow> partly offset P 0 img img'
     | Done img' (Inl _) \<Rightarrow> partly offset P 0 img img'
     | Done img' (Inr _) \<Rightarrow> partly offset P e img img')"

lemma concat_write_iovecs: "concat (write_iovecs n bs) = drop n (concat bs)"
  by (induction n bs rule: write_iovecs.induct) (auto simp: Let_def min_def)

lemma from_write_bytes_padded:
  assumes "length bs \<le> len" and "len mod DIRECT_IO_ALIGNMENT_BYTES = 0"
  obtains b0 b1 where "from_write_bytes aligned len bs = Some (WriteBuffers b0 b1)"
    and "b0 @ b1 = bs @ replicate (len - length bs) 0"
proof -
  define n where "n = (if aligned then length bs div DIRECT_IO_ALIGNMENT_BYTES * DIRECT_IO_ALIGNMENT_BYTES else 0)"
  define tail where "tail = (if len - n = 0 then [] else copy_into 0 (drop n bs) (replicate (len - n) (0 :: byte)))"
  have n: "n \<le> length bs" by (simp add: n_def)
  have "from_write_bytes aligned len bs = Some (WriteBuffers (take n bs) tail)"
    using assms by (simp add: from_write_bytes_def n_def tail_def Let_def)
  moreover have "take n bs @ tail = bs @ replicate (len - length bs) 0"
    using n assms(1) by (simp add: tail_def copy_into_def flip: append_assoc)
  ultimately show ?thesis using that by blast
qed

lemma piece_bytes:
  assumes "start + rl \<le> len" and "e = min (start + rl) (length bytes)"
  shows "slice (min start e) e bytes @ replicate (rl - length (slice (min start e) e bytes)) 0
    = slice start (start + rl) (padded_bytes len bytes)"
proof (cases "length bytes \<le> start")
  case True
  then have "e = length bytes" "min start e = e" "len - (start - length bytes) - length bytes = len - start"
    using assms by simp_all
  then show ?thesis using assms(1) True by (simp add: slice_def padded_bytes_def)
next
  case lt: False
  show ?thesis
  proof (cases "start + rl \<le> length bytes")
    case True
    then have "e = start + rl" "min start e = start" "rl \<le> length bytes - start" "rl \<le> len - start"
      using assms by simp_all
    then show ?thesis using assms(1) True by (simp add: slice_def padded_bytes_def drop_take)
  next
    case False
    then have "e = length bytes" "min start e = start" using assms(2) lt by simp_all
    then show ?thesis using assms(1) False lt by (simp add: slice_def padded_bytes_def)
  qed
qed

text \<open>A request for the piece of \<open>P\<close> from \<open>s\<close> of which \<open>a\<close> bytes are written.\<close>

definition piece_request :: "nat \<Rightarrow> byte list \<Rightarrow> nat \<Rightarrow> nat \<Rightarrow> nat \<Rightarrow> io_request \<Rightarrow> bool" where
  "piece_request offset P s rl a r \<longleftrightarrow>
    (\<exists>b0 b1. buffers r = WriteBuffers b0 b1 \<and> b0 @ b1 = slice s (s + rl) P) \<and> s + rl \<le> length P
    \<and> remaining_buffer_range r = (a, rl) \<and> a < rl \<and> file_end_offset r = offset + s + rl"

lemma piece_request_entry:
  assumes "piece_request offset P s rl a r"
  obtains vs where "submission_entry r = WritevEntry (offset + (s + a)) vs" and "concat vs = slice (s + a) (s + rl) P"
proof -
  obtain b0 b1 where b: "buffers r = WriteBuffers b0 b1" "b0 @ b1 = slice s (s + rl) P"
    and r: "remaining_buffer_range r = (a, rl)" "a < rl" "file_end_offset r = offset + s + rl"
    using assms unfolding piece_request_def by blast
  have "offset + s + rl - (rl - a) = offset + (s + a)" using r(2) by linarith
  then have "submission_entry r = WritevEntry (offset + (s + a)) (write_iovecs a [b0, b1])"
    unfolding submission_entry_def b(1) r(1,3) buffers_submission_entry.simps fst_conv snd_conv by (rule arg_cong)
  moreover have "concat (write_iovecs a [b0, b1]) = slice (s + a) (s + rl) P"
    unfolding concat_write_iovecs using b(2) by (simp add: slice_def drop_take add.commute)
  ultimately show ?thesis using that by blast
qed

lemma kernel_write_more:
  assumes q: "piece_request offset P s rl a r" and p: "partly offset P (s + a) img img1" and "0 \<le> result"
  shows "partly offset P (min (s + a + nat result) (s + rl)) img (kernel_write (submission_entry r) result kept img1)"
proof -
  have e: "s + rl \<le> length P" using q unfolding piece_request_def by blast
  obtain vs where sub: "submission_entry r = WritevEntry (offset + (s + a)) vs"
    and vec: "concat vs = slice (s + a) (s + rl) P" using piece_request_entry [OF q] .
  show ?thesis using partly_write [OF p e, of "nat result"] assms(3) unfolding sub kernel_write.simps vec by simp
qed

lemma kernel_write_partly:
  assumes q: "piece_request offset P s rl a r" and p: "partly offset P (s + a) img img1"
  shows "partly offset P (s + a) img (kernel_write (submission_entry r) result kept img1)"
proof (cases "0 \<le> result")
  case True
  then show ?thesis using partly_mono [OF kernel_write_more [OF q p True]] q by (simp add: piece_request_def)
next
  case False
  have e: "s + rl \<le> length P" using q unfolding piece_request_def by blast
  obtain vs where sub: "submission_entry r = WritevEntry (offset + (s + a)) vs"
    and vec: "concat vs = slice (s + a) (s + rl) P" using piece_request_entry [OF q] .
  show ?thesis using partly_write_part [OF p e, of kept] False unfolding sub kernel_write.simps vec by simp
qed

lemma completion_step:
  assumes q: "piece_request offset P s rl a r" and p: "partly offset P (s + a) img img1"
    and img2: "img2 = kernel_write (submission_entry r) result kept img1"
    and app: "apply_completion_result result r = (r1, x)"
  shows "partly offset P (s + a) img img2
    \<and> (x = Inr () \<longrightarrow> remaining_len r1 = 0 \<and> partly offset P (s + rl) img img2
      \<or> remaining_len r1 \<noteq> 0 \<and> (\<exists>a1. piece_request offset P s rl a1 r1 \<and> partly offset P (s + a1) img img2))"
proof -
  have rg: "remaining_buffer_range r = (a, rl)" "a < rl" using q unfolding piece_request_def by blast+
  have more: "partly offset P (min (s + a + nat result) (s + rl)) img img2" if "0 \<le> result"
    unfolding img2 by (rule kernel_write_more [OF q p that])
  have some: "partly offset P (s + a) img img2" unfolding img2 by (rule kernel_write_partly [OF q p])
  have same: "r1 = r" if "x = Inr ()" "\<not> 0 < result"
    using app that by (auto simp: apply_completion_result_def Let_def split: if_splits)
  have moved: "r1 = r\<lparr>remaining_buffer_range := (a + nat result, rl)\<rparr>" if "x = Inr ()" "0 < result"
    using app that rg(1) by (auto simp: apply_completion_result_def EINTR_def Let_def split: if_splits)
  show ?thesis
  proof (intro conjI impI some)
    assume x: "x = Inr ()"
    consider "\<not> 0 < result" | "0 < result" "a + nat result < rl" | "0 < result" "rl \<le> a + nat result" by linarith
    then show "remaining_len r1 = 0 \<and> partly offset P (s + rl) img img2
      \<or> remaining_len r1 \<noteq> 0 \<and> (\<exists>a1. piece_request offset P s rl a1 r1 \<and> partly offset P (s + a1) img img2)"
    proof cases
      case 1
      then show ?thesis using same [OF x] q some rg by auto
    next
      case 2
      then have "piece_request offset P s rl (a + nat result) r1" using q moved [OF x] by (simp add: piece_request_def)
      moreover have "partly offset P (s + (a + nat result)) img img2" using more 2 by (simp add: min_def add.assoc)
      ultimately show ?thesis using moved [OF x] 2 by auto
    next
      case 3
      then show ?thesis using moved [OF x] more by (simp add: min_absorb2)
    qed
  qed
qed

lemma await_request_progress:
  "piece_request offset P s rl a r \<Longrightarrow> partly offset P (s + a) img img1
    \<Longrightarrow> progress offset P (s + rl) img (await_request cs r img1)"
proof (induction cs arbitrary: r img1 a)
  case Nil
  show ?case using partly_mono [OF Nil(2), of 0] by (simp add: progress_def)
next
  case (Cons c cs)
  show ?case
  proof (cases c)
    case (ReplyDropped kept)
    then show ?thesis using partly_mono [OF kernel_write_partly [OF Cons(2,3)], of 0] by (simp add: progress_def)
  next
    case (Completion result kept)
    define img2 where "img2 = kernel_write (submission_entry r) result kept img1"
    obtain r1 x where app: "apply_completion_result result r = (r1, x)" by fastforce
    note st = completion_step [OF Cons(2,3) img2_def app]
    have 0: "partly offset P 0 img img2" using st partly_mono by blast
    have run: "await_request (c # cs) r img1 = (case x of Inl e \<Rightarrow> Done img2 (Inl (RequestFailed e))
        | Inr _ \<Rightarrow> if remaining_len r1 = 0 then Done img2 (Inr ()) else await_request cs r1 img2)"
      by (simp add: Completion app Let_def flip: img2_def)
    show ?thesis
    proof (cases x)
      case (Inl e)
      then show ?thesis using 0 unfolding run by (simp add: progress_def)
    next
      case (Inr u)
      then have x: "x = Inr ()" by simp
      note step = st [THEN conjunct2, THEN mp, OF x]
      show ?thesis
      proof (cases "remaining_len r1 = 0")
        case True
        then have "partly offset P (s + rl) img img2" using step by (simp only: simp_thms not_True_eq_False)
        then show ?thesis unfolding run x using True by (simp add: progress_def)
      next
        case False
        then have "\<exists>a1. piece_request offset P s rl a1 r1 \<and> partly offset P (s + a1) img img2"
          using step by (simp only: simp_thms not_False_eq_True)
        then obtain a1 where "piece_request offset P s rl a1 r1" "partly offset P (s + a1) img img2" by (elim exE conjE)
        then have "progress offset P (s + rl) img (await_request cs r1 img2)" by (rule Cons(1))
        then show ?thesis unfolding run x using False by (simp only: sum.case if_False)
      qed
    qed
  qed
qed

text \<open>Completions that transfer a positive aligned number of bytes end a request of 1 MiB after at most
  256 of them.\<close>

fun transfers :: "write_completion \<Rightarrow> bool" where
  "transfers (Completion result _) \<longleftrightarrow> 0 < result \<and> nat result mod DIRECT_IO_ALIGNMENT_BYTES = 0"
| "transfers (ReplyDropped _) \<longleftrightarrow> False"

definition served :: "piece_env \<Rightarrow> bool" where
  "served env \<longleftrightarrow> reserved env \<and> allocated env \<and> list_all transfers (completed env)
    \<and> MAX_IO_REQUEST_BYTES \<le> length (completed env) * DIRECT_IO_ALIGNMENT_BYTES"

lemma await_request_returns:
  "list_all transfers cs \<Longrightarrow> 0 < remaining_len r \<Longrightarrow> remaining_len r \<le> length cs * DIRECT_IO_ALIGNMENT_BYTES
    \<Longrightarrow> \<exists>img'. await_request cs r img = Done img' (Inr ())"
proof (induction cs arbitrary: r img)
  case (Cons c cs)
  then obtain result kept where c: "c = Completion result kept"
    and res: "0 < result" "nat result mod DIRECT_IO_ALIGNMENT_BYTES = 0" by (cases c) auto
  define r1 where "r1 = r\<lparr>remaining_buffer_range := (fst (remaining_buffer_range r) + nat result, snd (remaining_buffer_range r))\<rparr>"
  have app: "apply_completion_result result r = (r1, Inr ())"
    using res by (simp add: apply_completion_result_def r1_def EINTR_def Let_def)
  have "DIRECT_IO_ALIGNMENT_BYTES \<le> nat result" using res by (intro dvd_imp_le) auto
  then have le: "remaining_len r1 \<le> length cs * DIRECT_IO_ALIGNMENT_BYTES" using Cons(4) by (simp add: r1_def)
  show ?case
  proof (cases "remaining_len r1 = 0")
    case True
    then show ?thesis by (simp add: c app Let_def)
  next
    case False
    then show ?thesis using Cons(1) [of r1] Cons(2) le by (simp add: c app Let_def)
  qed
qed simp

subsection \<open>The pieces cover the write\<close>

lemma piece_starts_aligned:
  "start \<in> set (piece_starts len) \<Longrightarrow> start < len \<and> start mod DIRECT_IO_ALIGNMENT_BYTES = 0"
proof -
  assume "start \<in> set (piece_starts len)"
  then obtain i where i: "i < div_ceil len MAX_IO_REQUEST_BYTES" "start = i * MAX_IO_REQUEST_BYTES"
    by (auto simp: piece_starts_def)
  then have "\<not> len \<le> i * MAX_IO_REQUEST_BYTES"
    using div_ceil_le_iff [of MAX_IO_REQUEST_BYTES len i] by (simp add: MAX_IO_REQUEST_BYTES_def)
  then show ?thesis using i(2) by (simp add: MAX_IO_REQUEST_BYTES_def DIRECT_IO_ALIGNMENT_BYTES_def)
qed

lemma write_piece_request:
  assumes al: "offset mod DIRECT_IO_ALIGNMENT_BYTES = 0" "len mod DIRECT_IO_ALIGNMENT_BYTES = 0"
    and st: "start < len" "start mod DIRECT_IO_ALIGNMENT_BYTES = 0"
    and rl: "rl = min (len - start) MAX_IO_REQUEST_BYTES"
  obtains b0 b1 r where "b0 @ b1 = slice start (start + rl) (padded_bytes len bytes)"
    and "buffers r = WriteBuffers b0 b1" and "remaining_buffer_range r = (0, rl)"
    and "file_end_offset r = offset + start + rl" and "0 < rl" and "start + rl \<le> len"
    and "write_piece env offset len bytes start img =
      (if \<not> reserved env then Done img (Inl (RequestFailed QueueStopped))
       else if b1 \<noteq> [] \<and> \<not> allocated env then Done img (Inl AllocationFailed)
       else await_request (completed env) r img)"
proof -
  define e where "e = min (start + rl) (length bytes)"
  have le: "0 < rl" "start + rl \<le> len" "rl \<le> MAX_IO_REQUEST_BYTES" using st rl by (auto simp: MAX_IO_REQUEST_BYTES_def)
  have rl0: "rl mod DIRECT_IO_ALIGNMENT_BYTES = 0"
    using al(2) st rl by (auto simp: min_def MAX_IO_REQUEST_BYTES_def DIRECT_IO_ALIGNMENT_BYTES_def mod_eq_0_iff_dvd intro: dvd_diff_nat)
  have "length (slice (min start e) e bytes) \<le> rl" by (auto simp: e_def min_def)
  then obtain b0 b1 where fw: "from_write_bytes (bytes_aligned env) rl (slice (min start e) e bytes) = Some (WriteBuffers b0 b1)"
    and b: "b0 @ b1 = slice (min start e) e bytes @ replicate (rl - length (slice (min start e) e bytes)) 0"
    using from_write_bytes_padded [OF _ rl0] by metis
  define r where "r = \<lparr>file_end_offset = offset + start + rl, buffers = WriteBuffers b0 b1, remaining_buffer_range = (0, rl), reply = start\<rparr>"
  have "(offset + start) mod DIRECT_IO_ALIGNMENT_BYTES = 0" using al(1) st(2) by (simp add: mod_eq_0_iff_dvd)
  then have "new_io_request (offset + start) (WriteBuffers b0 b1) (0, rl) start = Some r"
    using rl0 le by (simp add: new_io_request_def r_def)
  then have "write_piece env offset len bytes start img =
      (if \<not> reserved env then Done img (Inl (RequestFailed QueueStopped))
       else if b1 \<noteq> [] \<and> \<not> allocated env then Done img (Inl AllocationFailed)
       else await_request (completed env) r img)"
    using fw by (auto simp: write_piece_def Let_def simp flip: rl e_def)
  moreover have "b0 @ b1 = slice start (start + rl) (padded_bytes len bytes)"
    unfolding b using piece_bytes [OF le(2) e_def] .
  ultimately show ?thesis using that [of b0 b1 r] le by (simp add: r_def)
qed

lemma write_piece_progress:
  assumes "offset mod DIRECT_IO_ALIGNMENT_BYTES = 0" "len mod DIRECT_IO_ALIGNMENT_BYTES = 0"
    and "start < len" "start mod DIRECT_IO_ALIGNMENT_BYTES = 0"
    and p: "partly offset (padded_bytes len bytes) start img img1"
  shows "progress offset (padded_bytes len bytes) (min (start + MAX_IO_REQUEST_BYTES) len) img
      (write_piece env offset len bytes start img1)"
    and "served env \<Longrightarrow> \<exists>img'. write_piece env offset len bytes start img1 = Done img' (Inr ())"
proof -
  define rl where "rl = min (len - start) MAX_IO_REQUEST_BYTES"
  obtain b0 b1 r where q: "b0 @ b1 = slice start (start + rl) (padded_bytes len bytes)"
      "buffers r = WriteBuffers b0 b1" "remaining_buffer_range r = (0, rl)"
      "file_end_offset r = offset + start + rl" "0 < rl" "start + rl \<le> len"
    and w: "write_piece env offset len bytes start img1 =
      (if \<not> reserved env then Done img1 (Inl (RequestFailed QueueStopped))
       else if b1 \<noteq> [] \<and> \<not> allocated env then Done img1 (Inl AllocationFailed)
       else await_request (completed env) r img1)"
    using write_piece_request [OF assms(1-4) rl_def] by metis
  have "progress offset (padded_bytes len bytes) (start + rl) img (await_request (completed env) r img1)"
    using q p by (intro await_request_progress [of _ _ _ _ 0]) (auto simp: piece_request_def)
  moreover have "start + rl = min (start + MAX_IO_REQUEST_BYTES) len" using assms(3) unfolding rl_def by linarith
  ultimately show "progress offset (padded_bytes len bytes) (min (start + MAX_IO_REQUEST_BYTES) len) img
      (write_piece env offset len bytes start img1)"
    using partly_mono [OF p, of 0] unfolding w by (simp add: progress_def)
  show "\<exists>img'. write_piece env offset len bytes start img1 = Done img' (Inr ())" if "served env"
  proof -
    have "rl \<le> length (completed env) * DIRECT_IO_ALIGNMENT_BYTES" using that unfolding served_def rl_def by linarith
    then show ?thesis using await_request_returns [of "completed env" r img1] that q(3,5) unfolding w by (simp add: served_def)
  qed
qed

lemma write_pieces_progress:
  assumes al: "offset mod DIRECT_IO_ALIGNMENT_BYTES = 0" "len mod DIRECT_IO_ALIGNMENT_BYTES = 0"
    and "m \<le> n" and "n = div_ceil len MAX_IO_REQUEST_BYTES"
    and "partly offset (padded_bytes len bytes) (min (m * MAX_IO_REQUEST_BYTES) len) img img1"
  shows "progress offset (padded_bytes len bytes) len img
      (write_pieces env offset len bytes (map (\<lambda>i. i * MAX_IO_REQUEST_BYTES) [m..<n]) img1)
    \<and> ((\<forall>start \<in> set (piece_starts len). served (env start)) \<longrightarrow>
      (\<exists>img'. write_pieces env offset len bytes (map (\<lambda>i. i * MAX_IO_REQUEST_BYTES) [m..<n]) img1 = Done img' (Inr ())))"
  using assms(3,5)
proof (induction "n - m" arbitrary: m img1)
  case 0
  have "len \<le> n * MAX_IO_REQUEST_BYTES"
    using div_ceil_le_iff [of MAX_IO_REQUEST_BYTES len n] assms(4) by (simp add: MAX_IO_REQUEST_BYTES_def)
  then show ?case using 0 by (simp add: progress_def min_absorb2)
next
  case (Suc k)
  let ?start = "m * MAX_IO_REQUEST_BYTES" and ?P = "padded_bytes len bytes"
  have m: "m < n" using Suc(2) by simp
  then have mem: "?start \<in> set (piece_starts len)" by (auto simp: piece_starts_def assms(4))
  then have st: "?start < len" "?start mod DIRECT_IO_ALIGNMENT_BYTES = 0" using piece_starts_aligned by blast+
  have p: "partly offset ?P ?start img img1" using Suc(4) st(1) by (simp add: min_def)
  have split: "map (\<lambda>i. i * MAX_IO_REQUEST_BYTES) [m..<n] = ?start # map (\<lambda>i. i * MAX_IO_REQUEST_BYTES) [Suc m..<n]"
    using m by (simp add: upt_conv_Cons)
  let ?w = "write_piece (env ?start) offset len bytes ?start img1"
  have pr: "progress offset ?P (min (Suc m * MAX_IO_REQUEST_BYTES) len) img ?w"
    using write_piece_progress(1) [OF al st p] by (simp add: add.commute)
  have sv: "served (env ?start) \<Longrightarrow> \<exists>img'. ?w = Done img' (Inr ())"
    using write_piece_progress(2) [OF al st p] .
  show ?case
  proof (cases "\<exists>img2. ?w = Done img2 (Inr ())")
    case True
    then obtain img2 where w: "?w = Done img2 (Inr ())" by blast
    then have "partly offset ?P (min (Suc m * MAX_IO_REQUEST_BYTES) len) img img2" using pr by (simp add: progress_def)
    then show ?thesis using Suc(1) [of "Suc m" img2] Suc(2) m w unfolding split by simp
  next
    case False
    then have "write_pieces env offset len bytes (?start # map (\<lambda>i. i * MAX_IO_REQUEST_BYTES) [Suc m..<n]) img1 = ?w
        \<and> progress offset ?P len img ?w"
      using pr by (cases ?w) (auto simp: progress_def split: sum.splits)
    then show ?thesis using False sv mem unfolding split by auto
  qed
qed

text \<open>C12: A padded write that the io_uring queue splits into requests of at most 1 MiB, each written
  through any sequence of short completions and interruptions, implements the single write of the data
  file: it never panics; on success the file has the padded bytes in the whole range; on an error, or
  while a completion is missing, a part of them, with every other byte unchanged. When every piece gets
  its permit and its buffer and the kernel transfers aligned bytes, 256 completions per piece are enough
  for the write to succeed.\<close>

theorem queue_write_refines_data_file:
  assumes "offset mod DIRECT_IO_ALIGNMENT_BYTES = 0" and "len mod DIRECT_IO_ALIGNMENT_BYTES = 0"
    and "offset + len \<le> capacity f" and "capacity f < u64_limit"
  shows "(case queue_write_padded env offset len bytes (image f) of
      Panic \<Rightarrow> False
    | Pending img' \<Rightarrow> (\<exists>kept. img' = image (fst (write_padded (IoFailed t msg kept) offset len bytes f)))
    | Done img' (Inl _) \<Rightarrow> (\<exists>kept. img' = image (fst (write_padded (IoFailed t msg kept) offset len bytes f)))
    | Done img' (Inr _) \<Rightarrow> img' = image (fst (write_padded (IoOk t) offset len bytes f)))
    \<and> ((\<forall>start \<in> set (piece_starts len). served (env start)) \<longrightarrow>
      (\<exists>img'. queue_write_padded env offset len bytes (image f) = Done img' (Inr ())))"
proof -
  let ?P = "padded_bytes len bytes"
  have fits: "check_range_fits_file Write offset len (capacity f) = Inr ()"
    using assms(3,4) by (simp add: check_range_fits_file_def checked_add_def)
  have ok: "image (fst (write_padded (IoOk t) offset len bytes f)) = disk_write offset ?P (image f)"
    and failed: "image (fst (write_padded (IoFailed t msg kept) offset len bytes f)) = disk_write_part kept offset ?P (image f)" for kept
    using fits by (simp_all add: write_padded_def measure_io_def padded_bytes_def Let_def)
  have all: "img' = disk_write offset ?P (image f)" if "partly offset ?P len (image f) img'" for img'
    using partly_all [of offset ?P] that by simp
  have start: "partly offset ?P (min (0 * MAX_IO_REQUEST_BYTES) len) (image f) (image f)" by (simp add: partly_refl)
  have pr: "progress offset ?P len (image f) (queue_write_padded env offset len bytes (image f))"
    and sv: "(\<forall>start \<in> set (piece_starts len). served (env start)) \<longrightarrow>
      (\<exists>img'. queue_write_padded env offset len bytes (image f) = Done img' (Inr ()))"
    using write_pieces_progress [OF assms(1,2) le0 refl start, of env]
    unfolding queue_write_padded_def piece_starts_def by blast+
  show ?thesis unfolding ok failed
  proof (intro conjI sv)
    show "case queue_write_padded env offset len bytes (image f) of
        Panic \<Rightarrow> False
      | Pending img' \<Rightarrow> (\<exists>kept. img' = disk_write_part kept offset ?P (image f))
      | Done img' (Inl _) \<Rightarrow> (\<exists>kept. img' = disk_write_part kept offset ?P (image f))
      | Done img' (Inr _) \<Rightarrow> img' = disk_write offset ?P (image f)"
      using pr unfolding progress_def by (auto split: write_result.splits sum.splits intro: partly_part all)
  qed
qed

theorem queue_write_refines_data_file_witness:
  "(case queue_write_padded (\<lambda>_. \<lparr>reserved = True, bytes_aligned = False, allocated = True,
        completed = replicate 256 (Completion 4096 (\<lambda>_. True))\<rparr>) 4096 8192 [1, 2, 3] (image (zero_file 12288)) of
      Done img' (Inr _) \<Rightarrow> img' = image (fst (write_padded (IoOk 0) 4096 8192 [1, 2, 3] (zero_file 12288)))
    | _ \<Rightarrow> False)"
proof -
  let ?env = "\<lambda>_ :: nat. \<lparr>reserved = True, bytes_aligned = False, allocated = True,
        completed = replicate 256 (Completion 4096 (\<lambda>_. True))\<rparr>"
  have served: "served (?env start)" for start
    by (simp add: served_def list_all_iff MAX_IO_REQUEST_BYTES_def DIRECT_IO_ALIGNMENT_BYTES_def)
  have "(4096 :: nat) mod DIRECT_IO_ALIGNMENT_BYTES = 0" "(8192 :: nat) mod DIRECT_IO_ALIGNMENT_BYTES = 0"
    "(4096 :: nat) + 8192 \<le> capacity (zero_file 12288)" "capacity (zero_file 12288) < u64_limit"
    by (simp_all add: DIRECT_IO_ALIGNMENT_BYTES_def zero_file_def u64_limit_def)
  note main = queue_write_refines_data_file [OF this, where env = ?env and bytes = "[1, 2, 3]" and t = 0 and msg = "[]"]
  then obtain img' where "queue_write_padded ?env 4096 8192 [1, 2, 3] (image (zero_file 12288)) = Done img' (Inr ())"
    using served by blast
  then show ?thesis using main by simp
qed

end
