(* ===== verification/Access_Trace.thy ===== *)
theory Access_Trace
  imports Feuer_Prelude "HOL-Library.AList" "HOL-Library.Multiset" "HOL-Library.Product_Lexorder"
begin

text \<open>
  Access traces: the writer in \<open>feuer/src/access_trace.rs\<close> with the lookup outcomes it encodes
  (\<open>feuer/src/metrics.rs\<close>), and the reader in \<open>feuer-replay/src/lib.rs\<close> that decodes packages and
  selects the requests of a replay. Events are byte lists, times are nanoseconds, and the channel
  between lookups and the delivery task is the list of events sent. Reading a file, the tar archive
  and its decompression are left out: the reader starts from the packages with their archive names.
\<close>

subsection \<open>Writing\<close>

definition PACKAGE_HEADER :: "byte list" where
  "PACKAGE_HEADER = [0x46, 0x45, 0x54, 0x52, 1, 0, 0, 0]"

definition EVENT_BYTES :: nat where
  "EVENT_BYTES = 41"

definition PACKAGE_TARGET_BYTES :: nat where
  "PACKAGE_TARGET_BYTES = 8 * 1024 * 1024"

datatype lookup_outcome = MemoryHit | DiskHit | Callback | CallbackError | Miss

fun outcome_index :: "lookup_outcome \<Rightarrow> nat" where
  "outcome_index MemoryHit = 0"
| "outcome_index DiskHit = 1"
| "outcome_index Callback = 2"
| "outcome_index CallbackError = 3"
| "outcome_index Miss = 4"

record access_trace =
  sent_events :: "byte list list"
  next_request_id :: u64

definition new_access_trace :: access_trace where
  "new_access_trace = \<lparr>sent_events = [], next_request_id = 1\<rparr>"

definition start_event :: "u64 \<Rightarrow> u64 \<Rightarrow> object_key_hash \<Rightarrow> byte list" where
  "start_event request_id elapsed_ns k =
    copy_into 17 (u128_to_le_bytes k) (copy_into 9 (u64_to_le_bytes elapsed_ns)
      (copy_into 1 (u64_to_le_bytes request_id) (replicate EVENT_BYTES 0)))"

definition send_request_start :: "nat \<Rightarrow> object_key_hash \<Rightarrow> access_trace \<Rightarrow> access_trace \<times> u64" where
  "send_request_start elapsed_ns k t =
    (let request_id = next_request_id t
     in (t\<lparr>next_request_id := request_id + 1,
           sent_events := sent_events t @ [start_event request_id (of_nat elapsed_ns) k]\<rparr>, request_id))"

definition outcome_event :: "u64 \<Rightarrow> u64 \<Rightarrow> object_key_hash \<Rightarrow> lookup_outcome \<Rightarrow> u64 \<Rightarrow> byte list" where
  "outcome_event request_id elapsed_ns k outcome payload_length =
    copy_into 33 (u64_to_le_bytes payload_length) (copy_into 17 (u128_to_le_bytes k)
      (copy_into 9 (u64_to_le_bytes elapsed_ns) (copy_into 1 (u64_to_le_bytes request_id)
        ((replicate EVENT_BYTES 0)[0 := of_nat (outcome_index outcome + 1)]))))"

definition send_outcome :: "u64 \<Rightarrow> object_key_hash \<Rightarrow> lookup_outcome \<Rightarrow> nat \<Rightarrow> nat \<Rightarrow> access_trace \<Rightarrow> access_trace" where
  "send_outcome request_id k outcome elapsed_ns payload_length t =
    t\<lparr>sent_events := sent_events t @ [outcome_event request_id (of_nat elapsed_ns) k outcome (of_nat payload_length)]\<rparr>"

definition new_package :: "byte list" where
  "new_package = PACKAGE_HEADER"

text \<open>The delivery task: the packages handed to the callback, in order. A failed delivery ends it.\<close>

fun deliver_packages :: "nat \<Rightarrow> (byte list \<Rightarrow> bool) \<Rightarrow> byte list \<Rightarrow> byte list list \<Rightarrow> byte list list" where
  "deliver_packages target delivered package [] =
    (if length PACKAGE_HEADER < length package then [package] else [])"
| "deliver_packages target delivered package (event_bytes # rest) =
    (let package1 = package @ event_bytes in
     if target \<le> length package1
     then package1 # (if delivered package1 then deliver_packages target delivered new_package rest else [])
     else deliver_packages target delivered package1 rest)"

subsection \<open>Decoding\<close>

record event =
  kind :: byte
  request_id :: u64
  time_ns :: u64
  object_key :: object_key_hash
  payload_length :: "u64 option"

datatype trace_error = ExpectedHeader | ExpectedEvents | UnknownKind | UnexpectedPayloadLength | InvalidSeconds
  | NoRequestStarts | DuplicateStart | InconsistentLengths | DuplicateOutcome | OutcomeDisagrees | NoSuccessfulOutcome
  | NotRegularMember | MultipleSessions | NoPackages | UnsupportedInput

definition u64_at :: "byte list \<Rightarrow> nat \<Rightarrow> u64" where
  "u64_at event_bytes offset = u64_from_le_bytes (slice offset (offset + 8) event_bytes)"

definition success_kind :: "byte \<Rightarrow> bool" where
  "success_kind k \<longleftrightarrow> 1 \<le> k \<and> k \<le> 3"

definition decode_event :: "byte list \<Rightarrow> trace_error + event" where
  "decode_event event_bytes =
    (let k = event_bytes ! 0 in
     if 5 < k then Inl UnknownKind
     else if \<not> success_kind k \<and> u64_at event_bytes 33 \<noteq> 0 then Inl UnexpectedPayloadLength
     else Inr \<lparr>kind = k, request_id = u64_at event_bytes 1, time_ns = u64_at event_bytes 9,
       object_key = u128_from_le_bytes (slice 17 33 event_bytes),
       payload_length = (if success_kind k then Some (u64_at event_bytes 33) else None)\<rparr>)"

definition decode_package :: "byte list \<Rightarrow> trace_error + (trace_error + event) list" where
  "decode_package package =
    (if length package < 8 \<or> take 8 package \<noteq> PACKAGE_HEADER then Inl ExpectedHeader
     else if length package = 8 \<or> (length package - 8) mod 41 \<noteq> 0 then Inl ExpectedEvents
     else Inr (map decode_event (chunks_exact 41 (drop 8 package))))"

subsection \<open>Visiting events\<close>

fun try_for_each :: "(event \<Rightarrow> 's \<Rightarrow> trace_error + 's) \<Rightarrow> (trace_error + event) list \<Rightarrow> 's \<Rightarrow> trace_error + 's" where
  "try_for_each visit [] s = Inr s"
| "try_for_each visit (Inl e # rest) s = Inl e"
| "try_for_each visit (Inr ev # rest) s =
    (case visit ev s of Inl e \<Rightarrow> Inl e | Inr s1 \<Rightarrow> try_for_each visit rest s1)"

definition read_package :: "(event \<Rightarrow> 's \<Rightarrow> trace_error + 's) \<Rightarrow> byte list \<Rightarrow> 's \<Rightarrow> trace_error + 's" where
  "read_package visit package s =
    (case decode_package package of Inl e \<Rightarrow> Inl e | Inr events \<Rightarrow> try_for_each visit events s)"

text \<open>A member of an archive: its directory, whether it has the extension of packages, whether it is a
  regular file, and its bytes.\<close>

record archive_member =
  member_directory :: string
  is_package :: bool
  is_regular :: bool
  member_bytes :: "byte list"

datatype trace_input = SinglePackage "byte list" | TraceArchive "archive_member list" | OtherFile

fun visit_members :: "(event \<Rightarrow> 's \<Rightarrow> trace_error + 's) \<Rightarrow> archive_member list \<Rightarrow> string option \<Rightarrow> 's
    \<Rightarrow> trace_error + (string option \<times> 's)" where
  "visit_members visit [] session s = Inr (session, s)"
| "visit_members visit (entry # rest) session s =
    (if is_package entry
     then if \<not> is_regular entry then Inl NotRegularMember
       else if (case session of None \<Rightarrow> False | Some directory \<Rightarrow> directory \<noteq> member_directory entry)
       then Inl MultipleSessions
       else (case read_package visit (member_bytes entry) s of
           Inl e \<Rightarrow> Inl e
         | Inr s1 \<Rightarrow> visit_members visit rest (Some (member_directory entry)) s1)
     else visit_members visit rest session s)"

definition visit_events :: "trace_input \<Rightarrow> (event \<Rightarrow> 's \<Rightarrow> trace_error + 's) \<Rightarrow> 's \<Rightarrow> trace_error + 's" where
  "visit_events input visit s =
    (case input of
       SinglePackage package \<Rightarrow> read_package visit package s
     | TraceArchive members \<Rightarrow>
         (case visit_members visit members None s of
            Inl e \<Rightarrow> Inl e
          | Inr (None, _) \<Rightarrow> Inl NoPackages
          | Inr (Some _, s1) \<Rightarrow> Inr s1)
     | OtherFile \<Rightarrow> Inl UnsupportedInput)"

subsection \<open>Selecting requests\<close>

record request =
  replay_id :: u64
  replay_time_ns :: nat
  replay_key :: string
  replay_payload_len :: u64

record trace_requests =
  requests :: "request list"
  outcomes :: "nat list"
  unmatched_starts :: nat

text \<open>\<open>ToString\<close> of an unsigned integer.\<close>

fun decimal :: "nat \<Rightarrow> string" where
  "decimal n = (if n < 10 then [char_of (48 + n)] else decimal (n div 10) @ [char_of (48 + n mod 10)])"

declare decimal.simps [simp del]

definition prefix_ns :: "nat option \<Rightarrow> trace_error + nat option" where
  "prefix_ns seconds =
    (case seconds of
       None \<Rightarrow> Inr None
     | Some s \<Rightarrow> (case checked_mul s 1000000000 of
           None \<Rightarrow> Inl InvalidSeconds
         | Some ns \<Rightarrow> if 0 < ns then Inr (Some ns) else Inl InvalidSeconds))"

definition in_prefix :: "nat option \<Rightarrow> nat \<Rightarrow> event \<Rightarrow> bool" where
  "in_prefix prefix first_start_ns ev =
    (case prefix of None \<Rightarrow> True | Some p \<Rightarrow> unat (time_ns ev) - first_start_ns < p)"

text \<open>The first pass: the earliest start so far and the starts kept so far.\<close>

definition collect_start :: "nat option \<Rightarrow> event \<Rightarrow> nat \<times> event list \<Rightarrow> trace_error + (nat \<times> event list)" where
  "collect_start prefix ev s =
    (let (first_start_ns, kept) = s in
     if kind ev = 0
     then let first1 = min first_start_ns (unat (time_ns ev))
          in Inr (first1, if in_prefix prefix first1 ev then kept @ [ev] else kept)
     else Inr s)"

fun index_starts :: "event list \<Rightarrow> (u64 \<times> event \<times> bool) list \<Rightarrow> (object_key_hash \<times> u64 option) list
    \<Rightarrow> trace_error + ((u64 \<times> event \<times> bool) list \<times> (object_key_hash \<times> u64 option) list)" where
  "index_starts [] starts_by_id object_lengths = Inr (starts_by_id, object_lengths)"
| "index_starts (ev # rest) starts_by_id object_lengths =
    (if map_of starts_by_id (request_id ev) \<noteq> None then Inl DuplicateStart
     else index_starts rest (AList.update (request_id ev) (ev, False) starts_by_id)
       (AList.update (object_key ev) None object_lengths))"

record join_state =
  join_starts :: "(u64 \<times> event \<times> bool) list"
  join_lengths :: "(object_key_hash \<times> u64 option) list"
  join_outcomes :: "nat list"

definition observe_length :: "event \<Rightarrow> (object_key_hash \<times> u64 option) list \<Rightarrow> trace_error + (object_key_hash \<times> u64 option) list" where
  "observe_length ev lengths =
    (case (map_of lengths (object_key ev), payload_length ev) of
       (Some previous, Some observed) \<Rightarrow>
         if (case previous of None \<Rightarrow> False | Some p \<Rightarrow> p \<noteq> observed) then Inl InconsistentLengths
         else Inr (AList.update (object_key ev) (Some observed) lengths)
     | _ \<Rightarrow> Inr lengths)"

text \<open>The second pass joins outcomes with their starts.\<close>

definition join_outcome :: "event \<Rightarrow> join_state \<Rightarrow> trace_error + join_state" where
  "join_outcome ev s =
    (if kind ev = 0 then Inr s
     else case observe_length ev (join_lengths s) of
       Inl e \<Rightarrow> Inl e
     | Inr lengths \<Rightarrow>
         let s1 = s\<lparr>join_lengths := lengths\<rparr> in
         (case map_of (join_starts s) (request_id ev) of
            None \<Rightarrow> Inr s1
          | Some (start, has_outcome) \<Rightarrow>
              if has_outcome then Inl DuplicateOutcome
              else if object_key ev \<noteq> object_key start \<or> time_ns ev < time_ns start then Inl OutcomeDisagrees
              else Inr (s1\<lparr>join_starts := AList.update (request_id ev) (start, True) (join_starts s),
                join_outcomes := (join_outcomes s)[unat (kind ev) := join_outcomes s ! unat (kind ev) + 1]\<rparr>)))"

fun replay_requests :: "nat \<Rightarrow> (object_key_hash \<times> u64 option) list \<Rightarrow> event list \<Rightarrow> trace_error + request list" where
  "replay_requests first_start_ns lengths [] = Inr []"
| "replay_requests first_start_ns lengths (ev # rest) =
    (case map_of lengths (object_key ev) of
       Some (Some len) \<Rightarrow>
         (case replay_requests first_start_ns lengths rest of
            Inl e \<Rightarrow> Inl e
          | Inr rs \<Rightarrow> Inr (\<lparr>replay_id = request_id ev, replay_time_ns = unat (time_ns ev) - first_start_ns,
              replay_key = decimal (unat (object_key ev)), replay_payload_len = len\<rparr> # rs))
     | _ \<Rightarrow> Inl NoSuccessfulOutcome)"

definition load_requests :: "trace_input \<Rightarrow> nat option \<Rightarrow> trace_error + trace_requests" where
  "load_requests input seconds =
    (case prefix_ns seconds of
       Inl e \<Rightarrow> Inl e
     | Inr prefix \<Rightarrow>
    (case visit_events input (collect_start prefix) (u64_limit - 1, []) of
       Inl e \<Rightarrow> Inl e
     | Inr (first_start_ns, kept) \<Rightarrow>
         let starts = filter (in_prefix prefix first_start_ns) kept in
         if starts = [] then Inl NoRequestStarts
         else
    (case index_starts starts [] [] of
       Inl e \<Rightarrow> Inl e
     | Inr (starts_by_id, object_lengths) \<Rightarrow>
    (case visit_events input join_outcome \<lparr>join_starts = starts_by_id, join_lengths = object_lengths,
         join_outcomes = replicate 6 0\<rparr> of
       Inl e \<Rightarrow> Inl e
     | Inr s \<Rightarrow>
    (case replay_requests first_start_ns (join_lengths s) (map (fst \<circ> snd) (join_starts s)) of
       Inl e \<Rightarrow> Inl e
     | Inr rs \<Rightarrow>
         Inr \<lparr>requests = sort_key (\<lambda>r. (replay_time_ns r, replay_id r)) rs, outcomes = join_outcomes s,
           unmatched_starts = length (join_starts s) - sum_list (join_outcomes s)\<rparr>)))))"

subsection \<open>Round trip\<close>

text \<open>The fields of an event of 41 bytes written over a template, in the order the writer copies them.\<close>

definition with_fields :: "u64 \<Rightarrow> u64 \<Rightarrow> object_key_hash \<Rightarrow> byte list \<Rightarrow> byte list" where
  "with_fields i t k ev = copy_into 17 (u128_to_le_bytes k) (copy_into 9 (u64_to_le_bytes t) (copy_into 1 (u64_to_le_bytes i) ev))"

lemma with_fields_layout:
  assumes "length ev = 41"
  shows "length (with_fields i t k ev) = 41" and "with_fields i t k ev ! 0 = ev ! 0"
    and "slice 1 9 (with_fields i t k ev) = u64_to_le_bytes i"
    and "slice 9 17 (with_fields i t k ev) = u64_to_le_bytes t"
    and "slice 17 33 (with_fields i t k ev) = u128_to_le_bytes k"
    and "slice 33 41 (with_fields i t k ev) = slice 33 41 ev"
proof -
  let ?a = "copy_into 1 (u64_to_le_bytes i) ev"
  let ?b = "copy_into 9 (u64_to_le_bytes t) ?a"
  let ?c = "copy_into 17 (u128_to_le_bytes k) ?b"
  have a: "length ?a = 41" using assms by simp
  have b: "length ?b = 41" using a by simp
  have c: "length ?c = 41" using b by simp
  have w: "with_fields i t k ev = ?c" by (simp add: with_fields_def)
  show "length (with_fields i t k ev) = 41" using c w by simp
  show "with_fields i t k ev ! 0 = ev ! 0" using assms a b unfolding w by (simp add: nth_copy_into)
  show "slice 1 9 (with_fields i t k ev) = u64_to_le_bytes i"
    unfolding w using assms a b slice_copy_into_same [of 1 "u64_to_le_bytes i" ev]
    by (simp add: slice_copy_into_before)
  show "slice 9 17 (with_fields i t k ev) = u64_to_le_bytes t"
    unfolding w using a b slice_copy_into_same [of 9 "u64_to_le_bytes t" ?a] by (simp add: slice_copy_into_before)
  show "slice 17 33 (with_fields i t k ev) = u128_to_le_bytes k"
    unfolding w using b slice_copy_into_same [of 17 "u128_to_le_bytes k" ?b] by simp
  show "slice 33 41 (with_fields i t k ev) = slice 33 41 ev"
    unfolding w using assms a b by (simp add: slice_copy_into_after)
qed

lemma start_event_fields: "start_event i t k = with_fields i t k (replicate EVENT_BYTES 0)"
  by (simp add: start_event_def with_fields_def)

lemma u64_zero: "u64_from_le_bytes (replicate 8 0) = 0"
  by code_simp

lemma decode_start_event:
  "decode_event (start_event i t k) = Inr \<lparr>kind = 0, request_id = i, time_ns = t, object_key = k, payload_length = None\<rparr>"
proof -
  have "length (replicate EVENT_BYTES (0 :: byte)) = 41" by (simp add: EVENT_BYTES_def)
  note l = with_fields_layout [OF this, of i t k]
  have z: "slice 33 41 (replicate EVENT_BYTES (0 :: byte)) = replicate 8 0"
    by (simp add: EVENT_BYTES_def slice_replicate)
  have "u64_at (start_event i t k) 33 = 0" "u64_at (start_event i t k) 1 = i" "u64_at (start_event i t k) 9 = t"
    using l z u64_zero by (simp_all add: u64_at_def start_event_fields)
  moreover have "start_event i t k ! 0 = 0" using l(2) by (simp add: start_event_fields EVENT_BYTES_def)
  ultimately show ?thesis using l(5) by (simp add: decode_event_def success_kind_def start_event_fields)
qed

lemma outcome_event_fields:
  "outcome_event i t k oc n = copy_into 33 (u64_to_le_bytes n)
    (with_fields i t k ((replicate EVENT_BYTES 0)[0 := of_nat (outcome_index oc + 1)]))"
  by (simp add: outcome_event_def with_fields_def)

definition success_outcome :: "lookup_outcome \<Rightarrow> bool" where
  "success_outcome oc \<longleftrightarrow> outcome_index oc < 3"

lemma decode_outcome_event:
  assumes "success_outcome oc \<or> n = 0"
  shows "decode_event (outcome_event i t k oc n) = Inr \<lparr>kind = of_nat (outcome_index oc + 1), request_id = i, time_ns = t,
    object_key = k, payload_length = (if success_outcome oc then Some n else None)\<rparr>"
proof -
  let ?t = "(replicate EVENT_BYTES (0 :: byte))[0 := of_nat (outcome_index oc + 1)]"
  let ?w = "with_fields i t k ?t"
  have len: "length ?t = 41" by (simp add: EVENT_BYTES_def)
  note l = with_fields_layout [OF len, of i t k]
  have fits: "33 + length (u64_to_le_bytes n) \<le> length ?w" using l(1) by simp
  have e: "outcome_event i t k oc n = copy_into 33 (u64_to_le_bytes n) ?w" by (rule outcome_event_fields)
  have n: "u64_at (outcome_event i t k oc n) 33 = n"
    using slice_copy_into_same [OF fits] by (simp add: u64_at_def e)
  have it: "u64_at (outcome_event i t k oc n) 1 = i" "u64_at (outcome_event i t k oc n) 9 = t"
    using l fits by (simp_all add: u64_at_def e slice_copy_into_before)
  have k: "slice 17 33 (outcome_event i t k oc n) = u128_to_le_bytes k"
    using l fits by (simp add: e slice_copy_into_before)
  have z: "outcome_event i t k oc n ! 0 = of_nat (outcome_index oc + 1)"
  proof -
    have "0 < length ?w" using l(1) by simp
    then have "outcome_event i t k oc n ! 0 = ?w ! 0" using nth_copy_into [OF fits, of 0] by (simp add: e)
    then show ?thesis using l(2) by (simp add: EVENT_BYTES_def)
  qed
  have "success_kind (of_nat (outcome_index oc + 1)) = success_outcome oc"
    and "\<not> (5 :: byte) < of_nat (outcome_index oc + 1)"
    by (cases oc; simp add: success_kind_def success_outcome_def)+
  then show ?thesis using assms n it k z by (auto simp: decode_event_def)
qed

text \<open>The calls of a trace, what they send and what a reader should see.\<close>

datatype trace_call = TraceStart u64 u64 object_key_hash | TraceOutcome u64 u64 object_key_hash lookup_outcome u64

fun encode_call :: "trace_call \<Rightarrow> byte list" where
  "encode_call (TraceStart i t k) = start_event i t k"
| "encode_call (TraceOutcome i t k oc n) = outcome_event i t k oc n"

fun call_event :: "trace_call \<Rightarrow> event" where
  "call_event (TraceStart i t k) = \<lparr>kind = 0, request_id = i, time_ns = t, object_key = k, payload_length = None\<rparr>"
| "call_event (TraceOutcome i t k oc n) = \<lparr>kind = of_nat (outcome_index oc + 1), request_id = i, time_ns = t,
    object_key = k, payload_length = (if success_outcome oc then Some n else None)\<rparr>"

text \<open>Lookups without bytes report a length of zero.\<close>

fun call_ok :: "trace_call \<Rightarrow> bool" where
  "call_ok (TraceStart i t k) = True"
| "call_ok (TraceOutcome i t k oc n) = (success_outcome oc \<or> n = 0)"

lemma length_encode_call: "length (encode_call c) = 41"
proof (cases c)
  case (TraceStart i t k)
  then show ?thesis by (simp add: start_event_fields with_fields_layout EVENT_BYTES_def)
next
  case (TraceOutcome i t k oc n)
  have "length (with_fields i t k ((replicate EVENT_BYTES 0)[0 := of_nat (outcome_index oc + 1)])) = 41"
    by (rule with_fields_layout) (simp add: EVENT_BYTES_def)
  then show ?thesis using TraceOutcome by (simp add: outcome_event_fields)
qed

lemma decode_encode_call: "call_ok c \<Longrightarrow> decode_event (encode_call c) = Inr (call_event c)"
  by (cases c) (simp_all add: decode_start_event decode_outcome_event)

lemma length_encoded: "length (concat (map encode_call cs)) = 41 * length cs"
  by (induction cs) (simp_all add: length_encode_call)

lemma decode_encoded_package:
  assumes "cs \<noteq> []" and "list_all call_ok cs"
  shows "decode_package (PACKAGE_HEADER @ concat (map encode_call cs)) = Inr (map (Inr \<circ> call_event) cs)"
proof -
  let ?body = "concat (map encode_call cs)"
  have h: "length PACKAGE_HEADER = 8" by (simp add: PACKAGE_HEADER_def)
  have "chunks_exact 41 ?body = map encode_call cs"
    by (rule chunks_exact_concat) (auto simp: length_encode_call)
  moreover have "map decode_event (map encode_call cs) = map (Inr \<circ> call_event) cs"
    using assms(2) by (auto simp: list_all_iff decode_encode_call)
  ultimately show ?thesis using assms(1) h length_encoded [of cs] by (simp add: decode_package_def)
qed

lemma delivered_groups:
  assumes "8 < target"
  shows "\<exists>gs. deliver_packages target (\<lambda>_. True) (PACKAGE_HEADER @ concat (map encode_call pre)) (map encode_call cs)
      = map (\<lambda>g. PACKAGE_HEADER @ concat (map encode_call g)) gs \<and> concat gs = pre @ cs \<and> [] \<notin> set gs"
proof (induction cs arbitrary: pre)
  case Nil
  show ?case
  proof (cases pre)
    case Nil
    then show ?thesis by (intro exI [of _ "[]"]) simp
  next
    case (Cons c rest)
    then have "0 < length (concat (map encode_call pre))" using length_encoded [of pre] by simp
    then show ?thesis using Cons by (intro exI [of _ "[pre]"]) simp
  qed
next
  case (Cons c cs)
  let ?p = "PACKAGE_HEADER @ concat (map encode_call (pre @ [c]))"
  show ?case
  proof (cases "target \<le> length ?p")
    case True
    obtain gs where "deliver_packages target (\<lambda>_. True) (PACKAGE_HEADER @ concat (map encode_call [])) (map encode_call cs)
        = map (\<lambda>g. PACKAGE_HEADER @ concat (map encode_call g)) gs" "concat gs = cs" "[] \<notin> set gs"
      using Cons.IH [of "[]"] by auto
    then show ?thesis using True
      by (intro exI [of _ "(pre @ [c]) # gs"]) (simp add: Let_def new_package_def)
  next
    case False
    then have eq: "deliver_packages target (\<lambda>_. True) (PACKAGE_HEADER @ concat (map encode_call pre)) (map encode_call (c # cs))
        = deliver_packages target (\<lambda>_. True) ?p (map encode_call cs)" by (simp add: Let_def)
    have "(pre @ [c]) @ cs = pre @ c # cs" by simp
    then show ?thesis unfolding eq using Cons.IH [of "pre @ [c]"] by metis
  qed
qed

text \<open>C20: What the writer delivers, the reader decodes: the packages of any sequence of trace calls decode,
  in order, to exactly the events of those calls, and no package is empty.\<close>

theorem trace_round_trip:
  assumes "8 < target" and "list_all call_ok calls"
  shows "\<exists>groups. map decode_package (deliver_packages target (\<lambda>_. True) new_package (map encode_call calls))
      = map (\<lambda>g. Inr (map (Inr \<circ> call_event) g)) groups \<and> concat groups = calls \<and> [] \<notin> set groups"
proof -
  obtain gs where g: "deliver_packages target (\<lambda>_. True) (PACKAGE_HEADER @ concat (map encode_call [])) (map encode_call calls)
      = map (\<lambda>g. PACKAGE_HEADER @ concat (map encode_call g)) gs" "concat gs = [] @ calls" "[] \<notin> set gs"
    using delivered_groups [OF assms(1), of "[]" calls] by blast
  have "decode_package (PACKAGE_HEADER @ concat (map encode_call x)) = Inr (map (Inr \<circ> call_event) x)" if "x \<in> set gs" for x
  proof (rule decode_encoded_package)
    show "x \<noteq> []" using that g(3) by auto
    have "set x \<subseteq> set (concat gs)" using that by (simp add: UN_upper)
    then have "set x \<subseteq> set calls" by (simp only: g(2) append_Nil)
    then show "list_all call_ok x" using assms(2) unfolding list_all_iff by blast
  qed
  then have "map decode_package (deliver_packages target (\<lambda>_. True) new_package (map encode_call calls))
      = map (\<lambda>g. Inr (map (Inr \<circ> call_event) g)) gs"
    using g(1) by (simp add: new_package_def)
  moreover have "concat gs = calls" using g(2) by (simp only: append_Nil)
  ultimately show ?thesis using g(3) by blast
qed

definition example_calls :: "trace_call list" where
  "example_calls = [TraceStart 1 5 9, TraceOutcome 1 7 9 Callback 3, TraceStart 2 8 9]"

theorem trace_round_trip_witness:
  "\<exists>groups. map decode_package (deliver_packages 60 (\<lambda>_. True) new_package (map encode_call example_calls))
      = map (\<lambda>g. Inr (map (Inr \<circ> call_event) g)) groups \<and> concat groups = example_calls \<and> [] \<notin> set groups"
  by (rule trace_round_trip) (simp_all add: example_calls_def success_outcome_def)

subsection \<open>Visits see the events of the trace\<close>

definition all_events :: "trace_input \<Rightarrow> trace_error + event list" where
  "all_events input = visit_events input (\<lambda>ev acc. Inr (acc @ [ev])) []"

abbreviation collect :: "event \<Rightarrow> event list \<Rightarrow> trace_error + event list" where
  "collect ev acc \<equiv> Inr (acc @ [ev])"

lemma try_for_each_append:
  "try_for_each v (xs @ ys) s = (case try_for_each v xs s of Inl e \<Rightarrow> Inl e | Inr s1 \<Rightarrow> try_for_each v ys s1)"
  by (induction v xs s rule: try_for_each.induct) (simp_all split: sum.splits)

lemma try_for_each_collect:
  "try_for_each collect xs acc = Inr r \<Longrightarrow> \<exists>evs. xs = map Inr evs \<and> r = acc @ evs"
proof (induction xs arbitrary: acc)
  case (Cons x xs)
  then obtain ev where x: "x = Inr ev" by (cases x) auto
  then have "try_for_each collect xs (acc @ [ev]) = Inr r" using Cons.prems by simp
  then obtain evs where "xs = map Inr evs" "r = (acc @ [ev]) @ evs" using Cons.IH by blast
  then show ?case using x by (intro exI [of _ "ev # evs"]) simp
qed simp

lemma read_package_collect:
  assumes "read_package collect p acc = Inr r"
  shows "\<exists>evs. r = acc @ evs \<and> (\<forall>(v :: event \<Rightarrow> 's \<Rightarrow> trace_error + 's) s. read_package v p s = try_for_each v (map Inr evs) s)"
  using assms by (auto simp: read_package_def split: sum.splits dest!: try_for_each_collect)

lemma visit_members_collect:
  "visit_members collect ms session acc = Inr (session1, r) \<Longrightarrow>
    \<exists>evs. r = acc @ evs \<and> (\<forall>(v :: event \<Rightarrow> 's \<Rightarrow> trace_error + 's) s. visit_members v ms session s =
      (case try_for_each v (map Inr evs) s of Inl e \<Rightarrow> Inl e | Inr s1 \<Rightarrow> Inr (session1, s1)))"
proof (induction ms arbitrary: session acc)
  case Nil
  then show ?case by simp
next
  case (Cons m ms)
  show ?case
  proof (cases "is_package m")
    case False
    then show ?thesis using Cons.IH [of session acc] Cons.prems by simp
  next
    case True
    then have cond: "is_regular m" "\<not> (case session of None \<Rightarrow> False | Some directory \<Rightarrow> directory \<noteq> member_directory m)"
      using Cons.prems by (auto split: if_splits)
    obtain acc1 where a: "read_package collect (member_bytes m) acc = Inr acc1"
        "visit_members collect ms (Some (member_directory m)) acc1 = Inr (session1, r)"
      using Cons.prems True cond by (auto split: sum.splits)
    obtain evs1 where e1: "acc1 = acc @ evs1"
        "\<And>(v :: event \<Rightarrow> 's \<Rightarrow> trace_error + 's) s. read_package v (member_bytes m) s = try_for_each v (map Inr evs1) s"
      using read_package_collect [OF a(1)] by blast
    obtain evs2 where e2: "r = acc1 @ evs2"
        "\<And>(v :: event \<Rightarrow> 's \<Rightarrow> trace_error + 's) s. visit_members v ms (Some (member_directory m)) s =
          (case try_for_each v (map Inr evs2) s of Inl e \<Rightarrow> Inl e | Inr s1 \<Rightarrow> Inr (session1, s1))"
      using Cons.IH [OF a(2)] by blast
    have "visit_members v (m # ms) session s =
        (case try_for_each v (map Inr (evs1 @ evs2)) s of Inl e \<Rightarrow> Inl e | Inr s1 \<Rightarrow> Inr (session1, s1))"
      for v :: "event \<Rightarrow> 's \<Rightarrow> trace_error + 's" and s
      using True cond by (simp add: e1(2) e2(2) try_for_each_append split: sum.splits)
    then show ?thesis using e1(1) e2(1) by (intro exI [of _ "evs1 @ evs2"]) simp
  qed
qed

lemma visit_events_all:
  assumes "all_events input = Inr evs"
  shows "visit_events input v s = try_for_each v (map Inr evs) (s :: 's)"
proof (cases input)
  case (SinglePackage p)
  then have "read_package collect p [] = Inr evs" using assms by (simp add: all_events_def visit_events_def)
  from read_package_collect [OF this] show ?thesis using SinglePackage by (auto simp: visit_events_def)
next
  case (TraceArchive ms)
  then obtain d where "visit_members collect ms None [] = Inr (Some d, evs)"
    using assms by (auto simp: all_events_def visit_events_def split: sum.splits prod.splits option.splits)
  then have "visit_members v ms None s =
      (case try_for_each v (map Inr evs) s of Inl e \<Rightarrow> Inl e | Inr s1 \<Rightarrow> Inr (Some d, s1))"
    using visit_members_collect [of ms None "[]" "Some d" evs] by auto
  then show ?thesis using TraceArchive by (cases "try_for_each v (map Inr evs) s") (simp_all add: visit_events_def)
qed (use assms in \<open>simp add: all_events_def visit_events_def\<close>)

lemma visit_events_total:
  assumes "visit_events input v s = Inr s1"
  shows "\<exists>evs. all_events input = Inr evs"
proof -
  have each: "\<exists>evs. xs = map Inr evs" if "try_for_each v xs s = Inr s1" for xs s s1
    using that by (induction v xs s rule: try_for_each.induct) (auto simp: Cons_eq_map_conv split: sum.splits)
  have coll: "try_for_each collect (map Inr evs) acc = Inr (acc @ evs)" for evs acc
    by (induction evs arbitrary: acc) auto
  have pack: "\<exists>evs. \<forall>acc. read_package collect p acc = Inr (acc @ evs)" if "read_package v p s = Inr s1" for p s s1
    using that each coll by (force simp: read_package_def split: sum.splits)
  have mem: "\<exists>evs. \<forall>acc. visit_members collect ms d acc = Inr (d1, acc @ evs)" if "visit_members v ms d s = Inr (d1, s1)" for ms d s d1 s1
    using that
  proof (induction ms arbitrary: d s)
    case (Cons m ms)
    show ?case
    proof (cases "is_package m")
      case False
      then show ?thesis using Cons by simp
    next
      case True
      then have cond: "is_regular m" "\<not> (case d of None \<Rightarrow> False | Some directory \<Rightarrow> directory \<noteq> member_directory m)"
        using Cons.prems by (auto split: if_splits)
      obtain s2 where a: "read_package v (member_bytes m) s = Inr s2"
          "visit_members v ms (Some (member_directory m)) s2 = Inr (d1, s1)"
        using Cons.prems True cond by (auto split: sum.splits)
      obtain e1 where e1: "\<And>acc. read_package collect (member_bytes m) acc = Inr (acc @ e1)" using pack [OF a(1)] by blast
      obtain e2 where e2: "\<And>acc. visit_members collect ms (Some (member_directory m)) acc = Inr (d1, acc @ e2)"
        using Cons.IH [OF a(2)] by blast
      have "visit_members collect (m # ms) d acc = Inr (d1, acc @ e1 @ e2)" for acc using True cond e1 e2 by simp
      then show ?thesis by blast
    qed
  qed simp
  show ?thesis
  proof (cases input)
    case (SinglePackage p)
    then show ?thesis using assms pack [of p s s1] by (auto simp: all_events_def visit_events_def)
  next
    case (TraceArchive ms)
    then obtain d where "visit_members v ms None s = Inr (Some d, s1)"
      using assms by (auto simp: visit_events_def split: sum.splits prod.splits option.splits)
    from mem [OF this] show ?thesis using TraceArchive by (auto simp: all_events_def visit_events_def)
  qed (use assms in \<open>simp add: all_events_def visit_events_def\<close>)
qed

lemma decoded_kind: "decode_event b = Inr ev \<Longrightarrow> kind ev \<le> 5"
  by (auto simp: decode_event_def Let_def not_less split: if_splits)

lemma all_events_kinds:
  assumes "all_events input = Inr evs"
  shows "\<forall>ev \<in> set evs. kind ev \<le> 5"
proof -
  have pack: "\<forall>ev \<in> set r. kind ev \<le> 5" if r: "read_package collect p acc = Inr r" "\<forall>ev \<in> set acc. kind ev \<le> 5" for p acc r
  proof -
    obtain xs where xs: "decode_package p = Inr xs" "try_for_each collect xs acc = Inr r"
      using r(1) by (auto simp: read_package_def split: sum.splits)
    obtain evs where e: "xs = map Inr evs" "r = acc @ evs" using try_for_each_collect [OF xs(2)] by blast
    have "kind ev \<le> 5" if ev: "ev \<in> set evs" for ev
    proof -
      have "Inr ev \<in> set xs" using e(1) ev by simp
      then have "Inr ev \<in> range decode_event" using xs(1) by (auto simp: decode_package_def split: if_splits)
      then show ?thesis using decoded_kind by (metis imageE)
    qed
    then show ?thesis using e(2) r(2) by auto
  qed
  have mem: "\<forall>ev \<in> set r. kind ev \<le> 5"
    if "visit_members collect ms d acc = Inr (d1, r)" "\<forall>ev \<in> set acc. kind ev \<le> 5" for ms d acc d1 r
    using that
  proof (induction ms arbitrary: d acc)
    case (Cons m ms)
    show ?case
    proof (cases "is_package m")
      case False
      then show ?thesis using Cons by simp
    next
      case True
      then obtain acc1 where "read_package collect (member_bytes m) acc = Inr acc1"
          "visit_members collect ms (Some (member_directory m)) acc1 = Inr (d1, r)"
        using Cons.prems(1) by (auto split: if_splits sum.splits)
      then show ?thesis using Cons.IH pack Cons.prems(2) by blast
    qed
  qed simp
  show ?thesis
  proof (cases input)
    case (SinglePackage p)
    then show ?thesis using assms pack [of p "[]" evs] by (simp add: all_events_def visit_events_def)
  next
    case (TraceArchive ms)
    then obtain d where "visit_members collect ms None [] = Inr (Some d, evs)"
      using assms by (auto simp: all_events_def visit_events_def split: sum.splits prod.splits option.splits)
    from mem [OF this] show ?thesis by simp
  qed (use assms in \<open>simp add: all_events_def visit_events_def\<close>)
qed

subsection \<open>The selected starts\<close>

lemma in_prefix_mono: "in_prefix p f ev \<Longrightarrow> f \<le> g \<Longrightarrow> in_prefix p g ev"
  by (auto simp: in_prefix_def split: option.splits)

lemma collect_starts:
  "\<exists>first kept. try_for_each (collect_start p) (map Inr evs) (f0, kept0) = Inr (first, kept)
    \<and> first \<le> f0 \<and> (\<forall>ev \<in> set evs. kind ev = 0 \<longrightarrow> first \<le> unat (time_ns ev))
    \<and> (first = f0 \<or> (\<exists>ev \<in> set evs. kind ev = 0 \<and> first = unat (time_ns ev)))
    \<and> (\<forall>f \<le> first. filter (in_prefix p f) kept
        = filter (in_prefix p f) kept0 @ filter (\<lambda>ev. kind ev = 0 \<and> in_prefix p f ev) evs)"
proof (induction evs arbitrary: f0 kept0)
  case (Cons ev evs)
  show ?case
  proof (cases "kind ev = 0")
    case False
    then show ?thesis using Cons.IH [of f0 kept0] by (auto simp: collect_start_def)
  next
    case True
    let ?f1 = "min f0 (unat (time_ns ev))"
    let ?k1 = "if in_prefix p ?f1 ev then kept0 @ [ev] else kept0"
    have c: "collect_start p ev (f0, kept0) = Inr (?f1, ?k1)" using True by (simp add: collect_start_def Let_def)
    obtain first kept where r: "try_for_each (collect_start p) (map Inr evs) (?f1, ?k1) = Inr (first, kept)"
        "first \<le> ?f1" "\<forall>ev \<in> set evs. kind ev = 0 \<longrightarrow> first \<le> unat (time_ns ev)"
        "first = ?f1 \<or> (\<exists>ev \<in> set evs. kind ev = 0 \<and> first = unat (time_ns ev))"
        "\<forall>f \<le> first. filter (in_prefix p f) kept
          = filter (in_prefix p f) ?k1 @ filter (\<lambda>ev. kind ev = 0 \<and> in_prefix p f ev) evs"
      using Cons.IH [of ?f1 ?k1] by blast
    have k1: "filter (in_prefix p f) ?k1 = filter (in_prefix p f) kept0 @ (if in_prefix p f ev then [ev] else [])"
      if "f \<le> first" for f using in_prefix_mono [of p f ev ?f1] that r(2) by auto
    have "filter (in_prefix p f) kept
        = filter (in_prefix p f) kept0 @ filter (\<lambda>ev. kind ev = 0 \<and> in_prefix p f ev) (ev # evs)" if "f \<le> first" for f
      using r(5) k1 [OF that] that True by simp
    moreover have "first = f0 \<or> (\<exists>e \<in> set (ev # evs). kind e = 0 \<and> first = unat (time_ns e))"
      using r(4) True by (auto simp: min_def split: if_splits)
    moreover have "\<forall>e \<in> set (ev # evs). kind e = 0 \<longrightarrow> first \<le> unat (time_ns e)" "first \<le> f0" using r(2,3) by auto
    ultimately show ?thesis using r(1) c by auto
  qed
qed simp

lemma starts_selected:
  assumes "all_events input = Inr evs"
  shows "\<exists>first kept. visit_events input (collect_start p) (u64_limit - 1, []) = Inr (first, kept)
    \<and> filter (in_prefix p first) kept = filter (\<lambda>ev. kind ev = 0 \<and> in_prefix p first ev) evs
    \<and> (\<forall>ev \<in> set evs. kind ev = 0 \<longrightarrow> first \<le> unat (time_ns ev))
    \<and> (first = u64_limit - 1 \<or> (\<exists>ev \<in> set evs. kind ev = 0 \<and> first = unat (time_ns ev)))"
proof -
  obtain first kept where c: "try_for_each (collect_start p) (map Inr evs) (u64_limit - 1, []) = Inr (first, kept)"
      "\<forall>ev \<in> set evs. kind ev = 0 \<longrightarrow> first \<le> unat (time_ns ev)"
      "first = u64_limit - 1 \<or> (\<exists>ev \<in> set evs. kind ev = 0 \<and> first = unat (time_ns ev))"
      "\<forall>f \<le> first. filter (in_prefix p f) kept = filter (in_prefix p f) [] @ filter (\<lambda>ev. kind ev = 0 \<and> in_prefix p f ev) evs"
    using collect_starts [of p evs "u64_limit - 1" "[]"] by blast
  then show ?thesis unfolding visit_events_all [OF assms] by auto
qed

text \<open>C27: Selecting while scanning is equivalent to selecting at the end: although the first pass keeps
  starts against the earliest start seen so far and drops the rest later, it yields exactly the starts
  within the prefix after the earliest start of the whole trace.\<close>

theorem trace_prefix_selection_equivalent:
  assumes "all_events input = Inr evs"
  shows "\<exists>first kept. visit_events input (collect_start p) (u64_limit - 1, []) = Inr (first, kept)
    \<and> filter (in_prefix p first) kept = filter (\<lambda>ev. kind ev = 0 \<and> in_prefix p first ev) evs
    \<and> (filter (\<lambda>ev. kind ev = 0) evs \<noteq> [] \<longrightarrow> first = Min (set (map (unat \<circ> time_ns) (filter (\<lambda>ev. kind ev = 0) evs))))"
proof -
  let ?ts = "set (map (unat \<circ> time_ns) (filter (\<lambda>ev. kind ev = 0) evs))"
  obtain first kept where s: "visit_events input (collect_start p) (u64_limit - 1, []) = Inr (first, kept)"
      "filter (in_prefix p first) kept = filter (\<lambda>ev. kind ev = 0 \<and> in_prefix p first ev) evs"
      "\<forall>ev \<in> set evs. kind ev = 0 \<longrightarrow> first \<le> unat (time_ns ev)"
      "first = u64_limit - 1 \<or> (\<exists>ev \<in> set evs. kind ev = 0 \<and> first = unat (time_ns ev))"
    using starts_selected [OF assms, of p] by blast
  have "first = Min ?ts" if some: "filter (\<lambda>ev. kind ev = 0) evs \<noteq> []"
  proof (rule Min_eqI [symmetric])
    obtain ev where ev: "ev \<in> set evs" "kind ev = 0" using some by (auto simp: filter_empty_conv)
    have "unat (time_ns ev) \<le> u64_limit - 1" using unat_bound [of "time_ns ev"] by (simp add: u64_limit_def)
    then have "first = u64_limit - 1 \<Longrightarrow> unat (time_ns ev) = first" using s(3) ev by auto
    then show "first \<in> ?ts" using s(4) ev by force
  qed (use s(3) in auto)
  then show ?thesis using s(1,2) by blast
qed

definition example_trace :: trace_input where
  "example_trace = SinglePackage (PACKAGE_HEADER @ concat (map encode_call example_calls))"

lemma example_trace_events: "all_events example_trace = Inr (map call_event example_calls)"
proof -
  have "decode_package (PACKAGE_HEADER @ concat (map encode_call example_calls)) = Inr (map (Inr \<circ> call_event) example_calls)"
    by (rule decode_encoded_package) (simp_all add: example_calls_def success_outcome_def)
  then show ?thesis
    by (simp add: example_trace_def all_events_def visit_events_def read_package_def example_calls_def)
qed

theorem trace_prefix_selection_equivalent_witness:
  "\<exists>first kept. visit_events example_trace (collect_start (Some 2)) (u64_limit - 1, []) = Inr (first, kept)
    \<and> filter (in_prefix (Some 2) first) kept = filter (\<lambda>ev. kind ev = 0 \<and> in_prefix (Some 2) first ev) (map call_event example_calls)"
  using trace_prefix_selection_equivalent [OF example_trace_events, of "Some 2"] by blast

subsection \<open>The joined requests\<close>

lemma update_fresh: "k \<notin> fst ` set al \<Longrightarrow> AList.update k v al = al @ [(k, v)]"
  by (induction al) auto

lemma index_starts_ok:
  assumes "index_starts evs sb ol = Inr (sb1, ol1)" and "distinct (map fst sb)"
  shows "sb1 = sb @ map (\<lambda>ev. (request_id ev, ev, False)) evs \<and> distinct (map fst sb1)
    \<and> (\<forall>k l. map_of ol1 k = Some (Some l) \<longrightarrow> map_of ol k = Some (Some l))"
  using assms
proof (induction evs arbitrary: sb ol)
  case (Cons ev evs)
  have f: "request_id ev \<notin> fst ` set sb"
    using Cons.prems(1) by (auto simp: map_of_eq_None_iff split: if_splits)
  then have u: "AList.update (request_id ev) (ev, False) sb = sb @ [(request_id ev, ev, False)]" by (rule update_fresh)
  have "distinct (map fst (sb @ [(request_id ev, ev, False)]))" using f Cons.prems(2) by simp
  moreover have "index_starts evs (sb @ [(request_id ev, ev, False)]) (AList.update (object_key ev) None ol) = Inr (sb1, ol1)"
    using Cons.prems(1) u by (simp split: if_splits)
  ultimately have "sb1 = (sb @ [(request_id ev, ev, False)]) @ map (\<lambda>ev. (request_id ev, ev, False)) evs" "distinct (map fst sb1)"
      "\<forall>k l. map_of ol1 k = Some (Some l) \<longrightarrow> map_of (AList.update (object_key ev) None ol) k = Some (Some l)"
    using Cons.IH by blast+
  then show ?case by (auto simp: update_conv split: if_splits)
qed simp

text \<open>Marking a start as joined changes neither the identities nor the starts, and one more is joined.\<close>

lemma mark_joined:
  assumes "distinct (map fst al)" and "map_of al k = Some (x, False)"
  shows "map fst (AList.update k (x, True) al) = map fst al
    \<and> map (fst \<circ> snd) (AList.update k (x, True) al) = map (fst \<circ> snd) al
    \<and> length (filter (snd \<circ> snd) (AList.update k (x, True) al)) = Suc (length (filter (snd \<circ> snd) al))"
  using assms by (induction al) (auto split: if_splits)

definition joined_ok :: "event list \<Rightarrow> event list \<Rightarrow> join_state \<Rightarrow> bool" where
  "joined_ok starts seen s \<longleftrightarrow>
    map fst (join_starts s) = map request_id starts \<and> map (fst \<circ> snd) (join_starts s) = starts
    \<and> distinct (map request_id starts) \<and> length (join_outcomes s) = 6
    \<and> sum_list (join_outcomes s) = length (filter (snd \<circ> snd) (join_starts s))
    \<and> (\<forall>k l. map_of (join_lengths s) k = Some (Some l) \<longrightarrow> (\<exists>ev \<in> set seen. object_key ev = k \<and> payload_length ev = Some l))"

lemma observe_length_seen:
  assumes "observe_length ev lengths = Inr lengths1"
    and "\<forall>k l. map_of lengths k = Some (Some l) \<longrightarrow> (\<exists>e \<in> set seen. object_key e = k \<and> payload_length e = Some l)"
  shows "\<forall>k l. map_of lengths1 k = Some (Some l) \<longrightarrow> (\<exists>e \<in> set (seen @ [ev]). object_key e = k \<and> payload_length e = Some l)"
  using assms by (fastforce simp: observe_length_def update_conv split: option.splits if_splits)

lemma join_outcome_ok:
  assumes ok: "joined_ok starts seen s" and step: "join_outcome ev s = Inr s1" and kind: "kind ev \<le> 5"
  shows "joined_ok starts (seen @ [ev]) s1"
proof (cases "kind ev = 0")
  case True
  then have "s1 = s" using step by (simp add: join_outcome_def)
  then show ?thesis using ok by (fastforce simp: joined_ok_def)
next
  case False
  then obtain lengths where l: "observe_length ev (join_lengths s) = Inr lengths"
    using step by (auto simp: join_outcome_def split: sum.splits)
  have seen: "\<forall>k l. map_of lengths k = Some (Some l) \<longrightarrow> (\<exists>e \<in> set (seen @ [ev]). object_key e = k \<and> payload_length e = Some l)"
    using observe_length_seen [OF l] ok by (simp add: joined_ok_def)
  show ?thesis
  proof (cases "map_of (join_starts s) (request_id ev)")
    case None
    then have "s1 = s\<lparr>join_lengths := lengths\<rparr>" using step False l by (simp add: join_outcome_def Let_def)
    then show ?thesis using ok seen unfolding joined_ok_def by simp
  next
    case (Some p)
    obtain st b where p: "p = (st, b)" by fastforce
    let ?k = "unat (kind ev)"
    have "\<not> b" and s1: "s1 = s\<lparr>join_lengths := lengths, join_starts := AList.update (request_id ev) (st, True) (join_starts s),
        join_outcomes := (join_outcomes s)[?k := join_outcomes s ! ?k + 1]\<rparr>"
      using step False l Some p by (auto simp: join_outcome_def Let_def split: if_splits)
    then have "map_of (join_starts s) (request_id ev) = Some (st, False)" using Some p by simp
    moreover have "distinct (map fst (join_starts s))" using ok by (simp add: joined_ok_def)
    ultimately have m: "map fst (join_starts s1) = map fst (join_starts s)"
        "map (fst \<circ> snd) (join_starts s1) = map (fst \<circ> snd) (join_starts s)"
        "length (filter (snd \<circ> snd) (join_starts s1)) = Suc (length (filter (snd \<circ> snd) (join_starts s)))"
      using mark_joined [of "join_starts s" "request_id ev" st] s1 by simp_all
    have "?k < 6" using kind by (simp add: word_le_nat_alt)
    moreover have len: "length (join_outcomes s) = 6" using ok by (simp add: joined_ok_def)
    ultimately have "sum_list (join_outcomes s1) = Suc (sum_list (join_outcomes s))"
      using s1 elem_le_sum_list [of ?k "join_outcomes s"] by (simp add: sum_list_update)
    then show ?thesis using ok m seen len s1 by (simp add: joined_ok_def)
  qed
qed

lemma join_outcomes_ok:
  assumes "joined_ok starts seen s" and "try_for_each join_outcome (map Inr evs) s = Inr s1" and "\<forall>ev \<in> set evs. kind ev \<le> 5"
  shows "joined_ok starts (seen @ evs) s1"
  using assms
proof (induction evs arbitrary: seen s)
  case (Cons ev evs)
  obtain s2 where s2: "join_outcome ev s = Inr s2" "try_for_each join_outcome (map Inr evs) s2 = Inr s1"
    using Cons.prems(2) by (auto split: sum.splits)
  have "joined_ok starts (seen @ [ev]) s2" using join_outcome_ok [OF Cons.prems(1) s2(1)] Cons.prems(3) by simp
  from Cons.IH [OF this s2(2)] show ?case using Cons.prems(3) by simp
qed simp

lemma replay_requests_ok:
  assumes "replay_requests first lengths evs = Inr rs"
  shows "map replay_id rs = map request_id evs \<and> map replay_time_ns rs = map (\<lambda>ev. unat (time_ns ev) - first) evs
    \<and> (\<forall>r \<in> set rs. \<exists>ev \<in> set evs. replay_id r = request_id ev \<and> replay_key r = decimal (unat (object_key ev))
        \<and> map_of lengths (object_key ev) = Some (Some (replay_payload_len r)))"
  using assms by (induction evs arbitrary: rs) (fastforce split: option.splits sum.splits)+

lemma joined_unmatched:
  assumes "joined_ok starts seen s"
  shows "sum_list (join_outcomes s) \<le> length (join_starts s)" and "length (join_starts s) = length starts"
proof -
  show "sum_list (join_outcomes s) \<le> length (join_starts s)" using assms by (simp add: joined_ok_def)
  have "map (fst \<circ> snd) (join_starts s) = starts" using assms by (simp add: joined_ok_def)
  then show "length (join_starts s) = length starts" by (metis length_map)
qed

lemma load_requests_cases:
  assumes "load_requests input seconds = Inr t"
  obtains p first kept sb ol s rs where "prefix_ns seconds = Inr p"
    "visit_events input (collect_start p) (u64_limit - 1, []) = Inr (first, kept)"
    "index_starts (filter (in_prefix p first) kept) [] [] = Inr (sb, ol)"
    "visit_events input join_outcome \<lparr>join_starts = sb, join_lengths = ol, join_outcomes = replicate 6 0\<rparr> = Inr s"
    "replay_requests first (join_lengths s) (map (fst \<circ> snd) (join_starts s)) = Inr rs"
    "t = \<lparr>requests = sort_key (\<lambda>r. (replay_time_ns r, replay_id r)) rs, outcomes = join_outcomes s,
      unmatched_starts = length (join_starts s) - sum_list (join_outcomes s)\<rparr>"
  using assms unfolding load_requests_def Let_def by (auto split: sum.splits prod.splits if_splits)


lemma example_outcomes: "(replicate 6 0)[3 := Suc 0] = [0, 0, 0, 1, 0, 0]"
  by (simp add: numeral_eq_Suc)

lemma example_decimal: "decimal 9 = ''9''"
  by code_simp

lemma example_load:
  "load_requests example_trace (Some 2) = Inr \<lparr>requests =
      [\<lparr>replay_id = 1, replay_time_ns = 0, replay_key = ''9'', replay_payload_len = 3\<rparr>,
       \<lparr>replay_id = 2, replay_time_ns = 3, replay_key = ''9'', replay_payload_len = 3\<rparr>],
    outcomes = [0, 0, 0, 1, 0, 0], unmatched_starts = 1\<rparr>"
  by (simp add: load_requests_def visit_events_all [OF example_trace_events] prefix_ns_def checked_mul_def u64_limit_def
    example_calls_def collect_start_def in_prefix_def join_outcome_def observe_length_def success_outcome_def
    example_decimal example_outcomes)


end
