(* ===== verification/Pending_Fetches.thy ===== *)
theory Pending_Fetches
  imports Feuer_Prelude
begin

text \<open>
  Shared fetches: \<open>feuer/src/cache/pending_fetches.rs\<close> and the waiters of
  \<open>get_or_fetch_by_hash\<close> in \<open>feuer/src/cache.rs\<close>. A fetch has an identity, its address. \<open>live_fetches\<close> holds the
  fetches that some caller still owns, so \<open>Weak::upgrade\<close> succeeds exactly for these, and the registry
  maps a key with the identity of the error type to the fetch last registered for it. The closure of
  type \<open>'c\<close> is what the first caller stored in the once-cell, the result has type \<open>'r\<close>.
\<close>

type_synonym fetch_key = "object_key_hash \<times> nat"

record ('c, 'r) pending_fetch =
  fetch_key_of :: fetch_key
  fetch_owners :: nat
  fetch_closure :: "'c option"
  fetch_result :: "'r option"

record ('c, 'r) pending_fetches =
  fetch_registry :: "fetch_key \<rightharpoonup> nat"
  live_fetches :: "nat \<rightharpoonup> ('c, 'r) pending_fetch"
  dropping_fetches :: "nat \<rightharpoonup> fetch_key"

definition no_pending_fetches :: "('c, 'r) pending_fetches" where
  "no_pending_fetches = \<lparr>fetch_registry = Map.empty, live_fetches = Map.empty, dropping_fetches = Map.empty\<rparr>"

definition new_fetch :: "fetch_key \<Rightarrow> ('c, 'r) pending_fetch" where
  "new_fetch key = \<lparr>fetch_key_of = key, fetch_owners = 1, fetch_closure = None, fetch_result = None\<rparr>"

text \<open>\<open>join\<close>: \<open>fresh\<close> is the address a new fetch gets. \<open>None\<close> is the failed downcast.\<close>

definition join_fetch :: "nat \<Rightarrow> fetch_key \<Rightarrow> ('c, 'r) pending_fetches \<Rightarrow> (('c, 'r) pending_fetches \<times> nat) option" where
  "join_fetch fresh key s =
    (case Option.bind (fetch_registry s key) (\<lambda>i. map_option (Pair i) (live_fetches s i)) of
       Some (i, f) \<Rightarrow>
         if snd (fetch_key_of f) \<noteq> snd key then None
         else Some (s\<lparr>live_fetches := (live_fetches s)(i \<mapsto> f\<lparr>fetch_owners := fetch_owners f + 1\<rparr>)\<rparr>, i)
     | None \<Rightarrow>
         Some (s\<lparr>fetch_registry := (fetch_registry s)(key \<mapsto> fresh),
           live_fetches := (live_fetches s)(fresh \<mapsto> new_fetch key)\<rparr>, fresh))"

definition remove_from_registry :: "nat \<Rightarrow> fetch_key \<Rightarrow> ('c, 'r) pending_fetches \<Rightarrow> ('c, 'r) pending_fetches" where
  "remove_from_registry i key s =
    (if fetch_registry s key = Some i then s\<lparr>fetch_registry := (fetch_registry s)(key := None)\<rparr> else s)"

text \<open>\<open>get_or_init\<close> stores the closure of the first caller that reaches it.\<close>

definition init_fetch :: "'c \<Rightarrow> ('c, 'r) pending_fetch \<Rightarrow> ('c, 'r) pending_fetch" where
  "init_fetch c f = (case fetch_closure f of None \<Rightarrow> f\<lparr>fetch_closure := Some c\<rparr> | Some _ \<Rightarrow> f)"

text \<open>An owner releases its reference. After the last one \<open>Weak::upgrade\<close> fails, and the destructor still has
  to take the registry's lock.\<close>

definition release_fetch :: "nat \<Rightarrow> ('c, 'r) pending_fetches \<Rightarrow> ('c, 'r) pending_fetches" where
  "release_fetch i s =
    (case live_fetches s i of
       None \<Rightarrow> s
     | Some f \<Rightarrow>
         if fetch_owners f \<le> 1
         then s\<lparr>live_fetches := (live_fetches s)(i := None), dropping_fetches := (dropping_fetches s)(i \<mapsto> fetch_key_of f)\<rparr>
         else s\<lparr>live_fetches := (live_fetches s)(i \<mapsto> f\<lparr>fetch_owners := fetch_owners f - 1\<rparr>)\<rparr>)"

definition drop_fetch :: "nat \<Rightarrow> ('c, 'r) pending_fetches \<Rightarrow> ('c, 'r) pending_fetches" where
  "drop_fetch i s =
    (case dropping_fetches s i of
       None \<Rightarrow> s
     | Some key \<Rightarrow> (remove_from_registry i key s)\<lparr>dropping_fetches := (dropping_fetches s)(i := None)\<rparr>)"

text \<open>The shared future is polled to its end by one of its waiters, with the stored closure. A result that is
  there is not computed again.\<close>

definition complete_fetch :: "('c \<Rightarrow> 'r) \<Rightarrow> nat \<Rightarrow> ('c, 'r) pending_fetches \<Rightarrow> ('c, 'r) pending_fetches" where
  "complete_fetch run i s =
    (case live_fetches s i of
       None \<Rightarrow> s
     | Some f \<Rightarrow>
         (case (fetch_closure f, fetch_result f) of
            (Some c, None) \<Rightarrow> s\<lparr>live_fetches := (live_fetches s)(i \<mapsto> f\<lparr>fetch_result := Some (run c)\<rparr>)\<rparr>
          | _ \<Rightarrow> s))"

subsection \<open>Runs\<close>

text \<open>The events of a run: which closure ran for which fetch, and which result a caller got. \<open>used\<close> holds
  the identities given out so far; an address is reused only when nothing refers to it any more.\<close>

datatype ('c, 'r) fetch_event = Ran nat 'c 'r | Returned nat 'r

fun ran :: "nat \<Rightarrow> ('c, 'r) fetch_event \<Rightarrow> bool" where
  "ran i (Ran j c r) = (i = j)"
| "ran i (Returned j r) = False"

inductive fetch_run :: "('c, 'r) pending_fetches \<Rightarrow> nat set \<Rightarrow> ('c, 'r) fetch_event list \<Rightarrow> bool" where
  run_start: "fetch_run no_pending_fetches {} []"
| run_join: "fetch_run s used evs \<Longrightarrow> join_fetch fresh key s = Some (s1, i) \<Longrightarrow> fresh \<notin> used \<Longrightarrow>
    fetch_run s1 (insert fresh used) evs"
| run_init: "fetch_run s used evs \<Longrightarrow> live_fetches s i = Some f \<Longrightarrow>
    fetch_run (s\<lparr>live_fetches := (live_fetches s)(i \<mapsto> init_fetch c f)\<rparr>) used evs"
| run_complete: "fetch_run s used evs \<Longrightarrow> live_fetches s i = Some f \<Longrightarrow> fetch_closure f = Some c \<Longrightarrow> fetch_result f = None \<Longrightarrow>
    fetch_run (complete_fetch run i s) used (evs @ [Ran i c (run c)])"
| run_finish: "fetch_run s used evs \<Longrightarrow> live_fetches s i = Some f \<Longrightarrow> fetch_result f = Some r \<Longrightarrow>
    fetch_run (remove_from_registry i (fetch_key_of f) s) used (evs @ [Returned i r])"
| run_release: "fetch_run s used evs \<Longrightarrow> fetch_run (release_fetch i s) used evs"
| run_drop: "fetch_run s used evs \<Longrightarrow> fetch_run (drop_fetch i s) used evs"

definition registry_ok :: "('c, 'r) pending_fetches \<Rightarrow> nat set \<Rightarrow> bool" where
  "registry_ok s used \<longleftrightarrow>
    (\<forall>key i. fetch_registry s key = Some i \<longrightarrow> (\<exists>f. live_fetches s i = Some f \<and> fetch_key_of f = key) \<or> dropping_fetches s i = Some key)
    \<and> (\<forall>i. dropping_fetches s i \<noteq> None \<longrightarrow> live_fetches s i = None \<and> i \<in> used) \<and> dom (live_fetches s) \<subseteq> used"

definition result_matches :: "('c, 'r) fetch_event list \<Rightarrow> nat \<Rightarrow> ('c, 'r) pending_fetch \<Rightarrow> bool" where
  "result_matches evs i f \<longleftrightarrow>
    (case fetch_result f of None \<Rightarrow> filter (ran i) evs = [] | Some r \<Rightarrow> \<exists>c. filter (ran i) evs = [Ran i c r])"

definition runs_ok :: "nat set \<Rightarrow> ('c, 'r) fetch_event list \<Rightarrow> bool" where
  "runs_ok used evs \<longleftrightarrow> (\<forall>i. i \<notin> used \<longrightarrow> filter (ran i) evs = []) \<and> (\<forall>i. length (filter (ran i) evs) \<le> 1)
    \<and> (\<forall>i r. Returned i r \<in> set evs \<longrightarrow> (\<exists>c. filter (ran i) evs = [Ran i c r]))"

definition results_ok :: "('c, 'r) pending_fetches \<Rightarrow> nat set \<Rightarrow> ('c, 'r) fetch_event list \<Rightarrow> bool" where
  "results_ok s used evs \<longleftrightarrow> (\<forall>i f. live_fetches s i = Some f \<longrightarrow> result_matches evs i f) \<and> runs_ok used evs"

lemma init_fetch_fields [simp]:
  "fetch_key_of (init_fetch c f) = fetch_key_of f" "fetch_result (init_fetch c f) = fetch_result f"
  "fetch_owners (init_fetch c f) = fetch_owners f"
  by (simp_all add: init_fetch_def split: option.splits)

lemma remove_from_registry_fields [simp]:
  "live_fetches (remove_from_registry i key s) = live_fetches s"
  "dropping_fetches (remove_from_registry i key s) = dropping_fetches s"
  "fetch_registry (remove_from_registry i key s) k = (if k = key \<and> fetch_registry s key = Some i then None else fetch_registry s k)"
  by (simp_all add: remove_from_registry_def)

lemma join_fetch_ok:
  assumes "registry_ok s used"
  shows "join_fetch fresh key s =
    (case fetch_registry s key of
       Some i \<Rightarrow> (case live_fetches s i of
           Some f \<Rightarrow> Some (s\<lparr>live_fetches := (live_fetches s)(i \<mapsto> f\<lparr>fetch_owners := fetch_owners f + 1\<rparr>)\<rparr>, i)
         | None \<Rightarrow> Some (s\<lparr>fetch_registry := (fetch_registry s)(key \<mapsto> fresh), live_fetches := (live_fetches s)(fresh \<mapsto> new_fetch key)\<rparr>, fresh))
     | None \<Rightarrow> Some (s\<lparr>fetch_registry := (fetch_registry s)(key \<mapsto> fresh), live_fetches := (live_fetches s)(fresh \<mapsto> new_fetch key)\<rparr>, fresh))"
proof -
  have "fetch_key_of f = key" if "fetch_registry s key = Some i" "live_fetches s i = Some f" for i f
    using assms that unfolding registry_ok_def by (metis option.distinct(1) option.inject)
  then show ?thesis by (auto simp: join_fetch_def split: option.splits)
qed

lemma registered:
  "registry_ok s used \<Longrightarrow> fetch_registry s key = Some i \<Longrightarrow>
    (\<exists>f. live_fetches s i = Some f \<and> fetch_key_of f = key) \<or> dropping_fetches s i = Some key"
  unfolding registry_ok_def by blast

lemma dropped: "registry_ok s used \<Longrightarrow> dropping_fetches s i = Some key \<Longrightarrow> live_fetches s i = None \<and> i \<in> used"
  unfolding registry_ok_def by blast

lemma live_used: "registry_ok s used \<Longrightarrow> live_fetches s i = Some f \<Longrightarrow> i \<in> used"
  unfolding registry_ok_def by blast

lemma registry_okI:
  assumes "\<And>key i. fetch_registry s key = Some i \<Longrightarrow>
      (\<exists>f. live_fetches s i = Some f \<and> fetch_key_of f = key) \<or> dropping_fetches s i = Some key"
    and "\<And>i key. dropping_fetches s i = Some key \<Longrightarrow> live_fetches s i = None \<and> i \<in> used"
    and "\<And>i f. live_fetches s i = Some f \<Longrightarrow> i \<in> used"
  shows "registry_ok s used"
  using assms unfolding registry_ok_def by blast

lemma registry_ok_update:
  assumes "registry_ok s used" and "live_fetches s i = Some f" and "fetch_key_of f1 = fetch_key_of f"
  shows "registry_ok (s\<lparr>live_fetches := (live_fetches s)(i \<mapsto> f1)\<rparr>) used"
proof (rule registry_okI)
  fix key j assume "fetch_registry (s\<lparr>live_fetches := (live_fetches s)(i \<mapsto> f1)\<rparr>) key = Some j"
  then have "(\<exists>f. live_fetches s j = Some f \<and> fetch_key_of f = key) \<or> dropping_fetches s j = Some key"
    using registered [OF assms(1)] by simp
  then show "(\<exists>f. live_fetches (s\<lparr>live_fetches := (live_fetches s)(i \<mapsto> f1)\<rparr>) j = Some f \<and> fetch_key_of f = key)
      \<or> dropping_fetches (s\<lparr>live_fetches := (live_fetches s)(i \<mapsto> f1)\<rparr>) j = Some key"
    using assms(2,3) by (cases "j = i") auto
next
  fix j key assume "dropping_fetches (s\<lparr>live_fetches := (live_fetches s)(i \<mapsto> f1)\<rparr>) j = Some key"
  then show "live_fetches (s\<lparr>live_fetches := (live_fetches s)(i \<mapsto> f1)\<rparr>) j = None \<and> j \<in> used"
    using dropped [OF assms(1), of j key] assms(2) by (cases "j = i") simp_all
next
  fix j g assume "live_fetches (s\<lparr>live_fetches := (live_fetches s)(i \<mapsto> f1)\<rparr>) j = Some g"
  then show "j \<in> used" using live_used [OF assms(1)] assms(2) by (cases "j = i") simp_all
qed

lemma results_ok_update:
  assumes "results_ok s used evs" and "live_fetches s i = Some f" and "fetch_result f1 = fetch_result f"
  shows "results_ok (s\<lparr>live_fetches := (live_fetches s)(i \<mapsto> f1)\<rparr>) used evs"
  using assms by (auto simp: results_ok_def result_matches_def)

lemma result_matched: "results_ok s used evs \<Longrightarrow> live_fetches s i = Some f \<Longrightarrow> result_matches evs i f"
  by (simp add: results_ok_def)

lemma registry_ok_remove:
  assumes "registry_ok s used"
  shows "registry_ok (remove_from_registry i key s) used"
proof (rule registry_okI)
  fix k j assume "fetch_registry (remove_from_registry i key s) k = Some j"
  then have "fetch_registry s k = Some j" by (simp split: if_splits)
  then show "(\<exists>f. live_fetches (remove_from_registry i key s) j = Some f \<and> fetch_key_of f = k)
      \<or> dropping_fetches (remove_from_registry i key s) j = Some k"
    using registered [OF assms] by simp
qed (use dropped [OF assms] live_used [OF assms] in simp_all)

lemma registry_ok_new:
  assumes ok: "registry_ok s used" and fresh: "fresh \<notin> used"
  shows "registry_ok (s\<lparr>fetch_registry := (fetch_registry s)(key \<mapsto> fresh), live_fetches := (live_fetches s)(fresh \<mapsto> new_fetch key)\<rparr>)
    (insert fresh used)"
proof -
  let ?s = "s\<lparr>fetch_registry := (fetch_registry s)(key \<mapsto> fresh), live_fetches := (live_fetches s)(fresh \<mapsto> new_fetch key)\<rparr>"
  have "live_fetches s fresh = None" using live_used [OF ok, of fresh] fresh by (cases "live_fetches s fresh") auto
  moreover have "dropping_fetches s fresh = None" using dropped [OF ok, of fresh] fresh by (cases "dropping_fetches s fresh") auto
  ultimately have none: "live_fetches s fresh = None" "dropping_fetches s fresh = None" .
  show ?thesis
  proof (rule registry_okI)
    fix k i assume k: "fetch_registry ?s k = Some i"
    show "(\<exists>f. live_fetches ?s i = Some f \<and> fetch_key_of f = k) \<or> dropping_fetches ?s i = Some k"
    proof (cases "k = key")
      case True
      then show ?thesis using k by (simp add: new_fetch_def)
    next
      case False
      then have "(\<exists>f. live_fetches s i = Some f \<and> fetch_key_of f = k) \<or> dropping_fetches s i = Some k"
        using k registered [OF ok] by simp
      then show ?thesis using none by (cases "i = fresh") simp_all
    qed
  next
    fix i k assume "dropping_fetches ?s i = Some k"
    then show "live_fetches ?s i = None \<and> i \<in> insert fresh used"
      using dropped [OF ok, of i k] none by (cases "i = fresh") simp_all
  next
    fix i f assume "live_fetches ?s i = Some f"
    then show "i \<in> insert fresh used" using live_used [OF ok, of i f] by (cases "i = fresh") simp_all
  qed
qed

lemma results_ok_new:
  assumes "results_ok s used evs" and "fresh \<notin> used"
  shows "results_ok (s\<lparr>fetch_registry := r, live_fetches := (live_fetches s)(fresh \<mapsto> new_fetch key)\<rparr>) (insert fresh used) evs"
  using assms by (auto simp: results_ok_def result_matches_def runs_ok_def new_fetch_def)

lemma registry_ok_insert: "registry_ok s used \<Longrightarrow> registry_ok s (insert i used)"
  by (rule registry_okI) (simp_all add: registered dropped live_used)

lemma results_ok_insert: "results_ok s used evs \<Longrightarrow> results_ok s (insert i used) evs"
  unfolding results_ok_def runs_ok_def by simp

lemma join_keeps_ok:
  assumes ok: "registry_ok s used" "results_ok s used evs" and fresh: "fresh \<notin> used" and j: "join_fetch fresh key s = Some (s1, i)"
  shows "registry_ok s1 (insert fresh used) \<and> results_ok s1 (insert fresh used) evs"
proof -
  consider (shared) j f where "live_fetches s j = Some f"
      "s1 = s\<lparr>live_fetches := (live_fetches s)(j \<mapsto> f\<lparr>fetch_owners := fetch_owners f + 1\<rparr>)\<rparr>"
    | (new) "s1 = s\<lparr>fetch_registry := (fetch_registry s)(key \<mapsto> fresh), live_fetches := (live_fetches s)(fresh \<mapsto> new_fetch key)\<rparr>"
    using j unfolding join_fetch_ok [OF ok(1)] by (auto split: option.splits)
  then show ?thesis
  proof cases
    case shared
    have "registry_ok s1 used" "results_ok s1 used evs"
      using registry_ok_update [OF ok(1) shared(1)] results_ok_update [OF ok(2) shared(1)] shared(2) by simp_all
    then show ?thesis using registry_ok_insert results_ok_insert by blast
  next
    case new
    then show ?thesis using registry_ok_new [OF ok(1) fresh] results_ok_new [OF ok(2) fresh] by simp
  qed
qed

lemma complete_keeps_ok:
  assumes ok: "registry_ok s used" "results_ok s used evs"
    and f: "live_fetches s i = Some f" "fetch_closure f = Some c" "fetch_result f = None"
  shows "registry_ok (complete_fetch run i s) used \<and> results_ok (complete_fetch run i s) used (evs @ [Ran i c (run c)])"
proof -
  have c: "complete_fetch run i s = s\<lparr>live_fetches := (live_fetches s)(i \<mapsto> f\<lparr>fetch_result := Some (run c)\<rparr>)\<rparr>"
    using f by (simp add: complete_fetch_def)
  have none: "filter (ran i) evs = []" using result_matched [OF ok(2) f(1)] f(3) by (simp add: result_matches_def)
  have used: "i \<in> used" using live_used [OF ok(1) f(1)] .
  let ?evs = "evs @ [Ran i c (run c)]"
  have old: "runs_ok used evs" using ok(2) by (simp add: results_ok_def)
  have other: "filter (ran j) ?evs = filter (ran j) evs" if "j \<noteq> i" for j using that by simp
  have "result_matches ?evs j g" if "live_fetches (complete_fetch run i s) j = Some g" for j g
  proof (cases "j = i")
    case True
    then have "g = f\<lparr>fetch_result := Some (run c)\<rparr>" using that by (simp add: c)
    then show ?thesis using True none by (simp add: result_matches_def)
  next
    case False
    then have "result_matches evs j g" using that ok(2) by (simp add: c results_ok_def)
    then show ?thesis unfolding result_matches_def other [OF False] .
  qed
  moreover have "runs_ok used ?evs"
  proof -
    have "length (filter (ran j) ?evs) \<le> 1" for j using none old other [of j] by (cases "j = i") (simp_all add: runs_ok_def)
    moreover have "\<exists>c. filter (ran j) ?evs = [Ran j c r]" if "Returned j r \<in> set ?evs" for j r
    proof -
      have "\<exists>c. filter (ran j) evs = [Ran j c r]" using that old by (simp add: runs_ok_def)
      moreover from this have "j \<noteq> i" using none by auto
      ultimately show ?thesis using other by simp
    qed
    ultimately show ?thesis using old other used by (auto simp: runs_ok_def)
  qed
  ultimately show ?thesis using registry_ok_update [OF ok(1) f(1)] c by (simp add: results_ok_def)
qed

lemma finish_keeps_ok:
  assumes ok: "registry_ok s used" "results_ok s used evs" and f: "live_fetches s i = Some f" "fetch_result f = Some r"
  shows "registry_ok (remove_from_registry i key s) used \<and> results_ok (remove_from_registry i key s) used (evs @ [Returned i r])"
proof -
  let ?evs = "evs @ [Returned i r]"
  have same: "filter (ran j) ?evs = filter (ran j) evs" for j by simp
  have "\<exists>c. filter (ran i) evs = [Ran i c r]" using result_matched [OF ok(2) f(1)] f(2) by (simp add: result_matches_def)
  then have "\<exists>c. filter (ran j) ?evs = [Ran j c r']" if "Returned j r' \<in> set ?evs" for j r'
    using that ok(2) unfolding same results_ok_def runs_ok_def by auto
  then have "runs_ok used ?evs" using ok(2) unfolding results_ok_def runs_ok_def same by blast
  then have "results_ok (remove_from_registry i key s) used ?evs"
    using ok(2) unfolding results_ok_def result_matches_def same by simp
  then show ?thesis using registry_ok_remove [OF ok(1)] by blast
qed

lemma release_registry_ok:
  assumes ok: "registry_ok s used"
  shows "registry_ok (release_fetch i s) used"
proof (cases "live_fetches s i")
  case None
  then show ?thesis using ok by (simp add: release_fetch_def)
next
  case (Some f)
  let ?s = "s\<lparr>live_fetches := (live_fetches s)(i := None), dropping_fetches := (dropping_fetches s)(i \<mapsto> fetch_key_of f)\<rparr>"
  have "registry_ok ?s used"
  proof (rule registry_okI)
    fix k j assume "fetch_registry ?s k = Some j"
    then have "(\<exists>f. live_fetches s j = Some f \<and> fetch_key_of f = k) \<or> dropping_fetches s j = Some k"
      using registered [OF ok] by simp
    then show "(\<exists>f. live_fetches ?s j = Some f \<and> fetch_key_of f = k) \<or> dropping_fetches ?s j = Some k"
      using Some dropped [OF ok, of j k] by (cases "j = i") auto
  next
    fix j k assume "dropping_fetches ?s j = Some k"
    then show "live_fetches ?s j = None \<and> j \<in> used"
      using dropped [OF ok, of j k] live_used [OF ok Some] by (cases "j = i") simp_all
  next
    fix j g assume "live_fetches ?s j = Some g"
    then show "j \<in> used" using live_used [OF ok, of j g] by (cases "j = i") simp_all
  qed
  then show ?thesis using registry_ok_update [OF ok Some] Some by (simp add: release_fetch_def)
qed

lemma release_keeps_ok:
  assumes ok: "registry_ok s used" "results_ok s used evs"
  shows "registry_ok (release_fetch i s) used \<and> results_ok (release_fetch i s) used evs"
proof (cases "live_fetches s i")
  case None
  then show ?thesis using ok by (simp add: release_fetch_def)
next
  case (Some f)
  have "results_ok (s\<lparr>live_fetches := (live_fetches s)(i := None), dropping_fetches := (dropping_fetches s)(i \<mapsto> fetch_key_of f)\<rparr>) used evs"
    using ok(2) by (simp add: results_ok_def)
  then have "results_ok (release_fetch i s) used evs"
    using results_ok_update [OF ok(2) Some] Some by (simp add: release_fetch_def)
  then show ?thesis using release_registry_ok [OF ok(1)] by blast
qed

lemma drop_registry_ok:
  assumes ok: "registry_ok s used"
  shows "registry_ok (drop_fetch i s) used"
proof (cases "dropping_fetches s i")
  case None
  then show ?thesis using ok by (simp add: drop_fetch_def)
next
  case (Some key)
  let ?s = "(remove_from_registry i key s)\<lparr>dropping_fetches := (dropping_fetches s)(i := None)\<rparr>"
  have dead: "live_fetches s i = None" using dropped [OF ok Some] by blast
  have "registry_ok ?s used"
  proof (rule registry_okI)
    fix k j assume k: "fetch_registry ?s k = Some j"
    then have k0: "fetch_registry s k = Some j" "k = key \<Longrightarrow> j \<noteq> i" by (auto split: if_splits)
    then have "(\<exists>f. live_fetches s j = Some f \<and> fetch_key_of f = k) \<or> dropping_fetches s j = Some k"
      using registered [OF ok] by simp
    then show "(\<exists>f. live_fetches ?s j = Some f \<and> fetch_key_of f = k) \<or> dropping_fetches ?s j = Some k"
      using Some dead k0(2) by (cases "j = i") auto
  next
    fix j k assume "dropping_fetches ?s j = Some k"
    then show "live_fetches ?s j = None \<and> j \<in> used" using dropped [OF ok, of j k] by (simp split: if_splits)
  qed (use live_used [OF ok] in simp)
  then show ?thesis using Some by (simp add: drop_fetch_def)
qed

lemma drop_fetch_live [simp]: "live_fetches (drop_fetch i s) = live_fetches s"
  by (simp add: drop_fetch_def split: option.splits)

lemma drop_keeps_ok:
  assumes ok: "registry_ok s used" "results_ok s used evs"
  shows "registry_ok (drop_fetch i s) used \<and> results_ok (drop_fetch i s) used evs"
  using drop_registry_ok [OF ok(1)] ok(2) by (simp add: results_ok_def)

lemma fetch_run_ok: "fetch_run s used evs \<Longrightarrow> registry_ok s used \<and> results_ok s used evs"
proof (induction rule: fetch_run.induct)
  case run_start
  show ?case by (simp add: registry_ok_def results_ok_def runs_ok_def no_pending_fetches_def)
next
  case (run_init s used evs i f c)
  then show ?case using registry_ok_update [of s used i f "init_fetch c f"] results_ok_update [of s used evs i f "init_fetch c f"] by simp
next
  case (run_join s used evs fresh key s1 i)
  then show ?case using join_keeps_ok by fast
next
  case (run_complete s used evs i f c run)
  then show ?case using complete_keeps_ok [of s used evs i f c run] by simp
next
  case (run_finish s used evs i f r)
  then show ?case using finish_keeps_ok [of s used evs i f r] by simp
next
  case (run_release s used evs i)
  then show ?case using release_keeps_ok by fast
next
  case (run_drop s used evs i)
  then show ?case using drop_keeps_ok by fast
qed


definition example_fetches :: "(nat, nat) pending_fetches" where
  "example_fetches = \<lparr>fetch_registry = [(7, 0) \<mapsto> 1], live_fetches = [1 \<mapsto> \<lparr>fetch_key_of = (7, 0), fetch_owners = 2,
    fetch_closure = Some 3, fetch_result = Some 4\<rparr>], dropping_fetches = Map.empty\<rparr>"

lemma example_fetch_run: "fetch_run example_fetches {1, 2} [Ran 1 3 4]"
proof -
  let ?s1 = "\<lparr>fetch_registry = [(7, 0) \<mapsto> 1], live_fetches = [1 \<mapsto> new_fetch (7, 0)], dropping_fetches = Map.empty\<rparr> :: (nat, nat) pending_fetches"
  let ?s2 = "?s1\<lparr>live_fetches := [1 \<mapsto> (new_fetch (7, 0))\<lparr>fetch_owners := 2\<rparr>]\<rparr>"
  let ?s3 = "?s1\<lparr>live_fetches := [1 \<mapsto> (new_fetch (7, 0))\<lparr>fetch_owners := 2, fetch_closure := Some 3\<rparr>]\<rparr>"
  have "fetch_run ?s1 {1} []"
    using run_join [OF run_start, of 1 "(7, 0)" ?s1 1] by (simp add: join_fetch_def no_pending_fetches_def)
  then have "fetch_run ?s2 {1, 2} []"
    using run_join [of ?s1 "{1}" "[]" 2 "(7, 0)" ?s2 1] by (simp add: join_fetch_def new_fetch_def insert_commute numeral_2_eq_2)
  then have "fetch_run ?s3 {1, 2} []"
    using run_init [of ?s2 "{1, 2}" "[]" 1 _ 3] by (simp add: init_fetch_def new_fetch_def)
  then show ?thesis
    using run_complete [of ?s3 "{1, 2}" "[]" 1 _ 3 "\<lambda>n. n + 1"] by (simp add: complete_fetch_def new_fetch_def example_fetches_def)
qed


end
