(* ===== verification/Cache_Config.thy ===== *)
theory Cache_Config
  imports Retention Historian
begin

text \<open>
  Settings: \<open>CacheConfig\<close> of \<open>feuer/src/config.rs\<close>, the builder of \<open>feuer/src/cache.rs\<close> with
  \<open>resolve_config\<close>, and the environment numbers of \<open>feuer-utils/src/config.rs\<close>. The environment is a map from
  names to values, and \<open>parse\<close> is the parser of byte sizes, which comes from another library. Registries
  and shared I/O queues are only handed on: the builder holds their identities.
\<close>

subsection \<open>Environment numbers\<close>

text \<open>The value of a variable; \<open>None\<close> when it is not text.\<close>

type_synonym os_value = "string option"

definition parse_config_number :: "(string \<Rightarrow> nat option) \<Rightarrow> nat \<Rightarrow> os_value \<Rightarrow> nat \<Rightarrow> nat option" where
  "parse_config_number parse limit v minimum =
    (case v of
       None \<Rightarrow> None
     | Some s \<Rightarrow> (case parse s of
           None \<Rightarrow> None
         | Some number \<Rightarrow> if number < minimum then None else if number < limit then Some number else None))"

definition read_env_number :: "(string \<Rightarrow> nat option) \<Rightarrow> (string \<Rightarrow> os_value option) \<Rightarrow> nat \<Rightarrow> string \<Rightarrow> nat \<Rightarrow> nat
    \<Rightarrow> string + nat" where
  "read_env_number parse vars limit name default_number minimum =
    (case vars name of
       None \<Rightarrow> Inr default_number
     | Some v \<Rightarrow> (case parse_config_number parse limit v minimum of
           None \<Rightarrow> Inl (name @ '' must be a number'')
         | Some n \<Rightarrow> Inr n))"

subsection \<open>File names\<close>

text \<open>\<open>Path::file_name\<close>: the last component, empty and current-directory components skipped, unless it is the
  parent directory.\<close>

fun split_path :: "string \<Rightarrow> string list" where
  "split_path [] = [[]]"
| "split_path (c # cs) =
    (if c = CHR ''/'' then [] # split_path cs
     else case split_path cs of [] \<Rightarrow> [[c]] | p # ps \<Rightarrow> (c # p) # ps)"

definition path_file_name :: "string \<Rightarrow> string option" where
  "path_file_name s =
    (case rev (filter (\<lambda>p. p \<noteq> [] \<and> p \<noteq> ''.'') (split_path s)) of
       [] \<Rightarrow> None
     | p # _ \<Rightarrow> if p = ''..'' then None else Some p)"

definition starts_with :: "string \<Rightarrow> string \<Rightarrow> bool" where
  "starts_with pre s \<longleftrightarrow> take (length pre) s = pre"

subsection \<open>The builder\<close>

record cache_config =
  config_directory :: string
  config_file_name :: string
  config_payload_version :: u64
  config_disk_capacity :: nat
  config_memory_capacity :: nat
  config_access_count_half_life :: nat
  config_history_entry_limit :: nat
  config_reclaim_sample_size :: nat

datatype cache_config_error = InvalidFileName | InvalidMemoryCapacity | InvalidReclaimSampleSize
  | InvalidAccessCountHalfLife | InvalidHistoryEntryLimit

type_synonym scorer = "object_access_histories \<Rightarrow> object_key_hash \<Rightarrow> nat \<Rightarrow> rat"

record cache_builder =
  builder_directory :: string
  builder_file_name :: string
  builder_disk_capacity :: nat
  builder_memory_capacity :: nat
  builder_payload_version :: u64
  builder_half_life :: "nat option"
  builder_history_entry_limit :: "nat option"
  builder_reclaim_sample_size :: "nat option"
  builder_metrics_registry :: "nat option"
  builder_io_queues :: "nat option"
  builder_memory_scorer :: scorer
  builder_disk_scorer :: scorer

definition new_cache_builder :: "scorer \<Rightarrow> cache_builder" where
  "new_cache_builder fetch_cost_scorer =
    \<lparr>builder_directory = ''feuer_cache'', builder_file_name = ''data'', builder_disk_capacity = 0, builder_memory_capacity = 0,
     builder_payload_version = 0, builder_half_life = None, builder_history_entry_limit = None,
     builder_reclaim_sample_size = None, builder_metrics_registry = None, builder_io_queues = None,
     builder_memory_scorer = fetch_cost_scorer, builder_disk_scorer = fetch_cost_scorer\<rparr>"

definition set_memory_capacity :: "nat \<Rightarrow> cache_builder \<Rightarrow> cache_builder" where
  "set_memory_capacity n b = b\<lparr>builder_memory_capacity := n\<rparr>"

definition set_disk_capacity :: "nat \<Rightarrow> cache_builder \<Rightarrow> cache_builder" where
  "set_disk_capacity n b = b\<lparr>builder_disk_capacity := n\<rparr>"

definition set_directory :: "string \<Rightarrow> cache_builder \<Rightarrow> cache_builder" where
  "set_directory s b = b\<lparr>builder_directory := s\<rparr>"

definition set_file_name :: "string \<Rightarrow> cache_builder \<Rightarrow> cache_builder" where
  "set_file_name s b = b\<lparr>builder_file_name := s\<rparr>"

definition set_payload_version :: "u64 \<Rightarrow> cache_builder \<Rightarrow> cache_builder" where
  "set_payload_version v b = b\<lparr>builder_payload_version := v\<rparr>"

definition set_access_count_half_life :: "nat \<Rightarrow> cache_builder \<Rightarrow> cache_builder" where
  "set_access_count_half_life n b = b\<lparr>builder_half_life := Some n\<rparr>"

definition set_history_entry_limit :: "nat \<Rightarrow> cache_builder \<Rightarrow> cache_builder" where
  "set_history_entry_limit n b = b\<lparr>builder_history_entry_limit := Some n\<rparr>"

definition set_reclaim_sample_size :: "nat \<Rightarrow> cache_builder \<Rightarrow> cache_builder" where
  "set_reclaim_sample_size n b = b\<lparr>builder_reclaim_sample_size := Some n\<rparr>"

definition with_registry :: "nat \<Rightarrow> cache_builder \<Rightarrow> cache_builder" where
  "with_registry r b = b\<lparr>builder_metrics_registry := Some r\<rparr>"

definition with_io_queues :: "nat \<Rightarrow> cache_builder \<Rightarrow> cache_builder" where
  "with_io_queues q b = b\<lparr>builder_io_queues := Some q\<rparr>"

definition with_memory_retention_scorer :: "scorer \<Rightarrow> cache_builder \<Rightarrow> cache_builder" where
  "with_memory_retention_scorer sc b = b\<lparr>builder_memory_scorer := sc\<rparr>"

definition with_disk_retention_scorer :: "scorer \<Rightarrow> cache_builder \<Rightarrow> cache_builder" where
  "with_disk_retention_scorer sc b = b\<lparr>builder_disk_scorer := sc\<rparr>"

text \<open>An explicit setting, or the environment's; \<open>usize\<close> and \<open>u64\<close> have 64 bits.\<close>

definition setting_or_env :: "(string \<Rightarrow> nat option) \<Rightarrow> (string \<Rightarrow> os_value option) \<Rightarrow> string \<Rightarrow> nat \<Rightarrow> nat option \<Rightarrow> nat option" where
  "setting_or_env parse vars name default_number explicit =
    (case explicit of
       Some n \<Rightarrow> Some n
     | None \<Rightarrow> (case read_env_number parse vars u64_limit name default_number 1 of Inl _ \<Rightarrow> None | Inr n \<Rightarrow> Some n))"

definition resolve_config :: "(string \<Rightarrow> nat option) \<Rightarrow> (string \<Rightarrow> os_value option) \<Rightarrow> cache_builder
    \<Rightarrow> cache_config_error + cache_config" where
  "resolve_config parse vars b =
    (if builder_memory_capacity b = 0 then Inl InvalidMemoryCapacity
     else if path_file_name (builder_file_name b) \<noteq> Some (builder_file_name b) \<or> CHR 0x00 \<in> set (builder_file_name b)
       \<or> starts_with ''.feuer.'' (builder_file_name b)
     then Inl InvalidFileName
     else
    (case setting_or_env parse vars ''FEUER_RECLAIM_SAMPLE_SIZE'' RECLAIM_SAMPLE_SIZE (builder_reclaim_sample_size b) of
       None \<Rightarrow> Inl InvalidReclaimSampleSize
     | Some sample_size \<Rightarrow>
         if sample_size = 0 then Inl InvalidReclaimSampleSize
         else
    (case setting_or_env parse vars ''FEUER_ACCESS_COUNT_HALF_LIFE'' DEFAULT_ACCESS_COUNT_HALF_LIFE (builder_half_life b) of
       None \<Rightarrow> Inl InvalidAccessCountHalfLife
     | Some hl \<Rightarrow>
    (case setting_or_env parse vars ''FEUER_HISTORY_ENTRY_LIMIT'' DEFAULT_HISTORY_ENTRY_LIMIT (builder_history_entry_limit b) of
       None \<Rightarrow> Inl InvalidHistoryEntryLimit
     | Some history_limit \<Rightarrow>
         if hl = 0 then Inl InvalidAccessCountHalfLife
         else if history_limit = 0 then Inl InvalidHistoryEntryLimit
         else Inr \<lparr>config_directory = builder_directory b, config_file_name = builder_file_name b,
           config_payload_version = builder_payload_version b, config_disk_capacity = builder_disk_capacity b,
           config_memory_capacity = builder_memory_capacity b, config_access_count_half_life = hl,
           config_history_entry_limit = history_limit, config_reclaim_sample_size = sample_size\<rparr>))))"

subsection \<open>Valid settings\<close>

lemma split_path_plain: "CHR ''/'' \<notin> set s \<Longrightarrow> split_path s = [s]"
  by (induction s) auto

lemma split_path_nonempty: "split_path s \<noteq> []"
  by (cases s) (auto split: list.splits)

lemma split_path_parts: "p \<in> set (split_path s) \<Longrightarrow> CHR ''/'' \<notin> set p"
proof (induction s arbitrary: p)
  case (Cons c cs)
  show ?case
  proof (cases "c = CHR ''/''")
    case True
    then show ?thesis using Cons by auto
  next
    case False
    obtain q qs where q: "split_path cs = q # qs" using split_path_nonempty by (meson neq_Nil_conv)
    then show ?thesis using Cons False by auto
  qed
qed simp

lemma path_file_name_self:
  "path_file_name s = Some s \<longleftrightarrow> s \<noteq> [] \<and> s \<noteq> ''.'' \<and> s \<noteq> ''..'' \<and> CHR ''/'' \<notin> set s"
proof
  assume s: "path_file_name s = Some s"
  then obtain ps where ps: "rev (filter (\<lambda>p. p \<noteq> [] \<and> p \<noteq> ''.'') (split_path s)) = s # ps" "s \<noteq> ''..''"
    by (auto simp: path_file_name_def split: list.splits if_splits)
  have "s \<in> set (rev (filter (\<lambda>p. p \<noteq> [] \<and> p \<noteq> ''.'') (split_path s)))" unfolding ps(1) by simp
  then show "s \<noteq> [] \<and> s \<noteq> ''.'' \<and> s \<noteq> ''..'' \<and> CHR ''/'' \<notin> set s" using ps(2) split_path_parts [of s s] by simp
qed (simp add: path_file_name_def split_path_plain)


definition example_builder :: cache_builder where
  "example_builder = set_reclaim_sample_size 8 (set_memory_capacity 10 (new_cache_builder (\<lambda>_ _ _. 0)))"

lemma example_config:
  "resolve_config (\<lambda>_. None) (\<lambda>_. None) example_builder = Inr \<lparr>config_directory = ''feuer_cache'', config_file_name = ''data'',
    config_payload_version = 0, config_disk_capacity = 0, config_memory_capacity = 10,
    config_access_count_half_life = 262144, config_history_entry_limit = 2000000, config_reclaim_sample_size = 8\<rparr>"
  by (simp add: resolve_config_def example_builder_def new_cache_builder_def set_reclaim_sample_size_def set_memory_capacity_def
    setting_or_env_def read_env_number_def path_file_name_self starts_with_def DEFAULT_ACCESS_COUNT_HALF_LIFE_def
    DEFAULT_HISTORY_ENTRY_LIMIT_def)


end
