(* ===== verification/Cache.thy ===== *)
theory Cache
  imports Write_Queue Memory_Store Historian Access_Trace Pending_Fetches Cache_Config
begin

text \<open>
  The cache of \<open>feuer/src/cache.rs\<close>: memory, then disk, then the callback, with the lookup metrics of
  \<open>feuer/src/metrics.rs\<close>, the shared request histories, the access trace and shared fetches.

  \<open>cache_env\<close> holds the functions that come from libraries: the hashes and \<open>f64\<close> rounding. What a call
  meets on its way is \<open>call_inputs\<close>: whether locks are free, the outcome of a disk read, whether the read queue
  asks for a fallthrough, and times. A callback is represented by its result. Async functions run to
  completion, except that \<open>lookup_tiers\<close> and \<open>admit_fetched\<close>, the parts of a fetch before and after the callback, are
  separate operations. \<open>None\<close> is a panic.
\<close>

subsection \<open>State\<close>

record bytes_and_memory_charge =
  fetched_bytes :: "byte list"
  memory_charge :: nat

definition charge_bytes :: "byte list \<Rightarrow> bytes_and_memory_charge" where
  "charge_bytes bs = \<lparr>fetched_bytes = bs, memory_charge = length bs\<rparr>"

definition charge_buffer :: "aligned_buffer \<Rightarrow> bytes_and_memory_charge" where
  "charge_buffer b = \<lparr>fetched_bytes = buffer_bytes b, memory_charge = buffer_capacity b\<rparr>"

datatype 'e get_or_fetch_error = CallbackFailed 'e

type_synonym 'e fetch_result = "lookup_outcome \<times> ('e get_or_fetch_error + byte list)"

text \<open>What the first caller of a shared fetch supplies: the answer of its fallthrough decision and the result of
  its callback.\<close>

type_synonym 'e fetch_closure = "bool \<times> ('e + bytes_and_memory_charge)"

record lookup_metrics =
  outcome_counts :: "nat list"
  success_durations :: "nat list list"
  served_bytes :: "nat list"
  disk_write_already_covered :: nat
  disk_write_redundant :: nat

definition new_lookup_metrics :: lookup_metrics where
  "new_lookup_metrics = \<lparr>outcome_counts = replicate 5 0, success_durations = replicate 2 [], served_bytes = replicate 3 0,
    disk_write_already_covered = 0, disk_write_redundant = 0\<rparr>"

definition record_outcome :: "lookup_outcome \<Rightarrow> nat \<Rightarrow> nat \<Rightarrow> lookup_metrics \<Rightarrow> lookup_metrics" where
  "record_outcome oc elapsed bytes m =
    (let i = outcome_index oc;
         m1 = m\<lparr>outcome_counts := (outcome_counts m)[i := outcome_counts m ! i + 1]\<rparr>;
         m2 = (if i < length (served_bytes m1)
           then m1\<lparr>served_bytes := (served_bytes m1)[i := served_bytes m1 ! i + bytes]\<rparr> else m1)
     in if 1 \<le> i \<and> i - 1 < length (success_durations m2)
        then m2\<lparr>success_durations := (success_durations m2)[i - 1 := success_durations m2 ! (i - 1) @ [elapsed]]\<rparr>
        else m2)"

record 'e cache =
  config :: cache_config
  memory_tier :: memory_cache
  access_histories :: object_access_histories
  lookup_counters :: lookup_metrics
  pending_fetches :: "('e fetch_closure, 'e fetch_result) pending_fetches"
  disk_tier :: "(write_queue \<times> disk_cache_inner) option"
  memory_scorer :: scorer
  trace :: "access_trace option"

record cache_env =
  fx_hash :: "object_key_hash \<Rightarrow> u64"
  f64_round :: "rat \<Rightarrow> rat"
  xxh64 :: "byte list \<Rightarrow> u64"
  key_hash :: "string \<Rightarrow> object_key_hash"

record call_inputs =
  buffer_unlocked :: bool
  contains_unlocked :: bool
  queue_asks :: bool
  read_outcome :: io_outcome
  read_capacity :: "nat \<Rightarrow> nat"
  fresh_read :: nat
  fresh_fetch :: nat
  disk_elapsed :: nat
  queued_at :: nat
  start_ns :: nat
  end_ns :: nat
  call_elapsed :: nat

subsection \<open>Opening\<close>

datatype cache_open_error = ConfigError cache_config_error | DiskError disk_cache_error

definition open_cache :: "(string \<Rightarrow> nat option) \<Rightarrow> (string \<Rightarrow> os_value option) \<Rightarrow> (byte list \<Rightarrow> u64)
    \<Rightarrow> (string \<Rightarrow> string \<Rightarrow> nat \<Rightarrow> io_metrics \<Rightarrow> data_file data_file_result) \<Rightarrow> (nat \<Rightarrow> io_outcome) \<Rightarrow> (nat \<Rightarrow> nat \<Rightarrow> io_outcome)
    \<Rightarrow> cache_builder \<Rightarrow> (cache_open_error + 'e cache) option" where
  "open_cache parse vars xxh open_file header_ocs recover_ocs b =
    (case resolve_config parse vars b of
       Inl e \<Rightarrow> Some (Inl (ConfigError e))
     | Inr cfg \<Rightarrow>
    (case Option.bind (memory_with_metrics (config_memory_capacity cfg) new_memory_metrics)
         (with_reclaim_sample_size (config_reclaim_sample_size cfg)) of
       None \<Rightarrow> None
     | Some mem \<Rightarrow>
         let opened = (\<lambda>disk. \<lparr>config = cfg, memory_tier = mem,
               access_histories = with_half_life (config_access_count_half_life cfg),
               lookup_counters = new_lookup_metrics, pending_fetches = no_pending_fetches, disk_tier = disk,
               memory_scorer = builder_memory_scorer b, trace = None\<rparr>)
         in if config_disk_capacity cfg = 0 then Some (Inr (opened None))
            else
    (case open_disk_cache xxh (open_file (config_directory cfg)) header_ocs recover_ocs (config_disk_capacity cfg)
         \<lparr>opt_file_name = config_file_name cfg, opt_payload_version = config_payload_version cfg, opt_metrics = new_disk_metrics,
          opt_reclaim_sample_size = config_reclaim_sample_size cfg, opt_io_metrics = new_io_metrics\<rparr> of
       None \<Rightarrow> None
     | Some (Inl e) \<Rightarrow> Some (Inl (DiskError e))
     | Some (Inr d) \<Rightarrow> Some (Inr (opened (Some (empty_queue, d)))))))"

definition with_trace :: "'e cache \<Rightarrow> 'e cache" where
  "with_trace c = c\<lparr>trace := Some new_access_trace\<rparr>"

definition allocate_cache_buffer :: "memory_env \<Rightarrow> nat \<Rightarrow> 'e cache \<Rightarrow> ('e cache \<times> (allocation_error + aligned_buffer)) option" where
  "allocate_cache_buffer env len c =
    (case allocate_buffer env len (memory_pool (memory_tier c)) of
       None \<Rightarrow> None
     | Some (ps, r) \<Rightarrow> Some (c\<lparr>memory_tier := (memory_tier c)\<lparr>memory_pool := ps\<rparr>\<rparr>, r))"

subsection \<open>Requests\<close>

definition trace_request_start :: "nat \<Rightarrow> object_key_hash \<Rightarrow> 'e cache \<Rightarrow> 'e cache \<times> u64 option" where
  "trace_request_start ns k c =
    (case trace c of
       None \<Rightarrow> (c, None)
     | Some t \<Rightarrow> let (t1, i) = send_request_start ns k t in (c\<lparr>trace := Some t1\<rparr>, Some i))"

definition begin_request :: "cache_env \<Rightarrow> call_inputs \<Rightarrow> object_key_hash \<Rightarrow> 'e cache \<Rightarrow> 'e cache \<times> u64 option" where
  "begin_request env io k c =
    trace_request_start (start_ns io) k
      (c\<lparr>access_histories := record_request (fx_hash env) (f64_round env) k (access_histories c)\<rparr>)"

definition end_request :: "call_inputs \<Rightarrow> object_key_hash \<Rightarrow> u64 option \<Rightarrow> lookup_outcome \<Rightarrow> nat \<Rightarrow> 'e cache \<Rightarrow> 'e cache" where
  "end_request io k req oc len c =
    (let c1 = c\<lparr>lookup_counters := record_outcome oc (call_elapsed io) len (lookup_counters c)\<rparr>
     in case (trace c1, req) of
          (Some t, Some i) \<Rightarrow> c1\<lparr>trace := Some (send_outcome i k oc (end_ns io) len t)\<rparr>
        | _ \<Rightarrow> c1)"

definition insert_tier :: "cache_env \<Rightarrow> object_key_hash \<Rightarrow> byte list \<Rightarrow> nat \<Rightarrow> 'e cache \<Rightarrow> ('e cache \<times> bool) option" where
  "insert_tier env k bs charge c =
    map_option (\<lambda>(m, inserted). (c\<lparr>memory_tier := m\<rparr>, inserted))
      (insert_memory (fx_hash env) (memory_scorer c (access_histories c)) k bs charge (memory_tier c))"

text \<open>Whether a lookup on disk gets to the read queue: the key is not buffered, and nobody has completed a
  shared read of its entry.\<close>

definition waits_for_read :: "call_inputs \<Rightarrow> object_key_hash \<Rightarrow> disk_cache_inner \<Rightarrow> bool" where
  "waits_for_read io k d \<longleftrightarrow>
    (if buffer_unlocked io then buffered_get k (small_entry_buffer (cache_shards d ! shard_of k d)) else None) = None
    \<and> (case begin_read (fresh_read io) k d of
         None \<Rightarrow> False
       | Some (d1, rid) \<Rightarrow> (case payload_reads d1 rid of None \<Rightarrow> False | Some r \<Rightarrow> read_result r = None))"

text \<open>\<open>lookup\<close>, with the decision of a fallthrough; the last result is whether it fell through.\<close>

definition lookup_tiers :: "cache_env \<Rightarrow> call_inputs \<Rightarrow> bool \<Rightarrow> object_key_hash \<Rightarrow> 'e cache
    \<Rightarrow> ('e cache \<times> lookup_outcome \<times> byte list option \<times> bool) option" where
  "lookup_tiers env io should_fall_through k c =
    (case get_memory (fx_hash env) k (memory_tier c) of
       Some bs \<Rightarrow> Some (c, MemoryHit, Some bs, False)
     | None \<Rightarrow>
    (case disk_tier c of
       None \<Rightarrow> Some (c, Miss, None, False)
     | Some (q, d) \<Rightarrow>
         let falls = queue_asks io \<and> should_fall_through;
             fell_through = (falls \<and> waits_for_read io k d)
         in
    (case get_with_fallthrough (xxh64 env) (buffer_unlocked io) (\<not> falls) (read_outcome io) (read_capacity io)
         (fresh_read io) (disk_elapsed io) k d of
       None \<Rightarrow> None
     | Some (d1, None) \<Rightarrow> Some (c\<lparr>disk_tier := Some (q, d1)\<rparr>, Miss, None, fell_through)
     | Some (d1, Some (bs, cap)) \<Rightarrow>
         map_option (\<lambda>(c1, _). (c1, DiskHit, Some bs, fell_through)) (insert_tier env k bs cap (c\<lparr>disk_tier := Some (q, d1)\<rparr>)))))"

text \<open>The end of \<open>fetch\<close>, with the bytes of the callback.\<close>

definition admit_fetched :: "cache_env \<Rightarrow> call_inputs \<Rightarrow> bool \<Rightarrow> object_key_hash \<Rightarrow> bytes_and_memory_charge \<Rightarrow> 'e cache
    \<Rightarrow> 'e cache option" where
  "admit_fetched env io fell_through k r c =
    (let bs = fetched_bytes r; charge = memory_charge r; m = lookup_counters c in
     case disk_tier c of
       Some (q, d) \<Rightarrow>
         if cache_contains (contains_unlocked io) k d
         then let c1 = c\<lparr>lookup_counters := m\<lparr>disk_write_already_covered := disk_write_already_covered m + 1\<rparr>\<rparr>
              in if fell_through then map_option fst (insert_tier env k bs charge c1) else Some c1
         else (case insert_tier env k bs charge c of
             None \<Rightarrow> None
           | Some (c1, True) \<Rightarrow>
               let (q1, dm1) = enqueue_if_space_available (queued_at io) k bs (q, cache_metrics d)
               in Some (c1\<lparr>disk_tier := Some (q1, d\<lparr>cache_metrics := dm1\<rparr>)\<rparr>)
           | Some (c1, False) \<Rightarrow>
               Some (c1\<lparr>lookup_counters := m\<lparr>disk_write_redundant := disk_write_redundant m + 1\<rparr>\<rparr>))
     | None \<Rightarrow> map_option fst (insert_tier env k bs charge c))"

definition fetch :: "cache_env \<Rightarrow> call_inputs \<Rightarrow> object_key_hash \<Rightarrow> 'e fetch_closure \<Rightarrow> 'e cache
    \<Rightarrow> ('e cache \<times> 'e fetch_result) option" where
  "fetch env io k closure c =
    (case lookup_tiers env io (fst closure) k c of
       None \<Rightarrow> None
     | Some (c1, oc, Some bs, _) \<Rightarrow> Some (c1, oc, Inr bs)
     | Some (c1, _, None, fell_through) \<Rightarrow>
         (case snd closure of
            Inl e \<Rightarrow> Some (c1, CallbackError, Inl (CallbackFailed e))
          | Inr r \<Rightarrow> map_option (\<lambda>c2. (c2, Callback, Inr (fetched_bytes r))) (admit_fetched env io fell_through k r c1)))"

definition get_by_hash :: "cache_env \<Rightarrow> call_inputs \<Rightarrow> object_key_hash \<Rightarrow> 'e cache \<Rightarrow> ('e cache \<times> byte list option) option" where
  "get_by_hash env io k c =
    (let (c1, req) = begin_request env io k c in
     case lookup_tiers env io False k c1 of
       None \<Rightarrow> None
     | Some (c2, oc, bytes, _) \<Rightarrow>
         Some (end_request io k req oc (case bytes of Some bs \<Rightarrow> length bs | None \<Rightarrow> 0) c2, bytes))"

definition get_object :: "cache_env \<Rightarrow> call_inputs \<Rightarrow> string \<Rightarrow> 'e cache \<Rightarrow> ('e cache \<times> byte list option) option" where
  "get_object env io name c = get_by_hash env io (key_hash env name) c"

text \<open>A caller that joined fetch \<open>i\<close> awaits its result. A result that is there is shared; otherwise the caller
  drives the fetch with the closure that was stored first.\<close>

definition await_fetch :: "cache_env \<Rightarrow> call_inputs \<Rightarrow> object_key_hash \<Rightarrow> nat \<Rightarrow> 'e fetch_closure \<Rightarrow> 'e cache
    \<Rightarrow> ('e cache \<times> 'e fetch_result) option" where
  "await_fetch env io k i closure c =
    (case live_fetches (pending_fetches c) i of
       None \<Rightarrow> None
     | Some f \<Rightarrow>
         let f1 = init_fetch closure f;
             store = (\<lambda>f c. c\<lparr>pending_fetches := (pending_fetches c)\<lparr>live_fetches := (live_fetches (pending_fetches c))(i \<mapsto> f)\<rparr>\<rparr>)
         in (case fetch_result f1 of
               Some r \<Rightarrow> Some (store f1 c, r)
             | None \<Rightarrow> (case fetch env io k (the (fetch_closure f1)) (store f1 c) of
                   None \<Rightarrow> None
                 | Some (c1, r) \<Rightarrow> Some (store (f1\<lparr>fetch_result := Some r\<rparr>) c1, r))))"

text \<open>The end of a caller's share: it leaves the registry and drops its reference.\<close>

definition leave_fetch :: "nat \<Rightarrow> fetch_key \<Rightarrow> 'e cache \<Rightarrow> 'e cache" where
  "leave_fetch i fk c =
    c\<lparr>pending_fetches := drop_fetch i (release_fetch i (remove_from_registry i fk (pending_fetches c)))\<rparr>"

definition get_or_fetch_by_hash :: "cache_env \<Rightarrow> call_inputs \<Rightarrow> nat \<Rightarrow> object_key_hash \<Rightarrow> 'e fetch_closure \<Rightarrow> 'e cache
    \<Rightarrow> ('e cache \<times> ('e get_or_fetch_error + byte list)) option" where
  "get_or_fetch_by_hash env io error_type k closure c =
    (let (c1, req) = begin_request env io k c;
         finished = (\<lambda>c oc r. (end_request io k req oc (case r of Inr bs \<Rightarrow> length bs | Inl _ \<Rightarrow> 0) c, r))
     in case get_memory (fx_hash env) k (memory_tier c1) of
       Some bs \<Rightarrow> Some (finished c1 MemoryHit (Inr bs))
     | None \<Rightarrow>
    (case join_fetch (fresh_fetch io) (k, error_type) (pending_fetches c1) of
       None \<Rightarrow> None
     | Some (pf, i) \<Rightarrow>
    (case await_fetch env io k i closure (c1\<lparr>pending_fetches := pf\<rparr>) of
       None \<Rightarrow> None
     | Some (c2, oc, r) \<Rightarrow> Some (finished (leave_fetch i (k, error_type) c2) oc r))))"

definition get_or_fetch_with_disk_fallthrough :: "cache_env \<Rightarrow> call_inputs \<Rightarrow> nat \<Rightarrow> string \<Rightarrow> bool
    \<Rightarrow> ('e + bytes_and_memory_charge) \<Rightarrow> 'e cache \<Rightarrow> ('e cache \<times> ('e get_or_fetch_error + byte list)) option" where
  "get_or_fetch_with_disk_fallthrough env io error_type name should_fall_through callback c =
    get_or_fetch_by_hash env io error_type (key_hash env name) (should_fall_through, callback) c"

definition get_or_fetch :: "cache_env \<Rightarrow> call_inputs \<Rightarrow> nat \<Rightarrow> string \<Rightarrow> ('e + bytes_and_memory_charge) \<Rightarrow> 'e cache
    \<Rightarrow> ('e cache \<times> ('e get_or_fetch_error + byte list)) option" where
  "get_or_fetch env io error_type name callback c =
    get_or_fetch_with_disk_fallthrough env io error_type name False callback c"

subsection \<open>The invariant\<close>

text \<open>Completed reads that are still shared report a capacity that holds their bytes.\<close>

definition reads_charged :: "disk_cache_inner \<Rightarrow> bool" where
  "reads_charged d \<longleftrightarrow> (\<forall>rid r bs cap. payload_reads d rid = Some r \<longrightarrow> read_result r = Some (Inr (bs, cap)) \<longrightarrow> length bs \<le> cap)"

lemma read_and_verify_charged:
  assumes "\<forall>n. n \<le> bc n" and "read_and_verify_payload xxh oc bc r f = (f1, Inr (bs, cap))"
  shows "length bs \<le> cap"
proof -
  obtain offset len where s: "read_slice oc bc offset len f = Inr (bs, cap)"
    using assms(2) by (auto simp: read_and_verify_payload_def read_payload_def measure_io_def split: prod.splits sum.splits if_splits)
  let ?n = "payload_disk_bytes ((offset mod DIRECT_IO_ALIGNMENT_BYTES + len) mod u64_limit)"
  have "length bs \<le> ?n" "cap = bc ?n"
    using s by (auto simp: read_slice_def queue_read_def disk_read_def Let_def split: io_outcome.splits if_splits)
  then show ?thesis using assms(1) le_trans by blast
qed

lemma begin_read_charged:
  assumes "reads_charged d" and "begin_read fresh k d = Some (d1, rid)"
  shows "reads_charged d1"
  using assms
  by (auto simp: reads_charged_def begin_read_def share_read_def new_payload_read_def Let_def split: option.splits if_splits)

lemma remove_if_same_read_reads: "remove_if_same_read k rid d = Some d1 \<Longrightarrow> payload_reads d1 = payload_reads d"
  by (auto simp: remove_if_same_read_def Let_def split: if_splits option.splits prod.splits)

lemma complete_read_charged:
  assumes bc: "\<forall>n. n \<le> bc n" and ok: "reads_charged d" and r: "payload_reads d rid = Some r"
    and c: "complete_read xxh admitted oc bc k rid r d = Some (d1, res)"
  shows "reads_charged d1 \<and> (\<forall>bs cap. res = Inr (Inr (bs, cap)) \<longrightarrow> length bs \<le> cap)"
proof (cases "read_result r")
  case (Some x)
  then show ?thesis using c ok r by (auto simp: complete_read_def reads_charged_def)
next
  case None
  obtain f1 v where v: "read_and_verify_payload xxh oc bc r (cache_file d) = (f1, v)" by fastforce
  have len: "length bs \<le> cap" if "v = Inr (bs, cap)" for bs cap using read_and_verify_charged [OF bc] v that by blast
  have set_ok: "reads_charged (d2\<lparr>payload_reads := (payload_reads d2)(rid \<mapsto> r\<lparr>read_result := Some v\<rparr>)\<rparr>)"
    if "payload_reads d2 = payload_reads d" for d2
    using ok len that by (auto simp: reads_charged_def)
  show ?thesis
  proof (cases admitted)
    case False
    then show ?thesis using None c ok by (auto simp: complete_read_def)
  next
    case True
    note run = c [unfolded complete_read_def None option.case Let_def v prod.case]
    show ?thesis
    proof (cases "v = Inl ChecksumFailed")
      case failed: True
      then obtain d2 where d2: "remove_if_same_read k rid (d\<lparr>cache_file := f1\<rparr>) = Some d2" "res = Inr v"
          "d1 = d2\<lparr>payload_reads := (payload_reads d2)(rid \<mapsto> r\<lparr>read_result := Some v\<rparr>)\<rparr>"
        using run True by auto
      then show ?thesis using set_ok [of d2] remove_if_same_read_reads [OF d2(1)] len by simp
    next
      case False
      then have "res = Inr v" "d1 = d\<lparr>cache_file := f1, payload_reads := (payload_reads d)(rid \<mapsto> r\<lparr>read_result := Some v\<rparr>)\<rparr>"
        using run True by auto
      then show ?thesis using set_ok [of "d\<lparr>cache_file := f1\<rparr>"] len by simp
    qed
  qed
qed

lemma get_charged:
  assumes bc: "\<forall>n. n \<le> bc n" and ok: "reads_charged d"
    and g: "get_with_fallthrough xxh unlocked admitted oc bc fresh elapsed k d = Some (d1, res)"
  shows "reads_charged d1 \<and> (\<forall>bs cap. res = Some (bs, cap) \<longrightarrow> length bs \<le> cap)"
proof (cases "if unlocked then buffered_get k (small_entry_buffer (cache_shards d ! shard_of k d)) else None")
  case (Some bytes)
  then show ?thesis using g ok by (auto simp: get_with_fallthrough_def reads_charged_def)
next
  case None
  show ?thesis
  proof (cases "begin_read fresh k d")
    case absent: None
    then show ?thesis using None g ok by (auto simp: get_with_fallthrough_def reads_charged_def)
  next
    case (Some x)
    obtain d2 rid where x: "x = (d2, rid)" by (cases x)
    then have ok2: "reads_charged d2" using begin_read_charged [OF ok] Some by blast
    obtain r d3 cres where r: "payload_reads d2 rid = Some r" "complete_read xxh admitted oc bc k rid r d2 = Some (d3, cres)"
      using g None Some x by (auto simp: get_with_fallthrough_def split: option.splits prod.splits)
    note c = complete_read_charged [OF bc ok2 r]
    have "\<exists>dm. d1 = d3\<lparr>cache_metrics := dm\<rparr>" "\<forall>bs cap. res = Some (bs, cap) \<longrightarrow> cres = Inr (Inr (bs, cap))"
      using g None Some x r by (auto simp: get_with_fallthrough_def split: sum.splits prod.splits)
    then show ?thesis using c by (auto simp: reads_charged_def)
  qed
qed

definition disk_tier_ok :: "(object_key_hash \<Rightarrow> u64 \<Rightarrow> byte list \<Rightarrow> bool) \<Rightarrow> (object_key_hash \<times> byte list) set
    \<Rightarrow> (write_queue \<times> disk_cache_inner) option \<Rightarrow> bool" where
  "disk_tier_ok P W t \<longleftrightarrow> (case t of None \<Rightarrow> True | Some s \<Rightarrow> system_ok P W s \<and> reads_charged (snd s))"

text \<open>The payload of a callback: it fits its charge, and it is one of the payloads \<open>W\<close> that clients supply.\<close>

definition closure_ok :: "(object_key_hash \<times> byte list) set \<Rightarrow> object_key_hash \<Rightarrow> 'e fetch_closure \<Rightarrow> bool" where
  "closure_ok W k closure \<longleftrightarrow> (case snd closure of
      Inl _ \<Rightarrow> True | Inr r \<Rightarrow> length (fetched_bytes r) \<le> memory_charge r \<and> (k, fetched_bytes r) \<in> W)"

definition cache_ok :: "cache_env \<Rightarrow> memory_env \<Rightarrow> aligned_buffer list \<Rightarrow> (object_key_hash \<Rightarrow> u64 \<Rightarrow> byte list \<Rightarrow> bool)
    \<Rightarrow> (object_key_hash \<times> byte list) set \<Rightarrow> 'e cache \<Rightarrow> bool" where
  "cache_ok env menv out P W c \<longleftrightarrow>
    memory_cache_ok (fx_hash env) menv out (memory_tier c) \<and> disk_tier_ok P W (disk_tier c)
    \<and> length (outcome_counts (lookup_counters c)) = 5"

definition inputs_ok :: "call_inputs \<Rightarrow> bool" where
  "inputs_ok io \<longleftrightarrow> (\<forall>n. n \<le> read_capacity io n)"

abbreviation memory_bytes_of :: "cache_env \<Rightarrow> object_key_hash \<Rightarrow> 'e cache \<Rightarrow> byte list option" where
  "memory_bytes_of env k c \<equiv> get_memory (fx_hash env) k (memory_tier c)"

subsection \<open>Lookups\<close>

text \<open>What no operation on the tiers changes.\<close>

definition same_frame :: "'e cache \<Rightarrow> 'e cache \<Rightarrow> bool" where
  "same_frame c c1 \<longleftrightarrow> config c1 = config c \<and> access_histories c1 = access_histories c
    \<and> outcome_counts (lookup_counters c1) = outcome_counts (lookup_counters c)
    \<and> pending_fetches c1 = pending_fetches c \<and> trace c1 = trace c"

text \<open>A tier of objects as a client sees it: whatever is evicted, an insertion ends, keeps an object that is
  there and stores one that is not.\<close>

locale object_tier =
  fixes tier_ok :: "'t \<Rightarrow> bool"
    and tier_get :: "object_key_hash \<Rightarrow> 't \<Rightarrow> byte list option"
    and tier_insert :: "object_key_hash \<Rightarrow> byte list \<Rightarrow> nat \<Rightarrow> 't \<Rightarrow> ('t \<times> bool) option"
  assumes insert_law: "tier_ok t \<Longrightarrow> length bs \<le> charge \<Longrightarrow> \<exists>t1 ins. tier_insert k bs charge t = Some (t1, ins) \<and> tier_ok t1
      \<and> ins = (tier_get k t = None) \<and> tier_get k t1 = (if ins then Some bs else tier_get k t)"
begin

definition inserted_into :: "object_key_hash \<Rightarrow> byte list \<Rightarrow> bool \<Rightarrow> 't \<Rightarrow> 't \<Rightarrow> bool" where
  "inserted_into k bs ins t t1 \<longleftrightarrow> ins = (tier_get k t = None)
    \<and> tier_get k t1 = (case tier_get k t of None \<Rightarrow> Some bs | Some old \<Rightarrow> Some old)"

lemma insert_ok:
  assumes "tier_ok t" and "length bs \<le> charge"
  obtains t1 ins where "tier_insert k bs charge t = Some (t1, ins)" and "tier_ok t1" and "inserted_into k bs ins t t1"
  using insert_law [OF assms, of k] by (auto simp: inserted_into_def split: option.splits)

lemma inserted_present: "inserted_into k bs ins t t1 \<Longrightarrow> tier_get k t1 \<noteq> None"
  by (auto simp: inserted_into_def split: option.splits)

lemma inserted_again:
  assumes "inserted_into k bs ins t t1" and "inserted_into k bs' ins' t1 t2"
  shows "\<not> ins'" and "tier_get k t2 = tier_get k t1"
  using assms inserted_present [OF assms(1)] by (auto simp: inserted_into_def split: option.splits)

end

interpretation mt: object_tier "memory_cache_ok fx menv out" "get_memory fx" "insert_memory fx score"
  for fx menv out and score :: "object_key_hash \<Rightarrow> nat \<Rightarrow> rat"
proof (unfold_locales, goal_cases)
  case (1 t bs charge k)
  obtain c1 ins where "insert_memory fx score k bs charge t = Some (c1, ins)" "memory_cache_ok fx menv out c1"
      "cache_insertion fx k bs ins t c1"
    by (rule insert_memory_ok [OF 1, of score k]) (rule that, assumption+)
  then show ?case unfolding cache_insertion_def by blast
qed

abbreviation stored_in :: "cache_env \<Rightarrow> object_key_hash \<Rightarrow> byte list \<Rightarrow> bool \<Rightarrow> memory_cache \<Rightarrow> memory_cache \<Rightarrow> bool" where
  "stored_in env k bs ins m m1 \<equiv> mt.inserted_into (fx_hash env) k bs ins m m1"

lemma insert_tier_ok:
  assumes ok: "cache_ok env menv out P W c" and len: "length bs \<le> charge"
  obtains m inserted where "insert_tier env k bs charge c = Some (c\<lparr>memory_tier := m\<rparr>, inserted)"
    and "cache_ok env menv out P W (c\<lparr>memory_tier := m\<rparr>)" and "stored_in env k bs inserted (memory_tier c) m"
proof -
  have m: "memory_cache_ok (fx_hash env) menv out (memory_tier c)" using ok by (simp add: cache_ok_def)
  obtain m inserted where "insert_memory (fx_hash env) (memory_scorer c (access_histories c)) k bs charge (memory_tier c) = Some (m, inserted)"
      "memory_cache_ok (fx_hash env) menv out m" "stored_in env k bs inserted (memory_tier c) m"
    by (rule mt.insert_ok [OF m len])
  then show ?thesis using that [of m inserted] ok by (simp add: insert_tier_def cache_ok_def)
qed

definition lookup_effect :: "cache_env \<Rightarrow> object_key_hash \<Rightarrow> 'e cache \<Rightarrow> 'e cache \<Rightarrow> lookup_outcome \<Rightarrow> byte list option \<Rightarrow> bool" where
  "lookup_effect env k c c1 oc bytes \<longleftrightarrow> same_frame c c1 \<and> map_option fst (disk_tier c1) = map_option fst (disk_tier c)
    \<and> (case oc of
         MemoryHit \<Rightarrow> c1 = c \<and> bytes \<noteq> None \<and> bytes = memory_bytes_of env k c
       | DiskHit \<Rightarrow> disk_tier c \<noteq> None \<and> memory_bytes_of env k c = None \<and> bytes \<noteq> None \<and> memory_bytes_of env k c1 = bytes
       | Miss \<Rightarrow> memory_bytes_of env k c = None \<and> bytes = None \<and> memory_tier c1 = memory_tier c
       | _ \<Rightarrow> False)"

lemma disk_lookup_ok:
  assumes "disk_tier_ok P W (Some (q, d))" and "inputs_ok io"
  obtains d1 res where "get_with_fallthrough xxh unlocked admitted oc (read_capacity io) fresh elapsed k d = Some (d1, res)"
    and "disk_tier_ok P W (Some (q, d1))" and "\<And>bs cap. res = Some (bs, cap) \<Longrightarrow> length bs \<le> cap"
proof -
  have g: "disk_good P d" and r: "reads_charged d" using assms(1) by (auto simp: disk_tier_ok_def system_ok_def)
  obtain d1 res where x: "get_with_fallthrough xxh unlocked admitted oc (read_capacity io) fresh elapsed k d = Some (d1, res)" "disk_good P d1"
    using get_good [OF g, of xxh unlocked admitted oc "read_capacity io" fresh elapsed k] by blast
  have "\<forall>n. n \<le> read_capacity io n" using assms(2) by (simp add: inputs_ok_def)
  from get_charged [OF this r x(1)] show ?thesis using that [OF x(1)] x(2) assms(1) by (auto simp: disk_tier_ok_def system_ok_def)
qed

lemma lookup_tiers_ok:
  assumes ok: "cache_ok env menv out P W c" and io: "inputs_ok io"
  obtains c1 oc bytes fell where "lookup_tiers env io fall k c = Some (c1, oc, bytes, fell)"
    and "cache_ok env menv out P W c1" and "lookup_effect env k c c1 oc bytes"
proof (cases "memory_bytes_of env k c")
  case (Some bs)
  then show ?thesis using that [of c MemoryHit "Some bs" False] ok
    by (simp add: lookup_tiers_def lookup_effect_def same_frame_def)
next
  case None
  note mem = None
  show ?thesis
  proof (cases "disk_tier c")
    case None
    then show ?thesis using that [of c Miss "None" False] ok mem
      by (simp add: lookup_tiers_def lookup_effect_def same_frame_def)
  next
    case (Some s)
    obtain q d where s: "s = (q, d)" by (cases s)
    let ?falls = "queue_asks io \<and> fall"
    let ?fell = "?falls \<and> waits_for_read io k d"
    have "disk_tier_ok P W (Some (q, d))" using ok Some s by (simp add: cache_ok_def)
    from disk_lookup_ok [OF this io, of "xxh64 env" "buffer_unlocked io" "\<not> ?falls" "read_outcome io" "fresh_read io" "disk_elapsed io" k]
    obtain d1 res where g: "get_with_fallthrough (xxh64 env) (buffer_unlocked io) (\<not> ?falls) (read_outcome io) (read_capacity io)
          (fresh_read io) (disk_elapsed io) k d = Some (d1, res)"
        "disk_tier_ok P W (Some (q, d1))" "\<And>bs cap. res = Some (bs, cap) \<Longrightarrow> length bs \<le> cap" by blast
    let ?c1 = "c\<lparr>disk_tier := Some (q, d1)\<rparr>"
    have ok1: "cache_ok env menv out P W ?c1" using ok g(2) by (simp add: cache_ok_def)
    show ?thesis
    proof (cases res)
      case None
      have "lookup_tiers env io fall k c = Some (?c1, Miss, None, ?fell)"
        using mem Some s g(1) None by (simp add: lookup_tiers_def Let_def)
      moreover have "lookup_effect env k c ?c1 Miss None" using mem Some s by (simp add: lookup_effect_def same_frame_def)
      ultimately show ?thesis using that ok1 by blast
    next
      case hit: (Some x)
      obtain bs cap where x: "x = (bs, cap)" by (cases x)
      have len: "length bs \<le> cap" using g(3) hit x by blast
      obtain m ins where i: "insert_tier env k bs cap ?c1 = Some (?c1\<lparr>memory_tier := m\<rparr>, ins)"
          "cache_ok env menv out P W (?c1\<lparr>memory_tier := m\<rparr>)" "stored_in env k bs ins (memory_tier ?c1) m"
        by (rule insert_tier_ok [OF ok1 len])
      have "lookup_tiers env io fall k c = Some (?c1\<lparr>memory_tier := m\<rparr>, DiskHit, Some bs, ?fell)"
        using mem Some s g(1) hit x i(1) by (simp add: lookup_tiers_def Let_def)
      moreover have "lookup_effect env k c (?c1\<lparr>memory_tier := m\<rparr>) DiskHit (Some bs)"
        using mem Some s i(3) by (simp add: lookup_effect_def same_frame_def mt.inserted_into_def)
      ultimately show ?thesis using that i(2) by blast
    qed
  qed
qed

subsection \<open>Requests\<close>

lemma begin_request_ok:
  assumes "begin_request env io k c = (c1, req)"
  shows "memory_tier c1 = memory_tier c" and "disk_tier c1 = disk_tier c" and "lookup_counters c1 = lookup_counters c"
    and "pending_fetches c1 = pending_fetches c" and "memory_scorer c1 = memory_scorer c"
    and "access_histories c1 = record_request (fx_hash env) (f64_round env) k (access_histories c)"
    and "trace c = None \<Longrightarrow> trace c1 = None \<and> req = None"
    and "trace c = Some t \<Longrightarrow> req = Some (next_request_id t)
      \<and> trace c1 = Some (t\<lparr>next_request_id := next_request_id t + 1,
          sent_events := sent_events t @ [start_event (next_request_id t) (of_nat (start_ns io)) k]\<rparr>)"
  using assms by (auto simp: begin_request_def trace_request_start_def send_request_start_def Let_def split: option.splits)

lemma begin_request_cache_ok:
  assumes "begin_request env io k c = (c1, req)" and "cache_ok env menv out P W c"
  shows "cache_ok env menv out P W c1"
  using assms begin_request_ok [OF assms(1)] by (simp add: cache_ok_def)

lemma record_outcome_counts:
  "outcome_counts (record_outcome oc elapsed n m) = (outcome_counts m)[outcome_index oc := outcome_counts m ! outcome_index oc + 1]"
  by (simp add: record_outcome_def Let_def)

lemma end_request_ok:
  "memory_tier (end_request io k req oc n c) = memory_tier c"
  "disk_tier (end_request io k req oc n c) = disk_tier c"
  "pending_fetches (end_request io k req oc n c) = pending_fetches c"
  "access_histories (end_request io k req oc n c) = access_histories c"
  "lookup_counters (end_request io k req oc n c) = record_outcome oc (call_elapsed io) n (lookup_counters c)"
  "trace c = Some t \<Longrightarrow> req = Some i \<Longrightarrow>
    trace (end_request io k req oc n c) = Some (send_outcome i k oc (end_ns io) n t)"
  "trace c = None \<Longrightarrow> trace (end_request io k req oc n c) = None"
  by (auto simp: end_request_def Let_def split: option.splits)

lemma end_request_cache_ok: "cache_ok env menv out P W c \<Longrightarrow> cache_ok env menv out P W (end_request io k req oc n c)"
  by (simp add: cache_ok_def end_request_ok record_outcome_counts)

text \<open>The record of one finished request: the clock, the outcome counters and the trace.\<close>

definition request_recorded :: "call_inputs \<Rightarrow> object_key_hash \<Rightarrow> lookup_outcome \<Rightarrow> nat \<Rightarrow> 'e cache \<Rightarrow> 'e cache \<Rightarrow> bool" where
  "request_recorded io k oc n c c1 \<longleftrightarrow>
    request_count (access_histories c1) = request_count (access_histories c) + 1
    \<and> outcome_counts (lookup_counters c1)
        = (outcome_counts (lookup_counters c))[outcome_index oc := outcome_counts (lookup_counters c) ! outcome_index oc + 1]
    \<and> (case trace c of
         None \<Rightarrow> trace c1 = None
       | Some t \<Rightarrow> trace c1 = Some \<lparr>sent_events = sent_events t
             @ [start_event (next_request_id t) (of_nat (start_ns io)) k,
                outcome_event (next_request_id t) (of_nat (end_ns io)) k oc (of_nat n)],
             next_request_id = next_request_id t + 1\<rparr>)"

lemma request_recordedI:
  assumes b: "begin_request env io k c = (c1, req)"
    and frame: "access_histories c2 = access_histories c1" "trace c2 = trace c1"
      "outcome_counts (lookup_counters c2) = outcome_counts (lookup_counters c1)"
  shows "request_recorded io k oc n c (end_request io k req oc n c2)"
proof -
  note B = begin_request_ok [OF b]
  have "request_count (access_histories c1) = request_count (access_histories c) + 1"
    unfolding B(6) by (simp add: record_request_def Let_def)
  moreover have "trace (end_request io k req oc n c2) = Some \<lparr>sent_events = sent_events t
             @ [start_event (next_request_id t) (of_nat (start_ns io)) k,
                outcome_event (next_request_id t) (of_nat (end_ns io)) k oc (of_nat n)],
             next_request_id = next_request_id t + 1\<rparr>" if "trace c = Some t" for t
    using B(8) [OF that] frame(2) by (simp add: end_request_ok send_outcome_def)
  moreover have "trace (end_request io k req oc n c2) = None" if "trace c = None"
    using B(7) [OF that] frame(2) by (simp add: end_request_ok)
  ultimately show ?thesis using frame B(3)
    by (simp add: request_recorded_def end_request_ok record_outcome_counts split: option.splits)
qed

text \<open>C16: A lookup always completes and is recorded exactly once, in the request clock, in the outcome counters
  and, when tracing, as one start and one matching outcome event. It returns the bytes that memory
  holds; bytes found on disk are promoted to memory; a miss leaves memory as it is.\<close>

theorem cache_get_effect:
  assumes "cache_ok env menv out P W c" and "inputs_ok io"
  shows "\<exists>c1 bytes oc. get_by_hash env io k c = Some (c1, bytes) \<and> cache_ok env menv out P W c1
    \<and> request_recorded io k oc (case bytes of Some bs \<Rightarrow> length bs | None \<Rightarrow> 0) c c1
    \<and> (case memory_bytes_of env k c of
         Some bs \<Rightarrow> oc = MemoryHit \<and> bytes = Some bs \<and> memory_tier c1 = memory_tier c
       | None \<Rightarrow> oc = DiskHit \<and> disk_tier c \<noteq> None \<and> bytes \<noteq> None \<and> memory_bytes_of env k c1 = bytes
           \<or> oc = Miss \<and> bytes = None \<and> memory_tier c1 = memory_tier c)"
proof -
  obtain c1 req where b: "begin_request env io k c = (c1, req)" by fastforce
  note B = begin_request_ok [OF b]
  have ok1: "cache_ok env menv out P W c1" by (rule begin_request_cache_ok [OF b assms(1)])
  obtain c2 oc bytes fell where l: "lookup_tiers env io False k c1 = Some (c2, oc, bytes, fell)"
      "cache_ok env menv out P W c2" "lookup_effect env k c1 c2 oc bytes"
    by (rule lookup_tiers_ok [OF ok1 assms(2)])
  let ?n = "case bytes of Some bs \<Rightarrow> length bs | None \<Rightarrow> 0"
  have g: "get_by_hash env io k c = Some (end_request io k req oc ?n c2, bytes)" using b l(1) by (simp add: get_by_hash_def)
  have fr: "access_histories c2 = access_histories c1" "trace c2 = trace c1"
      "outcome_counts (lookup_counters c2) = outcome_counts (lookup_counters c1)"
    using l(3) by (simp_all add: lookup_effect_def same_frame_def)
  have "case memory_bytes_of env k c of
         Some bs \<Rightarrow> oc = MemoryHit \<and> bytes = Some bs \<and> memory_tier c2 = memory_tier c
       | None \<Rightarrow> oc = DiskHit \<and> disk_tier c \<noteq> None \<and> bytes \<noteq> None \<and> memory_bytes_of env k c2 = bytes
           \<or> oc = Miss \<and> bytes = None \<and> memory_tier c2 = memory_tier c"
    using l(3) B(1,2) by (cases oc) (auto simp: lookup_effect_def split: option.splits)
  then have "case memory_bytes_of env k c of
         Some bs \<Rightarrow> oc = MemoryHit \<and> bytes = Some bs \<and> memory_tier (end_request io k req oc ?n c2) = memory_tier c
       | None \<Rightarrow> oc = DiskHit \<and> disk_tier c \<noteq> None \<and> bytes \<noteq> None \<and> memory_bytes_of env k (end_request io k req oc ?n c2) = bytes
           \<or> oc = Miss \<and> bytes = None \<and> memory_tier (end_request io k req oc ?n c2) = memory_tier c"
    unfolding end_request_ok(1) .
  with g end_request_cache_ok [OF l(2)] request_recordedI [OF b fr] show ?thesis by blast
qed

subsection \<open>Admission of fetched objects\<close>

text \<open>What the end of a fetch does with the bytes of the callback.\<close>

definition admission_effect :: "cache_env \<Rightarrow> call_inputs \<Rightarrow> bool \<Rightarrow> object_key_hash \<Rightarrow> byte list \<Rightarrow> 'e cache \<Rightarrow> 'e cache \<Rightarrow> bool" where
  "admission_effect env io fell k bs c c1 \<longleftrightarrow> same_frame c c1
    \<and> (case disk_tier c of
         None \<Rightarrow> disk_tier c1 = None
           \<and> memory_bytes_of env k c1 = (case memory_bytes_of env k c of None \<Rightarrow> Some bs | Some old \<Rightarrow> Some old)
       | Some (q, d) \<Rightarrow>
           if cache_contains (contains_unlocked io) k d
           then disk_tier c1 = disk_tier c
             \<and> disk_write_already_covered (lookup_counters c1) = disk_write_already_covered (lookup_counters c) + 1
             \<and> (if fell then memory_bytes_of env k c1 = (case memory_bytes_of env k c of None \<Rightarrow> Some bs | Some old \<Rightarrow> Some old)
                else memory_tier c1 = memory_tier c)
           else (case memory_bytes_of env k c of
               None \<Rightarrow> memory_bytes_of env k c1 = Some bs
                 \<and> (\<exists>q1 dm1. disk_tier c1 = Some (q1, d\<lparr>cache_metrics := dm1\<rparr>)
                     \<and> enqueue_if_space_available (queued_at io) k bs (q, cache_metrics d) = (q1, dm1))
             | Some old \<Rightarrow> memory_bytes_of env k c1 = Some old \<and> disk_tier c1 = disk_tier c
                 \<and> disk_write_redundant (lookup_counters c1) = disk_write_redundant (lookup_counters c) + 1))"

lemma system_ok_enqueue:
  assumes "system_ok P W (q, d)" and "(k, bs) \<in> W" and "enqueue_if_space_available now k bs (q, cache_metrics d) = (q1, dm1)"
  shows "system_ok P W (q1, d\<lparr>cache_metrics := dm1\<rparr>)"
proof -
  have "queue_ok q1" using queue_ok_enqueue [of q now k bs "cache_metrics d"] assms by (auto simp: system_ok_def)
  moreover have "set (queued q1) \<subseteq> set (queued q) \<union> {w. pending_key w = k \<and> pending_payload w = bs}"
    using assms(3) by (auto simp: enqueue_if_space_available_def Let_def split: if_splits)
  ultimately show ?thesis using assms by (auto simp: system_ok_def)
qed

lemma admit_fetched_ok:
  assumes ok: "cache_ok env menv out P W c" and len: "length (fetched_bytes r) \<le> memory_charge r" and W: "(k, fetched_bytes r) \<in> W"
  obtains c1 where "admit_fetched env io fell k r c = Some c1" and "cache_ok env menv out P W c1"
    and "admission_effect env io fell k (fetched_bytes r) c c1"
proof -
  let ?bs = "fetched_bytes r" and ?ch = "memory_charge r"
  let ?m = "\<lambda>f. f (lookup_counters c)"
  have insert: "\<exists>m ins. insert_tier env k ?bs ?ch c' = Some (c'\<lparr>memory_tier := m\<rparr>, ins)
      \<and> cache_ok env menv out P W (c'\<lparr>memory_tier := m\<rparr>) \<and> stored_in env k ?bs ins (memory_tier c') m"
    if "cache_ok env menv out P W c'" for c'
    by (rule insert_tier_ok [OF that len, of k]) blast
  show ?thesis
  proof (cases "disk_tier c")
    case None
    obtain m ins where i: "insert_tier env k ?bs ?ch c = Some (c\<lparr>memory_tier := m\<rparr>, ins)"
        "cache_ok env menv out P W (c\<lparr>memory_tier := m\<rparr>)" "stored_in env k ?bs ins (memory_tier c) m"
      using insert [OF ok] by blast
    show ?thesis
    proof (rule that [OF _ i(2)])
      show "admit_fetched env io fell k r c = Some (c\<lparr>memory_tier := m\<rparr>)" using None i(1) by (simp add: admit_fetched_def Let_def)
      show "admission_effect env io fell k ?bs c (c\<lparr>memory_tier := m\<rparr>)"
        using None i(3) by (auto simp: admission_effect_def same_frame_def mt.inserted_into_def split: option.splits)
    qed
  next
    case (Some s)
    obtain q d where s: "s = (q, d)" by (cases s)
    note disk = Some [unfolded s]
    let ?c0 = "c\<lparr>lookup_counters := (lookup_counters c)\<lparr>disk_write_already_covered := disk_write_already_covered (lookup_counters c) + 1\<rparr>\<rparr>"
    have ok0: "cache_ok env menv out P W ?c0" using ok by (simp add: cache_ok_def)
    show ?thesis
    proof (cases "cache_contains (contains_unlocked io) k d")
      case True
      show ?thesis
      proof (cases fell)
        case False
        then have "admit_fetched env io fell k r c = Some ?c0" using True disk by (simp add: admit_fetched_def Let_def)
        moreover have "admission_effect env io fell k ?bs c ?c0" using True False disk by (simp add: admission_effect_def same_frame_def)
        ultimately show ?thesis using that ok0 by blast
      next
        case fell: True
        obtain m ins where i: "insert_tier env k ?bs ?ch ?c0 = Some (?c0\<lparr>memory_tier := m\<rparr>, ins)"
            "cache_ok env menv out P W (?c0\<lparr>memory_tier := m\<rparr>)" "stored_in env k ?bs ins (memory_tier ?c0) m"
          using insert [OF ok0] by blast
        show ?thesis
        proof (rule that [OF _ i(2)])
          show "admit_fetched env io fell k r c = Some (?c0\<lparr>memory_tier := m\<rparr>)"
            using True fell disk i(1) by (simp add: admit_fetched_def Let_def)
          show "admission_effect env io fell k ?bs c (?c0\<lparr>memory_tier := m\<rparr>)"
            using True fell disk i(3) by (auto simp: admission_effect_def same_frame_def mt.inserted_into_def split: option.splits)
        qed
      qed
    next
      case False
      obtain m ins where i: "insert_tier env k ?bs ?ch c = Some (c\<lparr>memory_tier := m\<rparr>, ins)"
          "cache_ok env menv out P W (c\<lparr>memory_tier := m\<rparr>)" "stored_in env k ?bs ins (memory_tier c) m"
        using insert [OF ok] by blast
      show ?thesis
      proof (cases ins)
        case True
        obtain q1 dm1 where e: "enqueue_if_space_available (queued_at io) k ?bs (q, cache_metrics d) = (q1, dm1)" by fastforce
        let ?c1 = "c\<lparr>memory_tier := m, disk_tier := Some (q1, d\<lparr>cache_metrics := dm1\<rparr>)\<rparr>"
        have "system_ok P W (q, d)" "reads_charged d" using ok disk by (simp_all add: cache_ok_def disk_tier_ok_def)
        then have "disk_tier_ok P W (disk_tier ?c1)"
          using system_ok_enqueue [OF _ W e] by (simp add: disk_tier_ok_def reads_charged_def)
        then have ok1: "cache_ok env menv out P W ?c1" using i(2) by (simp add: cache_ok_def)
        show ?thesis
        proof (rule that [OF _ ok1])
          show "admit_fetched env io fell k r c = Some ?c1" using False True disk i(1) e by (simp add: admit_fetched_def Let_def)
          show "admission_effect env io fell k ?bs c ?c1"
            using False True disk i(3) e by (auto simp: admission_effect_def same_frame_def mt.inserted_into_def)
        qed
      next
        case present: False
        let ?c1 = "c\<lparr>memory_tier := m, lookup_counters := (lookup_counters c)\<lparr>disk_write_redundant := disk_write_redundant (lookup_counters c) + 1\<rparr>\<rparr>"
        have ok1: "cache_ok env menv out P W ?c1" using i(2) by (simp add: cache_ok_def)
        show ?thesis
        proof (rule that [OF _ ok1])
          show "admit_fetched env io fell k r c = Some ?c1" using False present disk i(1) by (simp add: admit_fetched_def Let_def)
          show "admission_effect env io fell k ?bs c ?c1"
            using False present disk i(3) by (auto simp: admission_effect_def same_frame_def mt.inserted_into_def)
        qed
      qed
    qed
  qed
qed

lemma cache_ok_pending: "cache_ok env menv out P W (c\<lparr>pending_fetches := pf\<rparr>) = cache_ok env menv out P W c"
  by (simp add: cache_ok_def)

text \<open>The ways a fetch can end.\<close>

definition fetch_effect :: "cache_env \<Rightarrow> call_inputs \<Rightarrow> object_key_hash \<Rightarrow> 'e fetch_closure \<Rightarrow> 'e cache \<Rightarrow> 'e cache \<Rightarrow> 'e fetch_result \<Rightarrow> bool" where
  "fetch_effect env io k closure c c1 r \<longleftrightarrow>
    (case fst r of
       MemoryHit \<Rightarrow> c1 = c \<and> (\<exists>bs. memory_bytes_of env k c = Some bs \<and> snd r = Inr bs)
     | DiskHit \<Rightarrow> (\<exists>bs. memory_bytes_of env k c1 = Some bs \<and> snd r = Inr bs)
     | CallbackError \<Rightarrow> (\<exists>e. snd closure = Inl e \<and> snd r = Inl (CallbackFailed e))
         \<and> memory_tier c1 = memory_tier c \<and> map_option fst (disk_tier c1) = map_option fst (disk_tier c)
     | Callback \<Rightarrow> (\<exists>f fell c0. snd closure = Inr f \<and> snd r = Inr (fetched_bytes f)
         \<and> lookup_effect env k c c0 Miss None \<and> admission_effect env io fell k (fetched_bytes f) c0 c1)
     | Miss \<Rightarrow> False)"

lemma same_frame_trans: "same_frame c c1 \<Longrightarrow> same_frame c1 c2 \<Longrightarrow> same_frame c c2"
  by (simp add: same_frame_def)

lemma fetch_ok:
  assumes ok: "cache_ok env menv out P W c" and io: "inputs_ok io" and cl: "closure_ok W k closure"
  obtains c1 r where "fetch env io k closure c = Some (c1, r)" and "cache_ok env menv out P W c1"
    and "same_frame c c1" and "fetch_effect env io k closure c c1 r"
proof -
  obtain c1 oc bytes fell where l: "lookup_tiers env io (fst closure) k c = Some (c1, oc, bytes, fell)"
      "cache_ok env menv out P W c1" "lookup_effect env k c c1 oc bytes"
    by (rule lookup_tiers_ok [OF ok io])
  have frame: "same_frame c c1" using l(3) by (simp add: lookup_effect_def)
  show ?thesis
  proof (cases bytes)
    case (Some bs)
    have "fetch env io k closure c = Some (c1, oc, Inr bs)" using l(1) Some by (simp add: fetch_def)
    moreover have "fetch_effect env io k closure c c1 (oc, Inr bs)"
      using l(3) Some by (cases oc) (simp_all add: lookup_effect_def fetch_effect_def)
    ultimately show ?thesis using that l(2) frame by blast
  next
    case None
    then have miss: "oc = Miss" using l(3) by (cases oc) (simp_all add: lookup_effect_def)
    show ?thesis
    proof (cases "snd closure")
      case (Inl e)
      have "fetch env io k closure c = Some (c1, CallbackError, Inl (CallbackFailed e))" using l(1) None Inl by (simp add: fetch_def)
      moreover have "fetch_effect env io k closure c c1 (CallbackError, Inl (CallbackFailed e))"
        using l(3) miss Inl by (simp add: lookup_effect_def fetch_effect_def)
      ultimately show ?thesis using that l(2) frame by blast
    next
      case (Inr f)
      have f: "length (fetched_bytes f) \<le> memory_charge f" "(k, fetched_bytes f) \<in> W" using cl Inr by (simp_all add: closure_ok_def)
      obtain c2 where a: "admit_fetched env io fell k f c1 = Some c2" "cache_ok env menv out P W c2"
          "admission_effect env io fell k (fetched_bytes f) c1 c2"
        by (rule admit_fetched_ok [OF l(2) f])
      have "fetch env io k closure c = Some (c2, Callback, Inr (fetched_bytes f))" using l(1) None Inr a(1) by (simp add: fetch_def)
      moreover have "fetch_effect env io k closure c c2 (Callback, Inr (fetched_bytes f))"
        using l(3) miss None Inr a(3) by (auto simp: fetch_effect_def)
      moreover have "same_frame c c2" using same_frame_trans [OF frame] a(3) by (simp add: admission_effect_def)
      ultimately show ?thesis using that a(2) by blast
    qed
  qed
qed


definition example_cache :: "nat cache" where
  "example_cache = \<lparr>config = \<lparr>config_directory = ''feuer_cache'', config_file_name = ''data'', config_payload_version = 0,
      config_disk_capacity = 3145728, config_memory_capacity = 10, config_access_count_half_life = 262144,
      config_history_entry_limit = 2000000, config_reclaim_sample_size = 64\<rparr>,
    memory_tier = example_memory, access_histories = default_access_histories, lookup_counters = new_lookup_metrics,
    pending_fetches = no_pending_fetches, disk_tier = Some (empty_queue, example_inner\<lparr>payload_reads := Map.empty\<rparr>),
    memory_scorer = (\<lambda>_ _ _. 0), trace = Some new_access_trace\<rparr>"

definition example_cache_env :: cache_env where
  "example_cache_env = \<lparr>fx_hash = \<lambda>_. 0, f64_round = \<lambda>x. x, xxh64 = \<lambda>_. 5, key_hash = \<lambda>_. 7\<rparr>"

definition example_inputs :: call_inputs where
  "example_inputs = \<lparr>buffer_unlocked = True, contains_unlocked = True, queue_asks = False, read_outcome = IoOk 0,
    read_capacity = (\<lambda>n. n), fresh_read = 0, fresh_fetch = 0, disk_elapsed = 0, queued_at = 0, start_ns = 0, end_ns = 1,
    call_elapsed = 1\<rparr>"

lemma example_cache_ok: "cache_ok example_cache_env example_env [] P W example_cache"
proof -
  have "disk_good P (example_inner\<lparr>payload_reads := Map.empty\<rparr>)"
    using example_inner_good [of P] by (simp add: disk_good_def shard_lo_def shard_hi_def)
  then have "disk_tier_ok P W (disk_tier example_cache)"
    by (simp add: disk_tier_ok_def system_ok_def reads_charged_def example_cache_def queue_ok_def empty_queue_def)
  then show ?thesis using example_memory_ok
    by (simp add: cache_ok_def example_cache_def new_lookup_metrics_def)
qed

lemma example_inputs_ok: "inputs_ok example_inputs"
  by (simp add: inputs_ok_def example_inputs_def)

theorem cache_get_effect_witness:
  "\<exists>c1 bytes oc. get_by_hash example_cache_env example_inputs 7 example_cache = Some (c1, bytes)
    \<and> request_recorded example_inputs 7 oc (case bytes of Some bs \<Rightarrow> length bs | None \<Rightarrow> 0) example_cache c1"
  using cache_get_effect [OF example_cache_ok [of "\<lambda>_ _ _. True" "{}"] example_inputs_ok, of 7] by blast

lemma example_closure_ok: "closure_ok {(7, [1, 2, 3])} 7 (False, Inr (charge_bytes [1, 2, 3]))"
  by (simp add: closure_ok_def charge_bytes_def)


subsection \<open>Shared fetches\<close>

text \<open>Stored closures are sound for the key they fetch, and a stored error is that of a failed callback.\<close>

definition stored_fetch_ok :: "(object_key_hash \<times> byte list) set \<Rightarrow> ('e fetch_closure, 'e fetch_result) pending_fetch \<Rightarrow> bool" where
  "stored_fetch_ok W f \<longleftrightarrow> (\<forall>cl. fetch_closure f = Some cl \<longrightarrow> closure_ok W (fst (fetch_key_of f)) cl)
    \<and> (\<forall>oc e. Pending_Fetches.fetch_result f = Some (oc, Inl e) \<longrightarrow> oc = CallbackError)"

definition pending_ok :: "(object_key_hash \<times> byte list) set \<Rightarrow> ('e fetch_closure, 'e fetch_result) pending_fetches \<Rightarrow> bool" where
  "pending_ok W pf \<longleftrightarrow> (\<exists>used. registry_ok pf used) \<and> (\<forall>i f. live_fetches pf i = Some f \<longrightarrow> stored_fetch_ok W f)"

lemma pending_ok_store:
  assumes "pending_ok W pf" and "live_fetches pf i = Some f" and "fetch_key_of f1 = fetch_key_of f" and "stored_fetch_ok W f1"
  shows "pending_ok W (pf\<lparr>live_fetches := (live_fetches pf)(i \<mapsto> f1)\<rparr>)"
proof -
  obtain used where "registry_ok pf used" using assms(1) by (auto simp: pending_ok_def)
  from registry_ok_update [OF this assms(2,3)] show ?thesis using assms(1,4) by (auto simp: pending_ok_def)
qed

lemma join_pending_ok:
  assumes ok: "pending_ok W pf" and fresh: "live_fetches pf fresh = None" "dropping_fetches pf fresh = None"
  obtains pf1 i f where "join_fetch fresh fk pf = Some (pf1, i)" and "pending_ok W pf1" and "live_fetches pf1 i = Some f"
    and "fetch_key_of f = fk" and "fetch_registry pf fk = None \<longrightarrow> f = new_fetch fk \<and> i = fresh"
proof -
  obtain used where u: "registry_ok pf used" using ok by (auto simp: pending_ok_def)
  have u1: "registry_ok pf (used - {fresh})"
    by (rule registry_okI) (use registered [OF u] dropped [OF u] live_used [OF u] fresh in \<open>fastforce+\<close>)
  consider (shared) i f where "fetch_registry pf fk = Some i" "live_fetches pf i = Some f" "fetch_key_of f = fk"
      "join_fetch fresh fk pf = Some (pf\<lparr>live_fetches := (live_fetches pf)(i \<mapsto> f\<lparr>fetch_owners := fetch_owners f + 1\<rparr>)\<rparr>, i)"
    | (new) "join_fetch fresh fk pf = Some (pf\<lparr>fetch_registry := (fetch_registry pf)(fk \<mapsto> fresh),
        live_fetches := (live_fetches pf)(fresh \<mapsto> new_fetch fk)\<rparr>, fresh)"
  proof (cases "\<exists>i f. fetch_registry pf fk = Some i \<and> live_fetches pf i = Some f")
    case True
    then obtain i f where i: "fetch_registry pf fk = Some i" "live_fetches pf i = Some f" by blast
    moreover have "fetch_key_of f = fk" using registered [OF u i(1)] dropped [OF u, of i fk] i(2) by auto
    ultimately show thesis using shared join_fetch_ok [OF u, of fresh fk] by simp
  next
    case False
    then show thesis using new join_fetch_ok [OF u, of fresh fk] by (auto split: option.splits)
  qed
  then show ?thesis
  proof cases
    case shared
    have "stored_fetch_ok W (f\<lparr>fetch_owners := fetch_owners f + 1\<rparr>)" using ok shared(2) by (auto simp: pending_ok_def stored_fetch_ok_def)
    from pending_ok_store [OF ok shared(2) _ this] show ?thesis using that [OF shared(4)] shared(1,3) by simp
  next
    case new
    have "stored_fetch_ok W (new_fetch fk)" by (simp add: stored_fetch_ok_def new_fetch_def)
    then have "pending_ok W (pf\<lparr>fetch_registry := (fetch_registry pf)(fk \<mapsto> fresh), live_fetches := (live_fetches pf)(fresh \<mapsto> new_fetch fk)\<rparr>)"
      using registry_ok_new [OF u1, of fresh fk] ok by (auto simp: pending_ok_def)
    then show ?thesis using that [OF new] by (simp add: new_fetch_def)
  qed
qed

lemma leave_pending_ok:
  assumes "pending_ok W pf"
  shows "pending_ok W (drop_fetch i (release_fetch i (remove_from_registry i fk pf)))"
proof -
  obtain used where "registry_ok pf used" using assms by (auto simp: pending_ok_def)
  then have "registry_ok (drop_fetch i (release_fetch i (remove_from_registry i fk pf))) used"
    by (intro drop_registry_ok release_registry_ok registry_ok_remove)
  moreover have "stored_fetch_ok W f" if "live_fetches (release_fetch i (remove_from_registry i fk pf)) j = Some f" for j f
    using that assms by (auto simp: pending_ok_def release_fetch_def stored_fetch_ok_def split: option.splits if_splits)
  ultimately show ?thesis by (auto simp: pending_ok_def)
qed

lemma leave_registry:
  assumes "fetch_registry pf fk = Some i"
  shows "fetch_registry (drop_fetch i (release_fetch i (remove_from_registry i fk pf))) fk = None"
  using assms by (auto simp: release_fetch_def drop_fetch_def split: option.splits)

text \<open>What a caller gets out of the fetch it awaits.\<close>

definition await_effect :: "(object_key_hash \<times> byte list) set \<Rightarrow> nat \<Rightarrow> 'e cache \<Rightarrow> 'e cache \<Rightarrow> 'e fetch_result \<Rightarrow> bool" where
  "await_effect W i c c1 r \<longleftrightarrow> pending_ok W (pending_fetches c1)
    \<and> fetch_registry (pending_fetches c1) = fetch_registry (pending_fetches c)
    \<and> access_histories c1 = access_histories c \<and> trace c1 = trace c
    \<and> outcome_counts (lookup_counters c1) = outcome_counts (lookup_counters c)
    \<and> (\<forall>e. snd r = Inl e \<longrightarrow> fst r = CallbackError)"

definition own_result :: "'e fetch_closure \<Rightarrow> 'e fetch_result \<Rightarrow> bool" where
  "own_result closure r \<longleftrightarrow> (\<forall>err. snd r = Inl err \<longrightarrow> (\<exists>e. snd closure = Inl e \<and> err = CallbackFailed e))
    \<and> (fst r = Callback \<longrightarrow> (\<exists>f. snd closure = Inr f \<and> snd r = Inr (fetched_bytes f)))"

lemma fetch_effect_own:
  assumes "fetch_effect env io k closure c c1 r"
  shows "own_result closure r" and "\<And>e. snd r = Inl e \<Longrightarrow> fst r = CallbackError"
  using assms by (cases "fst r"; force simp: fetch_effect_def own_result_def)+

lemma await_fetch_ok:
  assumes ok: "cache_ok env menv out P W c" and pend: "pending_ok W (pending_fetches c)" and io: "inputs_ok io"
    and cl: "closure_ok W k closure" and f: "live_fetches (pending_fetches c) i = Some f" "fst (fetch_key_of f) = k"
  obtains c1 r where "await_fetch env io k i closure c = Some (c1, r)" and "cache_ok env menv out P W c1"
    and "await_effect W i c c1 r" and "f = new_fetch fk \<Longrightarrow> own_result closure r"
proof -
  let ?f1 = "init_fetch closure f"
  let ?c1 = "c\<lparr>pending_fetches := (pending_fetches c)\<lparr>live_fetches := (live_fetches (pending_fetches c))(i \<mapsto> ?f1)\<rparr>\<rparr>"
  have f0: "stored_fetch_ok W f" using pend f(1) by (simp add: pending_ok_def)
  have "closure_ok W k x" if "fetch_closure ?f1 = Some x" for x
  proof (cases "fetch_closure f")
    case None
    then have "x = closure" using that by (simp add: init_fetch_def)
    then show ?thesis using cl by simp
  next
    case (Some y)
    then have "fetch_closure f = Some x" using that by (simp add: init_fetch_def)
    then show ?thesis using f0 f(2) unfolding stored_fetch_ok_def by blast
  qed
  then have f1: "stored_fetch_ok W ?f1" using f0 f(2) unfolding stored_fetch_ok_def init_fetch_fields by blast
  have p1: "pending_ok W (pending_fetches ?c1)" using pending_ok_store [OF pend f(1) _ f1] by simp
  have ok1: "cache_ok env menv out P W ?c1" using ok by (simp add: cache_ok_pending)
  show ?thesis
  proof (cases "Pending_Fetches.fetch_result f")
    case (Some r)
    then have "await_fetch env io k i closure c = Some (?c1, r)" using f by (simp add: await_fetch_def Let_def)
    moreover have "await_effect W i c ?c1 r" using p1 f0 Some by (cases r) (auto simp: await_effect_def stored_fetch_ok_def)
    moreover have "f \<noteq> new_fetch fk" using Some by (auto simp: new_fetch_def)
    ultimately show ?thesis using that ok1 by blast
  next
    case None
    obtain cl1 where cl1: "fetch_closure ?f1 = Some cl1" by (cases "fetch_closure f") (simp_all add: init_fetch_def)
    then have "closure_ok W k cl1" using f1 f(2) by (simp add: stored_fetch_ok_def)
    from fetch_ok [OF ok1 io this] obtain c2 r where F: "fetch env io k cl1 ?c1 = Some (c2, r)" "cache_ok env menv out P W c2"
        "same_frame ?c1 c2" "fetch_effect env io k cl1 ?c1 c2 r" by blast
    let ?f2 = "?f1\<lparr>Pending_Fetches.fetch_result := Some r\<rparr>"
    let ?c3 = "c2\<lparr>pending_fetches := (pending_fetches c2)\<lparr>live_fetches := (live_fetches (pending_fetches c2))(i \<mapsto> ?f2)\<rparr>\<rparr>"
    have pc2: "pending_fetches c2 = pending_fetches ?c1" using F(3) by (simp add: same_frame_def)
    have f2: "stored_fetch_ok W ?f2" using f1 fetch_effect_own(2) [OF F(4)] by (auto simp: stored_fetch_ok_def)
    have "await_fetch env io k i closure c = Some (?c3, r)" using f None cl1 F(1) by (simp add: await_fetch_def Let_def)
    moreover have "live_fetches (pending_fetches c2) i = Some ?f1" unfolding pc2 by simp
    then have "pending_ok W (pending_fetches ?c3)"
      using pending_ok_store [of W "pending_fetches c2" i ?f1 ?f2] p1 pc2 f2 by simp
    then have "await_effect W i c ?c3 r"
      using F(3) fetch_effect_own(2) [OF F(4)] by (simp add: await_effect_def same_frame_def)
    moreover have "own_result closure r" if "f = new_fetch fk"
    proof -
      have "cl1 = closure" using cl1 that by (simp add: init_fetch_def new_fetch_def)
      then show ?thesis using fetch_effect_own(1) [OF F(4)] by simp
    qed
    ultimately show ?thesis using that F(2) by (simp add: cache_ok_pending)
  qed
qed



subsection \<open>Opening\<close>

lemma opened_memory_ok:
  assumes "resolve_config parse vars b = Inr cfg"
  obtains m where "Option.bind (memory_with_metrics (config_memory_capacity cfg) new_memory_metrics)
      (with_reclaim_sample_size (config_reclaim_sample_size cfg)) = Some m" and "memory_cache_ok fx menv [] m"
proof -
  have size: "0 < config_reclaim_sample_size cfg"
    using assms by (auto simp: resolve_config_def split: if_splits option.splits)
  obtain m0 where m0: "memory_with_metrics (config_memory_capacity cfg) new_memory_metrics = Some m0"
    by (simp add: memory_with_metrics_def with_shard_count_def default_shard_count_def)
  have "memory_cache_ok fx menv [] m0" using memory_with_metrics_ok [OF m0] by blast
  then have "memory_cache_ok fx menv [] (m0\<lparr>Memory_Store.reclaim_sample_size := config_reclaim_sample_size cfg\<rparr>)"
    using size by (simp add: memory_cache_ok_def shard_index_def)
  then show ?thesis using that m0 size by (simp add: with_reclaim_sample_size_def)
qed

text \<open>C23: Opening reports invalid settings before touching disk. With zero disk capacity it always
  succeeds with a consistent memory-only cache; with nonzero capacity an error of the disk tier is
  reported, and an opened cache always has its disk tier with an empty write queue.\<close>

theorem open_cache_results:
  fixes c :: "'e cache"
  shows "(resolve_config parse vars b = Inl e \<longrightarrow> open_cache parse vars xxh open_file hocs rocs b = Some (Inl (ConfigError e) :: _ + 'e cache))
    \<and> (resolve_config parse vars b = Inr cfg \<and> config_disk_capacity cfg = 0 \<longrightarrow>
        (\<exists>c :: 'e cache. open_cache parse vars xxh open_file hocs rocs b = Some (Inr c) \<and> config c = cfg \<and> disk_tier c = None
          \<and> cache_ok env menv [] P W c \<and> pending_ok W (pending_fetches c)))
    \<and> (resolve_config parse vars b = Inr cfg \<and> 0 < config_disk_capacity cfg
          \<and> open_cache parse vars xxh open_file hocs rocs b = Some (Inr c) \<longrightarrow>
        (\<exists>d. disk_tier c = Some (empty_queue, d)))
    \<and> (resolve_config parse vars b = Inr cfg \<and> 0 < config_disk_capacity cfg
          \<and> open_disk_cache xxh (open_file (config_directory cfg)) hocs rocs (config_disk_capacity cfg)
              \<lparr>opt_file_name = config_file_name cfg, opt_payload_version = config_payload_version cfg, opt_metrics = new_disk_metrics,
               opt_reclaim_sample_size = config_reclaim_sample_size cfg, opt_io_metrics = new_io_metrics\<rparr> = Some (Inl de) \<longrightarrow>
        open_cache parse vars xxh open_file hocs rocs b = Some (Inl (DiskError de) :: _ + 'e cache))"
proof -
  have "\<exists>c :: 'e cache. open_cache parse vars xxh open_file hocs rocs b = Some (Inr c) \<and> config c = cfg \<and> disk_tier c = None
          \<and> cache_ok env menv [] P W c \<and> pending_ok W (pending_fetches c)"
    if r: "resolve_config parse vars b = Inr cfg" "config_disk_capacity cfg = 0"
  proof -
    obtain m where m: "Option.bind (memory_with_metrics (config_memory_capacity cfg) new_memory_metrics)
        (with_reclaim_sample_size (config_reclaim_sample_size cfg)) = Some m" "memory_cache_ok (fx_hash env) menv [] m"
      by (rule opened_memory_ok [OF r(1)])
    let ?c = "\<lparr>config = cfg, memory_tier = m, access_histories = with_half_life (config_access_count_half_life cfg),
        lookup_counters = new_lookup_metrics, pending_fetches = no_pending_fetches, disk_tier = None,
        memory_scorer = builder_memory_scorer b, trace = None\<rparr> :: 'e cache"
    have "open_cache parse vars xxh open_file hocs rocs b = Some (Inr ?c)" using r m(1) by (simp add: open_cache_def)
    moreover have "cache_ok env menv [] P W ?c"
      using m(2) by (simp add: cache_ok_def disk_tier_ok_def new_lookup_metrics_def)
    moreover have "pending_ok W (pending_fetches ?c)" by (auto simp: pending_ok_def no_pending_fetches_def registry_ok_def)
    ultimately show ?thesis by (intro exI [of _ ?c]) simp
  qed
  moreover have "\<exists>d. disk_tier c = Some (empty_queue, d)"
    if r: "resolve_config parse vars b = Inr cfg" "0 < config_disk_capacity cfg"
      "open_cache parse vars xxh open_file hocs rocs b = Some (Inr c)"
    using r by (auto simp: open_cache_def Let_def split: option.splits sum.splits)
  moreover have "open_cache parse vars xxh open_file hocs rocs b = Some (Inl (DiskError de) :: _ + 'e cache)"
    if r: "resolve_config parse vars b = Inr cfg" "0 < config_disk_capacity cfg"
      and d: "open_disk_cache xxh (open_file (config_directory cfg)) hocs rocs (config_disk_capacity cfg)
              \<lparr>opt_file_name = config_file_name cfg, opt_payload_version = config_payload_version cfg, opt_metrics = new_disk_metrics,
               opt_reclaim_sample_size = config_reclaim_sample_size cfg, opt_io_metrics = new_io_metrics\<rparr> = Some (Inl de)"
  proof -
    obtain m where "Option.bind (memory_with_metrics (config_memory_capacity cfg) new_memory_metrics)
        (with_reclaim_sample_size (config_reclaim_sample_size cfg)) = Some m" "memory_cache_ok (fx_hash env) menv [] m"
      by (rule opened_memory_ok [OF r(1)])
    then show ?thesis using r d by (simp add: open_cache_def Let_def)
  qed
  moreover have "resolve_config parse vars b = Inl e \<Longrightarrow> open_cache parse vars xxh open_file hocs rocs b = Some (Inl (ConfigError e) :: _ + 'e cache)"
    by (simp add: open_cache_def)
  ultimately show ?thesis by blast
qed

theorem open_cache_results_witness:
  "\<exists>c :: nat cache. open_cache (\<lambda>_. None) (\<lambda>_. None) (\<lambda>_. 0) (\<lambda>_. example_open_file) (\<lambda>_. IoOk 0) (\<lambda>_ _. IoOk 0) example_builder = Some (Inr c)
    \<and> disk_tier c = None \<and> cache_ok example_cache_env example_env [] (\<lambda>_ _ _. True) {} c"
proof -
  obtain cfg where cfg: "resolve_config (\<lambda>_. None) (\<lambda>_. None) example_builder = Inr cfg" "config_disk_capacity cfg = 0"
    using example_config by simp
  then show ?thesis
    using open_cache_results [of "\<lambda>_. None" "\<lambda>_. None" example_builder _ "\<lambda>_. 0" "\<lambda>_. example_open_file" "\<lambda>_. IoOk 0" "\<lambda>_ _. IoOk 0"
        cfg example_cache_env example_env "\<lambda>_ _ _. True" "{}"] by blast
qed

end
