(* ===== verification/Read_Admission.thy ===== *)
theory Read_Admission
  imports Io_Queue
begin

text \<open>
  Admission of payload reads: \<open>feuer-storage/src/uring/read_admission.rs\<close>. At most 64 reads run; when 64 reads
  wait, every waiting read is scheduled to decide whether it falls through to the source instead.

  A waiting read is identified by its notification. \<open>notifications\<close> holds the notifications that were sent and
  not yet received. The semaphore hands permits to waiting acquisitions: \<open>turn\<close> says whether it picks
  this one when it is polled. The decision callback is represented by its answer. \<open>None\<close> is a panic.
\<close>

record payload_read_queue =
  read_permits :: nat
  waiting_reads :: "(nat \<times> bool) list"
  notifications :: "nat set"

definition new_payload_read_queue :: payload_read_queue where
  "new_payload_read_queue = \<lparr>read_permits = MAX_IN_FLIGHT_READS, waiting_reads = [], notifications = {}\<rparr>"

text \<open>A caller: its place in the queue, and whether its decision callback is still there.\<close>

record waiting_payload_read =
  read_notification :: nat
  is_queued :: bool
  has_callback :: bool

definition enqueue_read :: "nat \<Rightarrow> payload_read_queue \<Rightarrow> payload_read_queue \<times> waiting_payload_read" where
  "enqueue_read fresh q =
    (let ws = waiting_reads q @ [(fresh, False)];
         q1 = (if MAX_IN_FLIGHT_READS \<le> length ws
           then q\<lparr>waiting_reads := map (\<lambda>(i, _). (i, True)) ws,
                  notifications := notifications q \<union> fst ` {w \<in> set ws. \<not> snd w}\<rparr>
           else q\<lparr>waiting_reads := ws\<rparr>)
     in (q1, \<lparr>read_notification = fresh, is_queued = True, has_callback = True\<rparr>))"

fun position :: "nat \<Rightarrow> (nat \<times> bool) list \<Rightarrow> nat option" where
  "position i [] = None"
| "position i (w # ws) = (if fst w = i then Some 0 else map_option Suc (position i ws))"

definition remove_waiting :: "waiting_payload_read \<Rightarrow> payload_read_queue
    \<Rightarrow> (payload_read_queue \<times> waiting_payload_read \<times> bool) option" where
  "remove_waiting r q =
    (if \<not> is_queued r then Some (q, r, False)
     else case position (read_notification r) (waiting_reads q) of
       None \<Rightarrow> None
     | Some index \<Rightarrow>
         Some (q\<lparr>waiting_reads := swap_remove index (waiting_reads q)\<rparr>, r\<lparr>is_queued := False\<rparr>,
           snd (waiting_reads q ! index)))"

definition drop_waiting :: "waiting_payload_read \<Rightarrow> payload_read_queue \<Rightarrow> payload_read_queue option" where
  "drop_waiting r q = map_option fst (remove_waiting r q)"

datatype admission = PollPending | FellThrough | Admitted

text \<open>One poll of a waiting acquisition.\<close>

definition poll_permit :: "bool \<Rightarrow> bool \<Rightarrow> waiting_payload_read \<Rightarrow> payload_read_queue
    \<Rightarrow> (payload_read_queue \<times> waiting_payload_read \<times> admission) option" where
  "poll_permit answer turn r q =
    (let ready = (has_callback r \<and> read_notification r \<in> notifications q);
         q1 = (if ready then q\<lparr>notifications := notifications q - {read_notification r}\<rparr> else q);
         r1 = (if ready then r\<lparr>has_callback := False\<rparr> else r)
     in if ready \<and> answer then Some (q1, r1, FellThrough)
        else if \<not> (turn \<and> 0 < read_permits q1) then Some (q1, r1, PollPending)
        else case remove_waiting r1 q1 of
          None \<Rightarrow> None
        | Some (q2, r2, fallthrough_scheduled) \<Rightarrow>
            if fallthrough_scheduled \<and> has_callback r2
            then if answer then Some (q2, r2\<lparr>has_callback := False\<rparr>, FellThrough)
                 else Some (q2\<lparr>read_permits := read_permits q2 - 1\<rparr>, r2\<lparr>has_callback := False\<rparr>, Admitted)
            else Some (q2\<lparr>read_permits := read_permits q2 - 1\<rparr>, r2, Admitted))"

text \<open>\<open>acquire_permit\<close> up to its first poll: \<open>Inl\<close> a permit, \<open>Inr\<close> a waiting read.\<close>

definition acquire_permit :: "nat \<Rightarrow> payload_read_queue \<Rightarrow> payload_read_queue \<times> (unit + waiting_payload_read)" where
  "acquire_permit fresh q =
    (if 0 < read_permits q then (q\<lparr>read_permits := read_permits q - 1\<rparr>, Inl ())
     else let (q1, r) = enqueue_read fresh q in (q1, Inr r))"

definition release_permit :: "payload_read_queue \<Rightarrow> payload_read_queue" where
  "release_permit q = q\<lparr>read_permits := read_permits q + 1\<rparr>"

subsection \<open>Runs\<close>

record admission_state =
  read_queue :: payload_read_queue
  readers :: "nat \<rightharpoonup> waiting_payload_read"
  in_flight :: nat
  used_reads :: "nat set"
  asked :: "nat list"
  admitted_after_wait :: "nat list"

definition admission_start :: admission_state where
  "admission_start = \<lparr>read_queue = new_payload_read_queue, readers = Map.empty, in_flight = 0, used_reads = {}, asked = [],
    admitted_after_wait = []\<rparr>"

inductive admission_run :: "admission_state \<Rightarrow> bool" where
  adm_start: "admission_run admission_start"
| adm_at_once: "admission_run s \<Longrightarrow> acquire_permit fresh (read_queue s) = (q, Inl ()) \<Longrightarrow>
    admission_run (s\<lparr>read_queue := q, in_flight := in_flight s + 1\<rparr>)"
| adm_wait: "admission_run s \<Longrightarrow> acquire_permit fresh (read_queue s) = (q, Inr r) \<Longrightarrow> fresh \<notin> used_reads s \<Longrightarrow>
    admission_run (s\<lparr>read_queue := q, readers := (readers s)(fresh \<mapsto> r), used_reads := insert fresh (used_reads s)\<rparr>)"
| adm_pending: "admission_run s \<Longrightarrow> readers s i = Some r \<Longrightarrow> poll_permit answer turn r (read_queue s) = Some (q, r1, PollPending) \<Longrightarrow>
    admission_run (s\<lparr>read_queue := q, readers := (readers s)(i \<mapsto> r1), asked := asked s @ (if has_callback r = has_callback r1 then [] else [i])\<rparr>)"
| adm_admitted: "admission_run s \<Longrightarrow> readers s i = Some r \<Longrightarrow> poll_permit answer turn r (read_queue s) = Some (q, r1, Admitted) \<Longrightarrow>
    admission_run (s\<lparr>read_queue := q, readers := (readers s)(i := None), in_flight := in_flight s + 1,
      asked := asked s @ (if has_callback r = has_callback r1 then [] else [i]), admitted_after_wait := admitted_after_wait s @ [i]\<rparr>)"
| adm_fell_through: "admission_run s \<Longrightarrow> readers s i = Some r \<Longrightarrow> poll_permit answer turn r (read_queue s) = Some (q, r1, FellThrough) \<Longrightarrow>
    drop_waiting r1 q = Some q1 \<Longrightarrow>
    admission_run (s\<lparr>read_queue := q1, readers := (readers s)(i := None), asked := asked s @ [i]\<rparr>)"
| adm_cancel: "admission_run s \<Longrightarrow> readers s i = Some r \<Longrightarrow> drop_waiting r (read_queue s) = Some q \<Longrightarrow>
    admission_run (s\<lparr>read_queue := q, readers := (readers s)(i := None)\<rparr>)"
| adm_complete: "admission_run s \<Longrightarrow> 0 < in_flight s \<Longrightarrow>
    admission_run (s\<lparr>read_queue := release_permit (read_queue s), in_flight := in_flight s - 1\<rparr>)"

subsection \<open>The invariant\<close>

lemma position_present:
  assumes "distinct (map fst ws)" and "(i, b) \<in> set ws"
  shows "\<exists>n < length ws. position i ws = Some n \<and> ws ! n = (i, b)"
  using assms
proof (induction ws)
  case (Cons w ws)
  show ?case
  proof (cases "fst w = i")
    case True
    then have "w = (i, b)" using Cons.prems by (auto simp: image_iff)
    then show ?thesis by simp
  next
    case False
    then obtain n where "n < length ws" "position i ws = Some n" "ws ! n = (i, b)" using Cons by auto
    then show ?thesis using False by (intro exI [of _ "Suc n"]) simp
  qed
qed simp

lemma swap_remove_keys:
  assumes "n < length xs" and "distinct (map fst xs)"
  shows "set (swap_remove n xs) = set xs - {xs ! n}" and "distinct (map fst (swap_remove n xs))"
proof -
  have "distinct xs" using assms(2) by (simp add: distinct_map)
  then show "set (swap_remove n xs) = set xs - {xs ! n}" by (rule set_swap_remove [OF assms(1)])
  have "map fst (swap_remove n xs) = swap_remove n (map fst xs)"
    using assms(1) by (cases xs rule: rev_cases) (simp_all add: swap_remove_def map_update map_butlast)
  then show "distinct (map fst (swap_remove n xs))" using distinct_swap_remove [of n "map fst xs"] assms by simp
qed

text \<open>A waiting read has its place in the queue. Until its check is scheduled it is not notified; afterwards
  it is notified until it has run its callback.\<close>

definition reader_ok :: "payload_read_queue \<Rightarrow> nat \<Rightarrow> waiting_payload_read \<Rightarrow> bool" where
  "reader_ok q i r \<longleftrightarrow> read_notification r = i \<and> is_queued r
    \<and> (\<exists>b. (i, b) \<in> set (waiting_reads q)
        \<and> (if b then has_callback r = (i \<in> notifications q) else has_callback r \<and> i \<notin> notifications q))"

definition waiting_ok :: "payload_read_queue \<Rightarrow> (nat \<rightharpoonup> waiting_payload_read) \<Rightarrow> nat set \<Rightarrow> bool" where
  "waiting_ok q rs used \<longleftrightarrow> distinct (map fst (waiting_reads q)) \<and> fst ` set (waiting_reads q) = dom rs
    \<and> (\<forall>i r. rs i = Some r \<longrightarrow> reader_ok q i r) \<and> dom rs \<subseteq> used \<and> notifications q \<subseteq> used
    \<and> (MAX_IN_FLIGHT_READS \<le> length (waiting_reads q) \<longrightarrow> (\<forall>w \<in> set (waiting_reads q). snd w))"

definition admission_ok :: "admission_state \<Rightarrow> bool" where
  "admission_ok s \<longleftrightarrow> read_permits (read_queue s) + in_flight s = MAX_IN_FLIGHT_READS
    \<and> waiting_ok (read_queue s) (readers s) (used_reads s)
    \<and> distinct (asked s) \<and> set (asked s) \<subseteq> used_reads s
    \<and> (\<forall>i r. readers s i = Some r \<longrightarrow> has_callback r = (i \<notin> set (asked s)))"

lemma remove_waiting_ok:
  assumes ok: "waiting_ok q rs used" and r: "rs i = Some r"
  obtains q1 b where "remove_waiting r q = Some (q1, r\<lparr>is_queued := False\<rparr>, b)" and "(i, b) \<in> set (waiting_reads q)"
    and "waiting_ok q1 (rs(i := None)) used" and "read_permits q1 = read_permits q" and "notifications q1 = notifications q"
proof -
  have d: "distinct (map fst (waiting_reads q))" and ro: "reader_ok q i r"
    using ok r by (simp_all add: waiting_ok_def)
  obtain b where b: "(i, b) \<in> set (waiting_reads q)" using ro by (auto simp: reader_ok_def)
  obtain n where n: "n < length (waiting_reads q)" "position i (waiting_reads q) = Some n" "waiting_reads q ! n = (i, b)"
    using position_present [OF d b] by blast
  let ?q = "q\<lparr>waiting_reads := swap_remove n (waiting_reads q)\<rparr>"
  note sr = swap_remove_keys [OF n(1) d, unfolded n(3)]
  have rem: "remove_waiting r q = Some (?q, r\<lparr>is_queued := False\<rparr>, b)"
    using n ro by (simp add: remove_waiting_def reader_ok_def)
  have sets: "fst ` set (waiting_reads q) = dom rs" "dom rs \<subseteq> used" "notifications q \<subseteq> used"
      "MAX_IN_FLIGHT_READS \<le> length (waiting_reads q) \<longrightarrow> (\<forall>w \<in> set (waiting_reads q). snd w)"
    using ok unfolding waiting_ok_def by blast+
  have "fst ` (set (waiting_reads q) - {(i, b)}) = fst ` set (waiting_reads q) - {i}"
    using inj_on_image_set_diff [of fst "set (waiting_reads q)" "set (waiting_reads q)" "{(i, b)}"] d b by (simp add: distinct_map)
  then have keys: "fst ` set (waiting_reads ?q) = dom (rs(i := None))" using sets(1) sr(1) by simp
  have reads: "reader_ok ?q j r'" if j: "(rs(i := None)) j = Some r'" for j r'
  proof -
    have ne: "j \<noteq> i" and "reader_ok q j r'" using j ok by (auto simp: waiting_ok_def split: if_splits)
    then obtain b' where b': "(j, b') \<in> set (waiting_reads q)" "read_notification r' = j" "is_queued r'"
        "if b' then has_callback r' = (j \<in> notifications q) else has_callback r' \<and> j \<notin> notifications q"
      unfolding reader_ok_def by blast
    then have "(j, b') \<in> set (waiting_reads ?q)" using sr(1) ne by simp
    then show ?thesis unfolding reader_ok_def using b' by (intro conjI exI [of _ b']) simp_all
  qed
  have "length (swap_remove n (waiting_reads q)) \<le> length (waiting_reads q)" by simp
  then have full: "MAX_IN_FLIGHT_READS \<le> length (waiting_reads ?q) \<longrightarrow> (\<forall>w \<in> set (waiting_reads ?q). snd w)"
    using sets(4) sr(1) by simp
  have "dom (rs(i := None)) \<subseteq> used" "notifications ?q \<subseteq> used" "distinct (map fst (waiting_reads ?q))" using sets(2,3) sr(2) by auto
  then have "waiting_ok ?q (rs(i := None)) used" unfolding waiting_ok_def using keys reads full by blast
  then show ?thesis using that [OF rem b] by simp
qed

lemma waiting_okI:
  assumes "distinct (map fst (waiting_reads q))" and "fst ` set (waiting_reads q) = dom rs"
    and "\<And>i r. rs i = Some r \<Longrightarrow> reader_ok q i r" and "dom rs \<subseteq> used" and "notifications q \<subseteq> used"
    and "MAX_IN_FLIGHT_READS \<le> length (waiting_reads q) \<Longrightarrow> \<forall>w \<in> set (waiting_reads q). snd w"
  shows "waiting_ok q rs used"
  using assms unfolding waiting_ok_def by blast

lemma waiting_okD:
  assumes "waiting_ok q rs used"
  shows "distinct (map fst (waiting_reads q))" and "fst ` set (waiting_reads q) = dom rs"
    and "\<And>i r. rs i = Some r \<Longrightarrow> reader_ok q i r" and "dom rs \<subseteq> used" and "notifications q \<subseteq> used"
    and "MAX_IN_FLIGHT_READS \<le> length (waiting_reads q) \<Longrightarrow> \<forall>w \<in> set (waiting_reads q). snd w"
  using assms unfolding waiting_ok_def by blast+

lemma waiting_ok_permits: "waiting_ok (q\<lparr>read_permits := n\<rparr>) rs used = waiting_ok q rs used"
  by (simp add: waiting_ok_def reader_ok_def)

lemma reader_place:
  assumes "waiting_ok q rs used" and "rs i = Some r" and "(i, b) \<in> set (waiting_reads q)"
  shows "if b then has_callback r = (i \<in> notifications q) else has_callback r \<and> i \<notin> notifications q"
proof -
  obtain b' where "(i, b') \<in> set (waiting_reads q)"
      "if b' then has_callback r = (i \<in> notifications q) else has_callback r \<and> i \<notin> notifications q"
    using waiting_okD(3) [OF assms(1,2)] unfolding reader_ok_def by blast
  moreover from this have "b' = b" using assms(3) waiting_okD(1) [OF assms(1)] by (metis eq_key_imp_eq_value)
  ultimately show ?thesis by simp
qed

lemma enqueue_read_ok:
  assumes ok: "waiting_ok q rs used" and fresh: "fresh \<notin> used"
  obtains q1 where "enqueue_read fresh q = (q1, \<lparr>read_notification = fresh, is_queued = True, has_callback = True\<rparr>)"
    and "waiting_ok q1 (rs(fresh \<mapsto> \<lparr>read_notification = fresh, is_queued = True, has_callback = True\<rparr>)) (insert fresh used)"
    and "read_permits q1 = read_permits q"
proof -
  let ?r = "\<lparr>read_notification = fresh, is_queued = True, has_callback = True\<rparr>"
  let ?ws = "waiting_reads q @ [(fresh, False)]"
  note D = waiting_okD [OF ok]
  have new: "fresh \<notin> fst ` set (waiting_reads q)" "fresh \<notin> notifications q" using D(2,4,5) fresh by auto
  have dist: "distinct (map fst ?ws)" using D(1) new(1) by simp
  have place: "\<exists>b. (i, b) \<in> set ?ws \<and> (if b then has_callback r = (i \<in> notifications q) else has_callback r \<and> i \<notin> notifications q)
      \<and> read_notification r = i \<and> is_queued r" if "(rs(fresh \<mapsto> ?r)) i = Some r" for i r
  proof (cases "i = fresh")
    case True
    then have "r = ?r" using that by simp
    then show ?thesis using True new by (intro exI [of _ False]) simp
  next
    case False
    then have "rs i = Some r" using that by simp
    from D(3) [OF this] obtain b where "(i, b) \<in> set (waiting_reads q)" "read_notification r = i" "is_queued r"
        "if b then has_callback r = (i \<in> notifications q) else has_callback r \<and> i \<notin> notifications q"
      unfolding reader_ok_def by blast
    then show ?thesis by (intro exI [of _ b]) simp
  qed
  show ?thesis
  proof (cases "MAX_IN_FLIGHT_READS \<le> length ?ws")
    case False
    let ?q = "q\<lparr>waiting_reads := ?ws\<rparr>"
    have "waiting_ok ?q (rs(fresh \<mapsto> ?r)) (insert fresh used)"
    proof (rule waiting_okI)
      fix i r assume "(rs(fresh \<mapsto> ?r)) i = Some r"
      from place [OF this] obtain b where "(i, b) \<in> set ?ws" "read_notification r = i" "is_queued r"
          "if b then has_callback r = (i \<in> notifications q) else has_callback r \<and> i \<notin> notifications q" by blast
      then show "reader_ok ?q i r" unfolding reader_ok_def by (intro conjI exI [of _ b]) simp_all
    next
      show "distinct (map fst (waiting_reads ?q))" using dist by simp
      show "fst ` set (waiting_reads ?q) = dom (rs(fresh \<mapsto> ?r))" using D(2) by simp
      show "dom (rs(fresh \<mapsto> ?r)) \<subseteq> insert fresh used" "notifications ?q \<subseteq> insert fresh used" using D(4,5) by auto
    qed (use False in simp)
    then show ?thesis using that False by (simp add: enqueue_read_def Let_def)
  next
    case True
    let ?q = "q\<lparr>waiting_reads := map (\<lambda>(i, _). (i, True)) ?ws, notifications := notifications q \<union> fst ` {w \<in> set ?ws. \<not> snd w}\<rparr>"
    have keys: "map fst (map (\<lambda>(i, _). (i, True)) ?ws) = map fst ?ws" by (simp add: case_prod_beta comp_def)
    have "waiting_ok ?q (rs(fresh \<mapsto> ?r)) (insert fresh used)"
    proof (rule waiting_okI)
      have w: "waiting_reads ?q = map (\<lambda>(i, _). (i, True)) ?ws" by simp
      show "distinct (map fst (waiting_reads ?q))" unfolding w keys by (rule dist)
      have "set (map fst (waiting_reads ?q)) = set (map fst ?ws)" unfolding w keys ..
      also have "\<dots> = dom (rs(fresh \<mapsto> ?r))" using D(2) by simp
      finally show "fst ` set (waiting_reads ?q) = dom (rs(fresh \<mapsto> ?r))" unfolding set_map .
      fix i r assume i: "(rs(fresh \<mapsto> ?r)) i = Some r"
      obtain b where b: "(i, b) \<in> set ?ws" "read_notification r = i" "is_queued r"
          "if b then has_callback r = (i \<in> notifications q) else has_callback r \<and> i \<notin> notifications q"
        using place [OF i] by blast
      have flag: "(i, False) \<in> set ?ws \<longleftrightarrow> \<not> b" 
      proof (cases b)
        case True
        then show ?thesis using eq_key_imp_eq_value [OF dist b(1), of False] by fast
      next
        case False
        then have "b = False" by simp
        then show ?thesis using b(1) by simp
      qed
      have sent: "i \<in> fst ` {w \<in> set ?ws. \<not> snd w} \<longleftrightarrow> (i, False) \<in> set ?ws" for i
        by (auto simp: image_iff)
      have all_sent: "notifications ?q = notifications q \<union> fst ` {w \<in> set ?ws. \<not> snd w}" by simp
      have "has_callback r = (i \<in> notifications ?q)" using b(4) flag unfolding all_sent Un_iff sent by (cases b) simp_all
      moreover have "(\<lambda>(i, _). (i, True)) (i, b) \<in> set (map (\<lambda>(i, _). (i, True)) ?ws)" using b(1) by (simp only: set_map imageI)
      then have "(i, True) \<in> set (waiting_reads ?q)" unfolding w by simp
      ultimately show "reader_ok ?q i r" unfolding reader_ok_def using b(2,3) by (intro conjI exI [of _ True]) simp_all
    next
      have "fst ` set ?ws \<subseteq> insert fresh used" using D(2,4) by auto
      then show "notifications ?q \<subseteq> insert fresh used" using D(5) by auto
      show "dom (rs(fresh \<mapsto> ?r)) \<subseteq> insert fresh used" using D(4) by auto
    qed auto
    then show ?thesis using that True by (simp add: enqueue_read_def Let_def)
  qed
qed

lemma consume_notification_ok:
  assumes ok: "waiting_ok q rs used" and r: "rs i = Some r" and n: "i \<in> notifications q"
  shows "waiting_ok (q\<lparr>notifications := notifications q - {i}\<rparr>) (rs(i \<mapsto> r\<lparr>has_callback := False\<rparr>)) used"
proof (rule waiting_okI)
  note D = waiting_okD [OF ok]
  let ?q = "q\<lparr>notifications := notifications q - {i}\<rparr>"
  fix j r' assume j: "(rs(i \<mapsto> r\<lparr>has_callback := False\<rparr>)) j = Some r'"
  show "reader_ok ?q j r'"
  proof (cases "j = i")
    case True
    obtain b where b: "(i, b) \<in> set (waiting_reads q)" "read_notification r = i" "is_queued r"
      using D(3) [OF r] unfolding reader_ok_def by blast
    then have "b" using reader_place [OF ok r b(1)] n by (simp split: if_splits)
    moreover have "r' = r\<lparr>has_callback := False\<rparr>" using True j by simp
    ultimately show ?thesis using True b unfolding reader_ok_def by (intro conjI exI [of _ b]) simp_all
  next
    case False
    then have "rs j = Some r'" using j by simp
    from D(3) [OF this] obtain b where "(j, b) \<in> set (waiting_reads q)" "read_notification r' = j" "is_queued r'"
        "if b then has_callback r' = (j \<in> notifications q) else has_callback r' \<and> j \<notin> notifications q"
      unfolding reader_ok_def by blast
    then show ?thesis using False unfolding reader_ok_def by (intro conjI exI [of _ b]) simp_all
  qed
next
  note D = waiting_okD [OF ok]
  show "fst ` set (waiting_reads (q\<lparr>notifications := notifications q - {i}\<rparr>)) = dom (rs(i \<mapsto> r\<lparr>has_callback := False\<rparr>))"
    using D(2) r by auto
  show "dom (rs(i \<mapsto> r\<lparr>has_callback := False\<rparr>)) \<subseteq> used" using D(4) r by auto
  show "notifications (q\<lparr>notifications := notifications q - {i}\<rparr>) \<subseteq> used" using D(5) by auto
qed (use waiting_okD(1,6) [OF ok] in simp_all)

text \<open>One poll of a waiting read.\<close>

definition poll_effect :: "bool \<Rightarrow> nat \<Rightarrow> waiting_payload_read \<Rightarrow> payload_read_queue \<Rightarrow> (nat \<rightharpoonup> waiting_payload_read) \<Rightarrow> nat set
    \<Rightarrow> payload_read_queue \<Rightarrow> waiting_payload_read \<Rightarrow> admission \<Rightarrow> bool" where
  "poll_effect answer i r q rs used q1 r1 res \<longleftrightarrow> (has_callback r1 \<longrightarrow> has_callback r)
    \<and> (case res of
         PollPending \<Rightarrow> waiting_ok q1 (rs(i \<mapsto> r1)) used \<and> read_permits q1 = read_permits q
       | FellThrough \<Rightarrow> answer \<and> has_callback r \<and> \<not> has_callback r1
           \<and> (\<exists>q2. drop_waiting r1 q1 = Some q2 \<and> waiting_ok q2 (rs(i := None)) used \<and> read_permits q2 = read_permits q)
       | Admitted \<Rightarrow> waiting_ok q1 (rs(i := None)) used \<and> read_permits q1 + 1 = read_permits q
           \<and> ((i, True) \<in> set (waiting_reads q) \<longrightarrow> \<not> has_callback r1) \<and> (has_callback r \<and> \<not> has_callback r1 \<longrightarrow> \<not> answer))"

lemma poll_permit_ok:
  assumes ok: "waiting_ok q rs used" and r: "rs i = Some r"
  obtains q1 r1 res where "poll_permit answer turn r q = Some (q1, r1, res)" and "poll_effect answer i r q rs used q1 r1 res"
proof -
  have id: "read_notification r = i" using waiting_okD(3) [OF ok r] by (simp add: reader_ok_def)
  define ready where "ready = (has_callback r \<and> i \<in> notifications q)"
  define q0 where "q0 = (if ready then q\<lparr>notifications := notifications q - {i}\<rparr> else q)"
  define r0 where "r0 = (if ready then r\<lparr>has_callback := False\<rparr> else r)"
  have ok0: "waiting_ok q0 (rs(i \<mapsto> r0)) used"
    using consume_notification_ok [OF ok r] ok r by (simp add: q0_def r0_def ready_def fun_upd_idem)
  have same: "read_permits q0 = read_permits q" "waiting_reads q0 = waiting_reads q" by (simp_all add: q0_def)
  have r0: "(rs(i \<mapsto> r0)) i = Some r0" by simp
  obtain q2 b where rem: "remove_waiting r0 q0 = Some (q2, r0\<lparr>is_queued := False\<rparr>, b)" "(i, b) \<in> set (waiting_reads q)"
      "waiting_ok q2 (rs(i := None)) used" "read_permits q2 = read_permits q"
    by (rule remove_waiting_ok [OF ok0 r0, unfolded same fun_upd_upd])
  note poll = poll_permit_def [of answer turn r q, unfolded Let_def id, folded ready_def, folded q0_def r0_def]
  have dropped: "drop_waiting (r0\<lparr>is_queued := False, has_callback := x\<rparr>) q' = Some q'" for x q'
    by (simp add: drop_waiting_def remove_waiting_def)
  have unique: "b" if "(i, True) \<in> set (waiting_reads q)"
    using eq_key_imp_eq_value [OF waiting_okD(1) [OF ok] that rem(2)] by simp
  have cb: "has_callback r0 \<longrightarrow> has_callback r" "ready \<Longrightarrow> has_callback r \<and> \<not> has_callback r0" "\<not> ready \<Longrightarrow> r0 = r"
    by (simp_all add: r0_def ready_def)
  consider (fell) "ready" "answer" | (pending) "\<not> (ready \<and> answer)" "\<not> (turn \<and> 0 < read_permits q)"
    | (asked) "\<not> (ready \<and> answer)" "turn" "0 < read_permits q" "b" "has_callback r0"
    | (admit) "\<not> (ready \<and> answer)" "turn" "0 < read_permits q" "\<not> (b \<and> has_callback r0)" by blast
  then show ?thesis
  proof cases
    case fell
    have "drop_waiting r0 q0 = Some q2" using rem(1) by (simp add: drop_waiting_def)
    then have "poll_effect answer i r q rs used q0 r0 FellThrough" using fell cb rem by (simp add: poll_effect_def)
    moreover have "poll_permit answer turn r q = Some (q0, r0, FellThrough)" unfolding poll using fell by simp
    ultimately show ?thesis using that by blast
  next
    case pending
    have "poll_effect answer i r q rs used q0 r0 PollPending" using ok0 cb same by (simp add: poll_effect_def)
    moreover have "poll_permit answer turn r q = Some (q0, r0, PollPending)" unfolding poll using pending same by auto
    ultimately show ?thesis using that by blast
  next
    case asked
    let ?r1 = "r0\<lparr>is_queued := False, has_callback := False\<rparr>"
    have notready: "\<not> ready" using cb(2) asked(5) by blast
    show ?thesis
    proof (cases answer)
      case True
      have "poll_effect answer i r q rs used q2 ?r1 FellThrough"
        using True asked cb(1) rem dropped [of False q2] by (simp add: poll_effect_def)
      moreover have "poll_permit answer turn r q = Some (q2, ?r1, FellThrough)" unfolding poll using True asked notready rem(1) same by simp
      ultimately show ?thesis using that by blast
    next
      case False
      let ?q = "q2\<lparr>read_permits := read_permits q2 - 1\<rparr>"
      have "poll_effect answer i r q rs used ?q ?r1 Admitted"
        using False asked rem by (simp add: poll_effect_def waiting_ok_permits)
      moreover have "poll_permit answer turn r q = Some (?q, ?r1, Admitted)" unfolding poll using False asked notready rem(1) same by simp
      ultimately show ?thesis using that by blast
    qed
  next
    case admit
    let ?r1 = "r0\<lparr>is_queued := False\<rparr>" and ?q = "q2\<lparr>read_permits := read_permits q2 - 1\<rparr>"
    have "poll_effect answer i r q rs used ?q ?r1 Admitted"
      using admit rem cb unique by (auto simp: poll_effect_def waiting_ok_permits)
    moreover have "poll_permit answer turn r q = Some (?q, ?r1, Admitted)" unfolding poll using admit rem(1) same by auto
    ultimately show ?thesis using that by blast
  qed
qed

lemma admission_okD:
  assumes "admission_ok s"
  shows "read_permits (read_queue s) + in_flight s = MAX_IN_FLIGHT_READS" and "waiting_ok (read_queue s) (readers s) (used_reads s)"
    and "distinct (asked s)" and "set (asked s) \<subseteq> used_reads s"
    and "\<And>i r. readers s i = Some r \<Longrightarrow> has_callback r = (i \<notin> set (asked s))"
  using assms unfolding admission_ok_def by blast+

lemma reader_used: "admission_ok s \<Longrightarrow> readers s i = Some r \<Longrightarrow> i \<in> used_reads s"
  using waiting_okD(4) [OF admission_okD(2)] by blast

lemma poll_readers_ok:
  assumes ok: "admission_ok s" and r: "readers s i = Some r" and cb: "has_callback r1 \<longrightarrow> has_callback r"
  defines "a \<equiv> asked s @ (if has_callback r = has_callback r1 then [] else [i])"
  shows "distinct a" and "set a \<subseteq> used_reads s"
    and "\<And>j x. ((readers s)(i \<mapsto> r1)) j = Some x \<Longrightarrow> has_callback x = (j \<notin> set a)"
    and "\<And>j x. ((readers s)(i := None)) j = Some x \<Longrightarrow> has_callback x = (j \<notin> set a)"
proof -
  note A = admission_okD [OF ok]
  have old: "has_callback r = (i \<notin> set (asked s))" by (rule A(5) [OF r])
  show "distinct a" using A(3) old cb by (auto simp: a_def)
  show "set a \<subseteq> used_reads s" using A(4) reader_used [OF ok r] by (auto simp: a_def)
  have other: "j \<in> set a \<longleftrightarrow> j \<in> set (asked s)" if "j \<noteq> i" for j using that by (auto simp: a_def)
  show "has_callback x = (j \<notin> set a)" if j: "((readers s)(i \<mapsto> r1)) j = Some x" for j x
  proof (cases "j = i")
    case True
    then show ?thesis using j old cb by (auto simp: a_def)
  next
    case False
    then show ?thesis using j A(5) [of j x] other by simp
  qed
  show "has_callback x = (j \<notin> set a)" if j: "((readers s)(i := None)) j = Some x" for j x
    using j A(5) [of j x] other [of j] by (cases "j = i") simp_all
qed

lemma admission_run_ok: "admission_run s \<Longrightarrow> admission_ok s"
proof (induction rule: admission_run.induct)
  case adm_start
  show ?case by (simp add: admission_ok_def admission_start_def new_payload_read_queue_def waiting_ok_def)
next
  case (adm_at_once s fresh q)
  note A = admission_okD [OF adm_at_once.IH]
  have "0 < read_permits (read_queue s)" "q = (read_queue s)\<lparr>read_permits := read_permits (read_queue s) - 1\<rparr>"
    using adm_at_once.hyps by (auto simp: acquire_permit_def Let_def split: if_splits prod.splits)
  then show ?case using A by (simp add: admission_ok_def waiting_ok_permits)
next
  case (adm_wait s fresh q r)
  note A = admission_okD [OF adm_wait.IH]
  let ?r = "\<lparr>read_notification = fresh, is_queued = True, has_callback = True\<rparr>"
  obtain q1 where e: "enqueue_read fresh (read_queue s) = (q1, ?r)"
      "waiting_ok q1 ((readers s)(fresh \<mapsto> ?r)) (insert fresh (used_reads s))" "read_permits q1 = read_permits (read_queue s)"
    by (rule enqueue_read_ok [OF A(2) adm_wait.hyps(3)])
  have "q = q1" "r = ?r" using adm_wait.hyps(2) e(1) by (auto simp: acquire_permit_def Let_def split: if_splits)
  moreover have "fresh \<notin> set (asked s)" using A(4) adm_wait.hyps(3) by blast
  ultimately show ?case using A e by (auto simp: admission_ok_def)
next
  case (adm_pending s i r answer turn q r1)
  note A = admission_okD [OF adm_pending.IH]
  from poll_permit_ok [OF A(2) adm_pending.hyps(2), of answer turn]
  have e: "poll_effect answer i r (read_queue s) (readers s) (used_reads s) q r1 PollPending" using adm_pending.hyps(3) by auto
  then have "has_callback r1 \<longrightarrow> has_callback r" by (simp add: poll_effect_def)
  note P = poll_readers_ok [OF adm_pending.IH adm_pending.hyps(2) this]
  show ?case unfolding admission_ok_def using A(1) e P(1-3) by (auto simp: poll_effect_def)
next
  case (adm_admitted s i r answer turn q r1)
  note A = admission_okD [OF adm_admitted.IH]
  from poll_permit_ok [OF A(2) adm_admitted.hyps(2), of answer turn]
  have e: "poll_effect answer i r (read_queue s) (readers s) (used_reads s) q r1 Admitted" using adm_admitted.hyps(3) by auto
  then have "has_callback r1 \<longrightarrow> has_callback r" by (simp add: poll_effect_def)
  note P = poll_readers_ok [OF adm_admitted.IH adm_admitted.hyps(2) this]
  show ?case unfolding admission_ok_def using A(1) e P(1,2,4) by (auto simp: poll_effect_def)
next
  case (adm_fell_through s i r answer turn q r1 q1)
  note A = admission_okD [OF adm_fell_through.IH]
  from poll_permit_ok [OF A(2) adm_fell_through.hyps(2), of answer turn]
  have e: "poll_effect answer i r (read_queue s) (readers s) (used_reads s) q r1 FellThrough" using adm_fell_through.hyps(3) by auto
  then have "has_callback r1 \<longrightarrow> has_callback r" and a: "(if has_callback r = has_callback r1 then [] else [i]) = [i]"
    by (simp_all add: poll_effect_def)
  note P = poll_readers_ok [OF adm_fell_through.IH adm_fell_through.hyps(2) this(1), unfolded a]
  have "waiting_ok q1 ((readers s)(i := None)) (used_reads s)" "read_permits q1 = read_permits (read_queue s)"
    using e adm_fell_through.hyps(4) by (auto simp: poll_effect_def)
  then show ?case unfolding admission_ok_def using A(1) P(1,2,4) by simp
next
  case (adm_cancel s i r q)
  note A = admission_okD [OF adm_cancel.IH]
  obtain q1 b where "remove_waiting r (read_queue s) = Some (q1, r\<lparr>is_queued := False\<rparr>, b)"
      "waiting_ok q1 ((readers s)(i := None)) (used_reads s)" "read_permits q1 = read_permits (read_queue s)"
    by (rule remove_waiting_ok [OF A(2) adm_cancel.hyps(2)]) (rule that, assumption+)
  moreover from this have "q = q1" using adm_cancel.hyps(3) by (simp add: drop_waiting_def)
  moreover have "has_callback x = (j \<notin> set (asked s))" if "((readers s)(i := None)) j = Some x" for j x
    using that A(5) [of j x] by (cases "j = i") simp_all
  ultimately show ?case unfolding admission_ok_def using A by simp
next
  case (adm_complete s)
  note A = admission_okD [OF adm_complete.IH]
  show ?case using A adm_complete.hyps(2) by (simp add: admission_ok_def release_permit_def waiting_ok_permits)
qed



end
