(* ===== verification/Spec2Isabelle.thy ===== *)
theory Spec2Isabelle
  imports Restart Write_Queue Memory_Store Historian Split_Writes Access_Trace Pending_Fetches Cache_Config Cache Read_Admission
begin

text \<open>
  A verification library for feuer, a tiered cache of immutable objects. Paths below are relative to
  \<open>src/\<close>.

  \<^bold>\<open>The program.\<close> A lookup in \<open>feuer/src/cache.rs\<close> consults a memory tier (\<open>feuer-memory\<close>), then a
  disk tier (\<open>feuer-storage\<close>), then a callback that fetches the object. Every request is recorded in
  shared histories (\<open>feuer-historian\<close>), on which both tiers base eviction. The disk tier is one file of
  1-MiB chunks, partitioned into shards. A shard allocates chunks, keeps an index of its entries and a
  chain of metadata chunks that describes them, collects small entries in a buffer, and is recovered
  from its metadata chain when the file is opened. Reads and writes go through io_uring queues. Access
  traces record requests, and \<open>feuer-replay\<close> reads them back.

  \<^bold>\<open>Foundations.\<close> \<open>Feuer_Prelude\<close> has the machine types, slices and byte order, and \<open>Ordered_Map\<close> the
  ordered map of the standard library. Addresses, lengths and counts are \<open>nat\<close> where the code cannot
  wrap and words where it stores or computes them modulo \<open>2 ^ 64\<close>. A panic, a failed assertion or an
  index out of range is \<open>None\<close> of an option; an error is \<open>Inl\<close> of a sum.

  \<^bold>\<open>Disk tier.\<close>
    \<^item> \<open>Free_Runs\<close>, \<open>Allocation\<close>: \<open>allocation.rs\<close>. Reservations, holds and the free map of a shard. Every
      chunk has exactly one owner after any sequence of operations, allocation is first fit, and
      releasing everything gives back a new allocator.
    \<^item> \<open>Data_File\<close>: reads and writes of \<open>file.rs\<close> with \<open>error.rs\<close> and \<open>metrics.rs\<close>. A file is a function from
      addresses to bytes; a failed write may have changed any part of its range.
    \<^item> \<open>Page_Format\<close>, \<open>Metadata\<close>, \<open>Metadata_Disk\<close>: \<open>disk_cache/page_format.rs\<close> and \<open>metadata.rs\<close>. Encoded pages
      decode to their slots, a successful write round puts the whole chain on disk, and a link is
      written only after the chunk it points to.
    \<^item> \<open>Candidate_Index\<close>, \<open>Retention\<close>, \<open>Disk_Shard\<close>: the entry index, sampling and eviction of
      \<open>disk_cache.rs\<close> and \<open>feuer-memory/src/retention.rs\<close>. Consecutive samples reach every candidate, and an
      eviction removes the lowest-scored eligible one.
    \<^item> \<open>Recovery\<close>, \<open>Restart\<close>, \<open>Header\<close>: \<open>recovery.rs\<close>, \<open>header.rs\<close>. Recovery of arbitrary disk contents ends,
      never panics and yields a consistent shard; a chain that was written out is recovered exactly; an
      incompatible file is cleared before its new header is written.
    \<^item> \<open>Writer\<close>, \<open>Small_Entries\<close>: \<open>writer.rs\<close>, \<open>small_entry_buffer.rs\<close>. A write ends with one outcome per
      entry, changes no byte that belongs to another entry, and publishes what it wrote.
    \<^item> \<open>Disk_Metrics\<close>, \<open>Disk_Cache\<close>, \<open>Write_Queue\<close>: \<open>disk_metrics.rs\<close>, \<open>disk_cache.rs\<close>, \<open>write_queue.rs\<close>. Opening, shared
      reads, lookups and the background queue, and the transition system of all public operations.
    \<^item> \<open>Io_Queue\<close>, \<open>Split_Writes\<close>, \<open>Read_Admission\<close>: \<open>uring.rs\<close>, \<open>uring/write_admission.rs\<close>,
      \<open>uring/read_admission.rs\<close>. The queue thread with the kernel as environment; split writes with short
      completions implement the single write of \<open>Data_File\<close>, and 256 completions per 1-MiB piece are
      enough because each transfers at least 4096 bytes; the admission of payload reads.

  \<^bold>\<open>Memory tier.\<close> \<open>Buffer_Pool\<close> (\<open>buffer.rs\<close>) and \<open>Memory_Store\<close> (\<open>store.rs\<close>, \<open>store/shard.rs\<close>): in every
  reachable state gauges and charges are exact, and insertion ends and never panics. \<open>Historian\<close>
  (\<open>feuer-historian/src/lib.rs\<close>): decay, recording and cleanup of histories.

  \<^bold>\<open>The cache.\<close> \<open>Cache_Config\<close> (\<open>config.rs\<close>, the builder, \<open>feuer-utils/src/config.rs\<close>), \<open>Pending_Fetches\<close>
  (\<open>cache/pending_fetches.rs\<close>) and \<open>Cache\<close> (\<open>cache.rs\<close>, \<open>metrics.rs\<close>): settings, shared fetches, and the
  composition of both tiers. \<open>Access_Trace\<close> (\<open>access_trace.rs\<close>, \<open>feuer-replay/src/lib.rs\<close>): packages decode to what
  was sent, and a loaded trace holds exactly the selected requests.

  \<^bold>\<open>Contracts.\<close> Components rely on each other through locales that are interpreted on the model's own
  definitions: the candidate index of both tiers, records of fixed size in pages, the bounded queue
  of background writes, and the memory tier as the cache uses it.

  \<^bold>\<open>Concurrency.\<close> Code under a lock is one step. Where tasks interleave, a step relation lets them
  interleave in any order: the operations of the disk cache and its queue, callers of shared fetches
  including their cancellation, buffers, the queue thread with the kernel, and waiting reads. What a step
  cannot decide (outcomes of I/O, free locks, clocks) is an argument of the step.

  \<^bold>\<open>Bounds.\<close> No operation needs fuel: loops are structural recursions or have a termination proof (an
  insertion removes an entry in every iteration; a metadata scan reserves a new chunk with every link).
  Payloads are assumed shorter than \<open>2 ^ 64 - 4096\<close> bytes, so that their padded length fits.

  \<^bold>\<open>Parameters.\<close> The hashes (XXH3 and Fx), \<open>f64\<close> rounding in request counts, page-aligned memory mapping,
  the parser of byte sizes, and the opening and locking of files come from libraries or the system.
  Properties name what they assume of them.

  \<^bold>\<open>Not modelled.\<close> Opening and locking files, probing direct I/O, wake-ups and polling of the queue
  threads and decompression of archives are system or library calls. Log spans and the registration
  of metrics have no effect on results; counters and gauges are modelled. The command that replays
  traces in real time, benchmarks, examples and module roots contain no cache logic of their own. A
  read is one read of the file; its split into requests is not modelled, that of a write is. The memory a disk read takes from the buffer pool is represented by the capacity of its buffer, which is
  an argument of the read.
\<close>

end
